(* ===== verification/Prelude.thy ===== *)
theory Prelude
  imports Main "HOL-Library.Word" "HOL-Library.Monad_Syntax"
begin

text \<open>
  Shared vocabulary of the development: octets, C strings and buffers, pointer reads, and the
  generic lemmas on lists and options the components use.

  An octet is a \<open>char\<close> (256 values). A buffer with an explicit length is a list of
  octets. A NUL-terminated C string is the list of the octets before its NUL; a pointer into it
  is an index, the index \<open>length s\<close> being the NUL itself. \<open>rd s i\<close> is the C read
  \<open>s[i]\<close> of such a string: it gives the NUL at the end and \<open>None\<close> past it, so that a
  read outside the object is visible in the model instead of being some unspecified value.
  \<open>rdb\<close> is the same for a buffer with a length, which has no octet after its last.
\<close>

section \<open>Octets\<close>

type_synonym octets = "char list"

abbreviation NUL :: char where "NUL \<equiv> CHR 0x00"
abbreviation TAB :: char where "TAB \<equiv> CHR 0x09"
abbreviation LF :: char where "LF \<equiv> CHR 0x0A"
abbreviation CR :: char where "CR \<equiv> CHR 0x0D"
abbreviation SP :: char where "SP \<equiv> CHR 0x20"

text \<open>The value of an octet, as C's \<open>unsigned char\<close> promoted to an integer.\<close>

definition ord :: "char \<Rightarrow> nat" where
  "ord c = of_char c"

definition chr :: "nat \<Rightarrow> char" where
  "chr n = char_of n"

lemma ord_chr [simp]: "ord (chr n) = n mod 256"
  by (simp add: ord_def chr_def)

lemma chr_ord [simp]: "chr (ord c) = c"
  by (simp add: ord_def chr_def)

lemma ord_lt_256 [simp]: "ord c < 256"
  by (metis chr_ord ord_chr mod_less_divisor zero_less_numeral)

lemma ord_inject [simp]: "ord c = ord d \<longleftrightarrow> c = d"
  by (simp add: ord_def)

lemma ord_0_iff [simp]: "ord c = 0 \<longleftrightarrow> c = NUL"
  using ord_inject [of c NUL] by (simp add: ord_def)

lemma ord_NUL [simp]: "ord NUL = 0"
  by simp

text \<open>The macro \<open>ISWHITE\<close> of \<open>include/inn/libinn.h\<close>.\<close>

definition ISWHITE :: "char \<Rightarrow> bool" where
  "ISWHITE c \<longleftrightarrow> c = SP \<or> c = TAB"

lemma ISWHITE_simps [simp]:
  "ISWHITE SP" "ISWHITE TAB" "\<not> ISWHITE LF" "\<not> ISWHITE CR" "\<not> ISWHITE NUL"
  by (simp_all add: ISWHITE_def)

text \<open>The character tests of \<open>ctype.h\<close> in the C locale.\<close>

definition c_isdigit :: "char \<Rightarrow> bool" where
  "c_isdigit c \<longleftrightarrow> 48 \<le> ord c \<and> ord c \<le> 57"

definition c_isupper :: "char \<Rightarrow> bool" where
  "c_isupper c \<longleftrightarrow> 65 \<le> ord c \<and> ord c \<le> 90"

definition c_islower :: "char \<Rightarrow> bool" where
  "c_islower c \<longleftrightarrow> 97 \<le> ord c \<and> ord c \<le> 122"

definition c_isalnum :: "char \<Rightarrow> bool" where
  "c_isalnum c \<longleftrightarrow> c_isdigit c \<or> c_isupper c \<or> c_islower c"

definition c_isgraph :: "char \<Rightarrow> bool" where
  "c_isgraph c \<longleftrightarrow> 33 \<le> ord c \<and> ord c \<le> 126"

definition c_isprint :: "char \<Rightarrow> bool" where
  "c_isprint c \<longleftrightarrow> 32 \<le> ord c \<and> ord c \<le> 126"

definition c_isspace :: "char \<Rightarrow> bool" where
  "c_isspace c \<longleftrightarrow> c = SP \<or> (9 \<le> ord c \<and> ord c \<le> 13)"

definition c_tolower :: "char \<Rightarrow> char" where
  "c_tolower c = (if c_isupper c then chr (ord c + 32) else c)"

definition c_toupper :: "char \<Rightarrow> char" where
  "c_toupper c = (if c_islower c then chr (ord c - 32) else c)"

lemmas c_char_defs = c_isdigit_def c_isupper_def c_islower_def c_isalnum_def c_isgraph_def
  c_isprint_def c_isspace_def

lemma c_tolower_idem [simp]: "c_tolower (c_tolower c) = c_tolower c"
  by (auto simp: c_tolower_def c_isupper_def)

lemma c_tolower_not_upper [simp]: "\<not> c_isupper (c_tolower c)"
  by (auto simp: c_tolower_def c_isupper_def)

lemma not_graph_NUL [simp]: "\<not> c_isgraph NUL" "\<not> c_isprint NUL" "\<not> c_isdigit NUL"
  by (simp_all add: c_char_defs ord_def)

section \<open>Pointer reads\<close>

definition rd :: "octets \<Rightarrow> nat \<Rightarrow> char option" where
  "rd s i = (if i < length s then Some (s ! i) else if i = length s then Some NUL else None)"

definition rdb :: "octets \<Rightarrow> nat \<Rightarrow> char option" where
  "rdb s i = (if i < length s then Some (s ! i) else None)"

lemma rd_lt [simp]: "i < length s \<Longrightarrow> rd s i = Some (s ! i)"
  by (simp add: rd_def)

lemma rd_end [simp]: "rd s (length s) = Some NUL"
  by (simp add: rd_def)

lemma rd_le: "i \<le> length s \<Longrightarrow> \<exists>c. rd s i = Some c"
  by (auto simp: rd_def)

lemma rd_Some_le: "rd s i = Some c \<Longrightarrow> i \<le> length s"
  by (auto simp: rd_def split: if_splits)

lemma rd_Some_lt: "rd s i = Some c \<Longrightarrow> c \<noteq> NUL \<Longrightarrow> i < length s \<and> s ! i = c"
  by (auto simp: rd_def split: if_splits)

lemma rd_NUL: "NUL \<notin> set s \<Longrightarrow> rd s i = Some NUL \<Longrightarrow> i = length s"
  by (auto simp: rd_def in_set_conv_nth split: if_splits)

lemma rd_not_NUL: "NUL \<notin> set s \<Longrightarrow> i < length s \<Longrightarrow> s ! i \<noteq> NUL"
  by (auto simp: in_set_conv_nth)

lemma rdb_lt [simp]: "i < length s \<Longrightarrow> rdb s i = Some (s ! i)"
  by (simp add: rdb_def)

lemma rdb_Some: "rdb s i = Some c \<longleftrightarrow> i < length s \<and> c = s ! i"
  by (auto simp: rdb_def)

lemma rdb_None: "rdb s i = None \<longleftrightarrow> length s \<le> i"
  by (auto simp: rdb_def)

text \<open>
  \<open>memchr (s + i, c, n)\<close>: the first index of \<open>c\<close> in the \<open>n\<close> octets from \<open>i\<close>. The
  callers keep \<open>i + n\<close> within the object.
\<close>

definition memchr :: "octets \<Rightarrow> nat \<Rightarrow> nat \<Rightarrow> char \<Rightarrow> nat option" where
  "memchr s i n c = find (\<lambda>j. s ! j = c) [i..<i + n]"

lemma find_upt_Some:
  "find P [i..<k] = Some j \<longleftrightarrow> i \<le> j \<and> j < k \<and> P j \<and> (\<forall>m. i \<le> m \<and> m < j \<longrightarrow> \<not> P m)"
proof
  assume "find P [i..<k] = Some j"
  then obtain n where n: "n < k - i" "P (i + n)" "j = i + n" and "\<forall>m<n. \<not> P (i + m)"
    by (auto simp: find_Some_iff)
  moreover have "\<not> P m" if "i \<le> m" "m < j" for m
    using that n(3) \<open>\<forall>m<n. \<not> P (i + m)\<close> by (metis add_less_cancel_left le_Suc_ex)
  ultimately show "i \<le> j \<and> j < k \<and> P j \<and> (\<forall>m. i \<le> m \<and> m < j \<longrightarrow> \<not> P m)" by auto
next
  assume "i \<le> j \<and> j < k \<and> P j \<and> (\<forall>m. i \<le> m \<and> m < j \<longrightarrow> \<not> P m)"
  then show "find P [i..<k] = Some j"
    by (auto simp: find_Some_iff intro!: exI [of _ "j - i"])
qed

lemma find_upt_None: "find P [i..<k] = None \<longleftrightarrow> (\<forall>m. i \<le> m \<and> m < k \<longrightarrow> \<not> P m)"
  by (auto simp: find_None_iff)

lemma memchr_Some:
  "memchr s i n c = Some j \<longleftrightarrow>
     i \<le> j \<and> j < i + n \<and> s ! j = c \<and> (\<forall>m. i \<le> m \<and> m < j \<longrightarrow> s ! m \<noteq> c)"
  unfolding memchr_def by (rule find_upt_Some)

lemma memchr_None: "memchr s i n c = None \<longleftrightarrow> (\<forall>m. i \<le> m \<and> m < i + n \<longrightarrow> s ! m \<noteq> c)"
  unfolding memchr_def by (rule find_upt_None)

section \<open>The first index with a property\<close>

definition first_at :: "(nat \<Rightarrow> bool) \<Rightarrow> nat \<Rightarrow> nat \<Rightarrow> bool" where
  "first_at P p k \<longleftrightarrow> p \<le> k \<and> P k \<and> (\<forall>m. p \<le> m \<and> m < k \<longrightarrow> \<not> P m)"

lemma first_at_unique: "first_at P p k \<Longrightarrow> first_at P p l \<Longrightarrow> k = l"
  unfolding first_at_def by (metis linorder_neqE_nat)

lemma first_at_skip:
  assumes "p \<le> r" and "\<And>m. p \<le> m \<Longrightarrow> m < r \<Longrightarrow> \<not> P m"
  shows "first_at P p k \<longleftrightarrow> first_at P r k"
proof
  assume L: "first_at P p k"
  then have "\<not> k < r" using assms(2) [of k] by (auto simp: first_at_def)
  then show "first_at P r k" using L assms(1) by (auto simp: first_at_def)
next
  assume R: "first_at P r k"
  have "\<not> P m" if "p \<le> m" "m < k" for m
    using that R assms(2) [of m] by (cases "m < r") (auto simp: first_at_def)
  then show "first_at P p k" using R assms(1) by (auto simp: first_at_def)
qed

lemma first_at_Suc: "\<not> P p \<Longrightarrow> first_at P p k \<longleftrightarrow> first_at P (p + 1) k"
  using first_at_skip [of p "p + 1" P k] by (auto simp: less_Suc_eq_le)

lemma first_at_here: "P p \<Longrightarrow> first_at P p k \<longleftrightarrow> k = p"
  by (auto simp: first_at_def order.order_iff_strict)

section \<open>Lists\<close>

lemma take_drop_nth:
  "i + n \<le> length s \<Longrightarrow> take n (drop i s) = map (\<lambda>k. s ! (i + k)) [0..<n]"
  by (rule nth_equalityI) auto

lemma drop_eq_Cons: "i < length s \<Longrightarrow> drop i s = s ! i # drop (Suc i) s"
  by (rule Cons_nth_drop_Suc [symmetric])

end
