(* ===== verification/Wire.thy ===== *)
theory Wire
  imports Prelude
begin

text \<open>
  Wire-format articles, \<open>lib/wire.c\<close>. An article is a buffer of octets; a pointer into it is
  an index, and the pointer \<open>end\<close> to its last octet is the index \<open>length a - 1\<close>. The
  routines that look at octets they have not bounded give an outer \<open>None\<close> where the code reads
  past the buffer.
\<close>

section \<open>Finding the body and the lines\<close>

abbreviation CRLF :: octets where "CRLF \<equiv> [CR, LF]"

function findbody_loop :: "octets \<Rightarrow> nat \<Rightarrow> nat option" where
  "findbody_loop a p =
     (if p + 4 \<le> length a then
        (case memchr a p (length a - p - 3) CR of
           None \<Rightarrow> None
         | Some q \<Rightarrow> if take 4 (drop q a) = [CR, LF, CR, LF] then Some (q + 4)
                      else findbody_loop a (q + 1))
      else None)"
  by pat_completeness auto
termination
  by (relation "measure (\<lambda>(a, p). length a - p)") (auto simp: memchr_Some)

declare findbody_loop.simps [simp del]

definition wire_findbody :: "octets \<Rightarrow> nat option" where
  "wire_findbody a =
     (if 5 < length a \<and> a ! 0 = CR \<and> a ! 1 = LF then Some 2 else findbody_loop a 0)"

function wire_nextline :: "octets \<Rightarrow> nat \<Rightarrow> nat \<Rightarrow> nat option" where
  "wire_nextline a p e =
     (if p + 2 \<le> e then
        (case memchr a p (e - p - 2) CR of
           None \<Rightarrow> None
         | Some q \<Rightarrow> if a ! (q + 1) = LF then Some (q + 2) else wire_nextline a (q + 1) e)
      else None)"
  by pat_completeness auto
termination
  by (relation "measure (\<lambda>(a, p, e). e - p)") (auto simp: memchr_Some)

declare wire_nextline.simps [simp del]

section \<open>Finding a header\<close>

definition isheader :: "octets \<Rightarrow> nat \<Rightarrow> octets \<Rightarrow> bool" where
  "isheader a p h =
     (if a ! (p + length h) \<noteq> CHR '':'' \<or> \<not> ISWHITE (a ! (p + length h + 1)) then False
      else map c_tolower (take (length h) (drop p a)) = map c_tolower h)"

text \<open>The inner option is the C result (\<open>None\<close> for NULL), the outer one the reads.\<close>

function skip_fws_bounded :: "octets \<Rightarrow> nat \<Rightarrow> nat \<Rightarrow> nat option option" where
  "skip_fws_bounded a p e =
     (if p \<le> e then
        do { c0 \<leftarrow> rdb a p;
             fold \<leftarrow> (if c0 = CR then
                        do { c1 \<leftarrow> rdb a (p + 1);
                             if c1 = LF then do { c2 \<leftarrow> rdb a (p + 2); Some (ISWHITE c2) }
                             else Some False }
                      else Some False);
             let p' = (if fold then p + 2 else p);
             c \<leftarrow> rdb a p';
             if \<not> ISWHITE c then Some (Some p') else skip_fws_bounded a (p' + 1) e }
      else Some None)"
  by pat_completeness auto
termination
  by (relation "measure (\<lambda>(a, p, e). Suc e - p)") auto

declare skip_fws_bounded.simps [simp del]

text \<open>A CRLF at an index.\<close>

definition crlf_at :: "octets \<Rightarrow> nat \<Rightarrow> bool" where
  "crlf_at a k \<longleftrightarrow> a ! k = CR \<and> a ! (k + 1) = LF"

lemma crlf_at_CR: "a ! m \<noteq> CR \<Longrightarrow> \<not> crlf_at a m"
  by (simp add: crlf_at_def)

lemma wire_nextline_Some:
  "wire_nextline a p e = Some q \<longleftrightarrow> (\<exists>k. q = k + 2 \<and> k + 3 \<le> e \<and> first_at (crlf_at a) p k)"
proof (induction a p e rule: wire_nextline.induct)
  case (1 a p e)
  show ?case
  proof (cases "p + 2 \<le> e")
    case False
    then show ?thesis by (subst wire_nextline.simps) (auto simp: first_at_def)
  next
    case le: True
    show ?thesis
    proof (cases "memchr a p (e - p - 2) CR")
      case None
      then have "\<forall>m. p \<le> m \<and> m < e - 2 \<longrightarrow> a ! m \<noteq> CR" using le by (auto simp: memchr_None)
      then have "\<not> (\<exists>k. q = k + 2 \<and> k + 3 \<le> e \<and> first_at (crlf_at a) p k)"
        by (auto simp: first_at_def crlf_at_def)
      then show ?thesis using le None by (subst wire_nextline.simps) simp
    next
      case (Some r)
      then have r: "p \<le> r" "r < e - 2" "a ! r = CR"
        and before: "\<And>m. p \<le> m \<Longrightarrow> m < r \<Longrightarrow> a ! m \<noteq> CR"
        using le by (auto simp: memchr_Some)
      note skip = first_at_skip [of p r "crlf_at a", OF r(1) crlf_at_CR [OF before]]
      show ?thesis
      proof (cases "a ! (r + 1) = LF")
        case True
        then have "first_at (crlf_at a) p k \<longleftrightarrow> k = r" for k
          using r(3) skip [of k] first_at_here [of "crlf_at a" r k] by (simp add: crlf_at_def)
        then show ?thesis using le Some True r(2) by (subst wire_nextline.simps) auto
      next
        case False
        then have "first_at (crlf_at a) p k \<longleftrightarrow> first_at (crlf_at a) (r + 1) k" for k
          using skip [of k] first_at_Suc [of "crlf_at a" r k] by (simp add: crlf_at_def)
        then show ?thesis using le Some False "1.IH" [OF le Some False]
          by (subst wire_nextline.simps) simp
      qed
    qed
  qed
qed

lemma wire_nextline_bounds: "wire_nextline a p e = Some q \<Longrightarrow> p + 2 \<le> q \<and> q < e"
  by (auto simp: wire_nextline_Some first_at_def)

lemma skip_fws_bounded_ge: "skip_fws_bounded a p e = Some (Some q) \<Longrightarrow> p \<le> q"
proof (induction a p e rule: skip_fws_bounded.induct)
  case (1 a p e)
  from "1.prems" show ?case
    by (subst (asm) skip_fws_bounded.simps)
      (auto simp: Let_def split: if_splits Option.bind_splits dest!: "1.IH")
qed

function findheader_loop :: "octets \<Rightarrow> nat \<Rightarrow> octets \<Rightarrow> bool \<Rightarrow> nat option option" where
  "findheader_loop a p h strip =
     (let e = length a - 1 in
      if p + length h + 2 < e then
        if a ! p = CR \<and> a ! (p + 1) = LF then Some None
        else if isheader a p h then
          do { r \<leftarrow> (if strip then skip_fws_bounded a (p + length h + 2) e
                     else Some (Some (p + length h + 2)));
               (case r of
                  None \<Rightarrow> Some None
                | Some q \<Rightarrow>
                    if q \<ge> e \<or> a ! q \<noteq> CR \<or> a ! (q + 1) \<noteq> LF then Some (Some q)
                    else
                      (case wire_nextline a q e of
                         None \<Rightarrow> Some None
                       | Some q' \<Rightarrow> findheader_loop a q' h strip)) }
        else (case wire_nextline a p e of
                None \<Rightarrow> Some None
              | Some q' \<Rightarrow> findheader_loop a q' h strip)
      else Some None)"
  by pat_completeness auto
termination
  by (relation "measure (\<lambda>(a, p, h, strip). length a - p)")
    (auto dest!: wire_nextline_bounds skip_fws_bounded_ge split: if_splits)

declare findheader_loop.simps [simp del]

definition wire_findheader :: "octets \<Rightarrow> octets \<Rightarrow> bool \<Rightarrow> nat option option" where
  "wire_findheader a h strip = findheader_loop a 0 h strip"

function endheader_loop :: "octets \<Rightarrow> nat option \<Rightarrow> nat \<Rightarrow> nat option" where
  "endheader_loop a None e = None"
| "endheader_loop a (Some p) e =
     (if \<not> ISWHITE (a ! p) then Some (p - 1) else endheader_loop a (wire_nextline a p e) e)"
  by pat_completeness auto
termination
  by (relation "measure (\<lambda>(a, p, e). case p of None \<Rightarrow> 0 | Some i \<Rightarrow> Suc (e - i))")
    (auto dest!: wire_nextline_bounds split: option.splits)

declare endheader_loop.simps [simp del]

definition wire_endheader :: "octets \<Rightarrow> nat \<Rightarrow> nat \<Rightarrow> nat option" where
  "wire_endheader a p e =
     (case endheader_loop a (wire_nextline a p e) e of
        Some q \<Rightarrow> Some q
      | None \<Rightarrow> if p + 1 \<le> e \<and> a ! e = LF \<and> a ! (e - 1) = CR then Some e else None)"

section \<open>Conversion between the wire and the native format\<close>

text \<open>
  Each direction makes two passes over the article: one counts the octets to allocate, the other
  writes them. The loops walk the remaining suffix of the article; \<open>at_start\<close> is the local of
  that name.
\<close>

abbreviation DOT :: char where "DOT \<equiv> CHR ''.''"

fun from_native_count :: "bool \<Rightarrow> octets \<Rightarrow> nat" where
  "from_native_count at_start [] = 3"
| "from_native_count at_start (c # cs) =
     (if at_start \<and> c = DOT then 1 else 0) + 1 + (if c = LF then 1 else 0) +
     from_native_count (c = LF) cs"

fun from_native_copy :: "bool \<Rightarrow> octets \<Rightarrow> octets" where
  "from_native_copy at_start [] = [DOT, CR, LF]"
| "from_native_copy at_start (c # cs) =
     (if c = LF then CR # LF # from_native_copy True cs
      else (if at_start \<and> c = DOT then [DOT] else []) @ c # from_native_copy False cs)"

text \<open>The new article and \<open>*newlen\<close>.\<close>

definition wire_from_native :: "octets \<Rightarrow> octets \<times> nat" where
  "wire_from_native a = (from_native_copy True a, from_native_count True a)"

fun to_native_count :: "bool \<Rightarrow> octets \<Rightarrow> nat" where
  "to_native_count at_start [] = 0"
| "to_native_count at_start (c # r) =
     (if c # r = [DOT, CR, LF] then 0
      else if at_start \<and> r \<noteq> [] \<and> c = DOT \<and> hd r = DOT then 1 + to_native_count False (tl r)
      else if r \<noteq> [] \<and> c = CR \<and> hd r = LF then 1 + to_native_count True (tl r)
      else 1 + to_native_count False r)"

fun to_native_copy :: "bool \<Rightarrow> octets \<Rightarrow> octets" where
  "to_native_copy at_start [] = []"
| "to_native_copy at_start (c # r) =
     (if c # r = [DOT, CR, LF] then []
      else if at_start \<and> r \<noteq> [] \<and> c = DOT \<and> hd r = DOT then DOT # to_native_copy False (tl r)
      else if r \<noteq> [] \<and> c = CR \<and> hd r = LF then LF # to_native_copy True (tl r)
      else c # to_native_copy False r)"

text \<open>
  An article shorter than three octets is copied by \<open>xstrndup\<close> (\<open>lib/xmalloc.c\<close>), which stops
  at a NUL, while \<open>*newlen\<close> is the length asked for.
\<close>

definition xstrndup :: "octets \<Rightarrow> nat \<Rightarrow> octets" where
  "xstrndup s n = takeWhile (\<lambda>c. c \<noteq> NUL) (take n s)"

definition wire_to_native :: "octets \<Rightarrow> octets \<times> nat" where
  "wire_to_native a =
     (if length a < 3 then (xstrndup a (length a), length a)
      else (to_native_copy True a, to_native_count True a))"

section \<open>Lemmas\<close>

lemma length_from_native_copy: "length (from_native_copy b a) = from_native_count b a"
  by (induction b a rule: from_native_count.induct) (auto simp: from_native_copy.simps)

lemma length_to_native_copy: "length (to_native_copy b a) = to_native_count b a"
  by (induction b a rule: to_native_count.induct) auto

lemma from_native_copy_neq_Nil [simp]: "from_native_copy b a \<noteq> []"
  by (cases a) auto

lemma length_from_native_ge: "3 \<le> length (from_native_copy b a)"
  by (induction b a rule: from_native_copy.induct) auto

text \<open>
  Unstuffing undoes stuffing, by induction on the native article. At the end of the article what
  is left is exactly the terminator; before it, no suffix of the wire form is the terminator.
\<close>

lemma to_native_terminator [simp]: "to_native_copy b [DOT, CR, LF] = []"
  by simp

lemma to_native_step:
  "c \<noteq> LF \<Longrightarrow> to_native_copy b (from_native_copy b (c # cs)) =
     c # to_native_copy False (from_native_copy False cs)"
  using length_from_native_ge [of False cs]
  by (cases cs; cases b) (auto split: if_splits)

lemma to_native_from_native_copy: "to_native_copy b (from_native_copy b a) = a"
proof (induction a arbitrary: b)
  case Nil
  show ?case by simp
next
  case (Cons c cs)
  show ?case
  proof (cases "c = LF")
    case True
    then show ?thesis using Cons.IH [of True] by simp
  next
    case False
    then show ?thesis using Cons.IH [of False] by (simp add: to_native_step del: from_native_copy.simps)
  qed
qed

text \<open>The octets before the body: the first CRLF CRLF.\<close>

definition blank_line_at :: "octets \<Rightarrow> nat \<Rightarrow> bool" where
  "blank_line_at a k \<longleftrightarrow> take 4 (drop k a) = [CR, LF, CR, LF]"

lemma blank_line_at_bound:
  assumes "blank_line_at a k"
  shows "k + 4 \<le> length a \<and> a ! k = CR"
proof -
  from assms have t: "take 4 (drop k a) = [CR, LF, CR, LF]" by (simp add: blank_line_at_def)
  from arg_cong [OF t, of length] have le: "k + 4 \<le> length a"
    by (auto simp: min_def split: if_splits)
  moreover from arg_cong [OF t, of "\<lambda>x. x ! 0"] le have "a ! k = CR" by simp
  ultimately show ?thesis ..
qed

lemmas findbody_loop_unfold = findbody_loop.simps [folded blank_line_at_def]

lemma findbody_loop_Some:
  "findbody_loop a p = Some b \<longleftrightarrow> (\<exists>k. b = k + 4 \<and> first_at (blank_line_at a) p k)"
proof (induction a p rule: findbody_loop.induct)
  case (1 a p)
  show ?case
  proof (cases "p + 4 \<le> length a")
    case False
    then have "\<not> first_at (blank_line_at a) p k" for k
      by (auto simp: first_at_def dest: blank_line_at_bound)
    then show ?thesis using False by (subst findbody_loop_unfold) simp
  next
    case le: True
    show ?thesis
    proof (cases "memchr a p (length a - p - 3) CR")
      case None
      then have "\<not> first_at (blank_line_at a) p k" for k
        using le by (auto simp: memchr_None first_at_def dest!: blank_line_at_bound)
      then show ?thesis using le None by (subst findbody_loop_unfold) simp
    next
      case (Some r)
      then have r: "p \<le> r" and "\<And>m. p \<le> m \<Longrightarrow> m < r \<Longrightarrow> a ! m \<noteq> CR"
        by (auto simp: memchr_Some)
      then have skip: "first_at (blank_line_at a) p k \<longleftrightarrow> first_at (blank_line_at a) r k" for k
        by (intro first_at_skip) (auto dest: blank_line_at_bound)
      show ?thesis
      proof (cases "blank_line_at a r")
        case True
        then show ?thesis using le Some first_at_here [of "blank_line_at a" r]
          by (subst findbody_loop_unfold) (auto simp: skip)
      next
        case False
        then show ?thesis
          using le Some "1.IH" [OF le Some, folded blank_line_at_def] first_at_Suc [of "blank_line_at a" r]
          by (subst findbody_loop_unfold) (auto simp: skip)
      qed
    qed
  qed
qed

text \<open>
  A header is found at the start of a line, before the empty line that ends the headers, and the
  pointer returned is past its name, colon and the white space after it.
\<close>

definition line_start :: "octets \<Rightarrow> nat \<Rightarrow> bool" where
  "line_start a p \<longleftrightarrow> p = 0 \<or> (\<exists>k. p = k + 2 \<and> crlf_at a k)"

lemma wire_nextline_line_start: "wire_nextline a p e = Some q \<Longrightarrow> line_start a q"
  by (auto simp: wire_nextline_Some first_at_def line_start_def)

definition header_found :: "octets \<Rightarrow> octets \<Rightarrow> bool \<Rightarrow> nat \<Rightarrow> nat \<Rightarrow> bool" where
  "header_found a h strip p q \<longleftrightarrow>
     (\<exists>l. p \<le> l \<and> line_start a l \<and> \<not> crlf_at a l \<and> isheader a l h \<and> l + length h + 2 \<le> q \<and>
        (strip \<or> q = l + length h + 2))"

lemma header_found_mono:
  assumes "header_found a h strip p' q" and "p \<le> p'"
  shows "header_found a h strip p q"
proof -
  from assms(1) obtain l where l: "p' \<le> l" "line_start a l \<and> \<not> crlf_at a l \<and> isheader a l h \<and>
      l + length h + 2 \<le> q \<and> (strip \<or> q = l + length h + 2)"
    unfolding header_found_def by blast
  from assms(2) l(1) have "p \<le> l" by simp
  with l(2) show ?thesis unfolding header_found_def by blast
qed

lemma findheader_loop_found:
  assumes "findheader_loop a p h strip = Some (Some q)" and "line_start a p"
  shows "header_found a h strip p q"
  using assms
proof (induction a p h strip rule: findheader_loop.induct)
  case (1 a p h strip)
  let ?e = "length a - 1"
  from "1.prems"(1) have bound: "p + length h + 2 < ?e" and ne: "\<not> (a ! p = CR \<and> a ! (p + 1) = LF)"
    by (subst (asm) findheader_loop.simps; auto simp: Let_def split: if_splits)+
  have step: "header_found a h strip p q"
    if "wire_nextline a s ?e = Some q'" "p \<le> s" "line_start a q' \<Longrightarrow> header_found a h strip q' q"
    for s q'
    using that(3) [OF wire_nextline_line_start [OF that(1)]] wire_nextline_bounds [OF that(1)] that(2)
    by (auto intro: header_found_mono)
  show ?case
  proof (cases "isheader a p h")
    case False
    then obtain q' where n: "wire_nextline a p ?e = Some q'"
      and f: "findheader_loop a q' h strip = Some (Some q)"
      using "1.prems"(1) bound ne
      by (subst (asm) findheader_loop.simps) (auto simp: Let_def split: if_splits option.splits)
    show ?thesis by (rule step [OF n le_refl "1.IH"(2) [OF refl bound ne False n f]])
  next
    case True
    define start where "start = (if strip then skip_fws_bounded a (p + length h + 2) ?e
      else Some (Some (p + length h + 2)))"
    from "1.prems"(1) bound ne True obtain r where r: "start = Some (Some r)" and
      alt: "(r \<ge> ?e \<or> a ! r \<noteq> CR \<or> a ! (r + 1) \<noteq> LF) \<and> r = q \<or>
        \<not> (r \<ge> ?e \<or> a ! r \<noteq> CR \<or> a ! (r + 1) \<noteq> LF) \<and>
        (\<exists>q'. wire_nextline a r ?e = Some q' \<and> findheader_loop a q' h strip = Some (Some q))"
      unfolding start_def
      by (subst (asm) findheader_loop.simps)
        (auto simp: Let_def split: if_splits option.splits Option.bind_splits)
    have ge: "p + length h + 2 \<le> r"
      using r unfolding start_def by (auto split: if_splits dest: skip_fws_bounded_ge)
    have eq: "strip \<or> r = p + length h + 2" using r unfolding start_def by (auto split: if_splits)
    show ?thesis
    proof (cases "r \<ge> ?e \<or> a ! r \<noteq> CR \<or> a ! (r + 1) \<noteq> LF")
      case stop: True
      then have "r = q" using alt by blast
      then show ?thesis using ge eq True ne "1.prems"(2)
        by (auto simp: header_found_def crlf_at_def)
    next
      case go: False
      then obtain q' where n: "wire_nextline a r ?e = Some q'"
        and f: "findheader_loop a q' h strip = Some (Some q)"
        using alt by blast
      have "p \<le> r" using ge by simp
      from step [OF n this "1.IH"(1) [OF refl bound ne True r [unfolded start_def] refl go n f]]
      show ?thesis .
    qed
  qed
qed

text \<open>
  On an article that ends in the terminator line, skipping white space stops at the dot at the
  latest, so no read leaves the buffer.
\<close>

definition terminated :: "octets \<Rightarrow> bool" where
  "terminated a \<longleftrightarrow> 3 \<le> length a \<and> drop (length a - 3) a = [DOT, CR, LF]"

lemma terminated_dot: "terminated a \<Longrightarrow> 3 \<le> length a \<and> a ! (length a - 3) = DOT"
  unfolding terminated_def by (metis diff_less drop_eq_Cons less_le_trans list.sel(1) zero_less_numeral)

lemma skip_fws_bounded_safe:
  assumes "a ! d = DOT" and "d + 2 = e" and "e < length a" and "p \<le> d"
  shows "\<exists>q. skip_fws_bounded a p e = Some (Some q) \<and> q \<le> d"
  using assms
proof (induction a p e rule: skip_fws_bounded.induct)
  case (1 a p e)
  then have le: "p \<le> e" "p < length a" "p + 1 < length a" "p + 2 < length a" by auto
  define f where "f \<longleftrightarrow> a ! p = CR \<and> a ! (p + 1) = LF \<and> ISWHITE (a ! (p + 2))"
  have f: "(if a ! p = CR then
              do { c1 \<leftarrow> rdb a (p + 1);
                   if c1 = LF then do { c2 \<leftarrow> rdb a (p + 2); Some (ISWHITE c2) } else Some False }
            else Some False) = Some f"
    using le by (simp add: f_def)
  define p' where "p' = (if f then p + 2 else p)"
  have dot: "\<not> ISWHITE (a ! d)" using "1.prems"(1) by (simp add: ISWHITE_def)
  have p': "p' \<le> d" "p' < length a"
  proof -
    have "f \<Longrightarrow> p \<noteq> d \<and> p + 1 \<noteq> d" using "1.prems"(1) by (auto simp: f_def)
    then show "p' \<le> d" using "1.prems"(4) by (auto simp: p'_def)
    then show "p' < length a" using "1.prems"(2,3) by simp
  qed
  have eq: "skip_fws_bounded a p e =
      (if \<not> ISWHITE (a ! p') then Some (Some p') else skip_fws_bounded a (p' + 1) e)"
    using le p' f by (subst skip_fws_bounded.simps) (simp add: p'_def)
  show ?case
  proof (cases "ISWHITE (a ! p')")
    case False
    then show ?thesis using eq p' by auto
  next
    case True
    then have "p' + 1 \<le> d" using dot p'(1) by (cases "p' = d") auto
    have "\<exists>q. skip_fws_bounded a (p' + 1) e = Some (Some q) \<and> q \<le> d"
      by (rule "1.IH" [of "a ! p" f p' "a ! p'"])
        (use le f p' p'_def True \<open>p' + 1 \<le> d\<close> "1.prems" in auto)
    then show ?thesis using eq True by simp
  qed
qed

lemma findheader_loop_safe:
  assumes "terminated a"
  shows "\<exists>r. findheader_loop a p h strip = Some r"
  using assms
proof (induction a p h strip rule: findheader_loop.induct)
  case (1 a p h strip)
  let ?e = "length a - 1" and ?s = "p + length h + 2"
  show ?case
  proof (cases "?s < ?e \<and> \<not> (a ! p = CR \<and> a ! (p + 1) = LF)")
    case False
    then show ?thesis by (subst findheader_loop.simps) (auto simp: Let_def)
  next
    case go: True
    note dot = terminated_dot [OF "1.prems"]
    show ?thesis
    proof (cases "isheader a p h")
      case False
      then show ?thesis using go "1.IH"(2) [OF refl _ _ False _ "1.prems"]
        by (subst findheader_loop.simps) (auto simp: Let_def split: option.splits)
    next
      case True
      have "?s \<noteq> length a - 2"
      proof
        assume "?s = length a - 2"
        then have "p + length h + 1 = length a - 3" using dot by linarith
        then show False using True dot by (auto simp: isheader_def ISWHITE_def split: if_splits)
      qed
      then have "?s \<le> length a - 3" using go by linarith
      moreover have "length a - 3 + 2 = ?e" "?e < length a" using dot by linarith+
      ultimately obtain q where q: "skip_fws_bounded a ?s ?e = Some (Some q)"
        using skip_fws_bounded_safe [of a "length a - 3" ?e ?s] dot by blast
      show ?thesis
        using go True q "1.IH"(1) [OF refl _ _ True _ refl _ _ "1.prems"]
        by (subst findheader_loop.simps) (auto simp: Let_def split: option.splits if_splits)
    qed
  qed
qed

text \<open>Without the terminator the scan for white space does leave the buffer.\<close>

lemma findheader_overread:
  "wire_findheader (''A:  '' @ CRLF) ''A'' True = None"
  by (simp add: wire_findheader_def findheader_loop.simps isheader_def skip_fws_bounded.simps
      rdb_def ISWHITE_def c_tolower_def c_isupper_def ord_def numeral_eq_Suc)

section \<open>Properties\<close>

text \<open>
  C37: converting an article from the native to the wire format and back gives the article and its
  length again, whatever octets it holds (bare CRs, NULs, leading dots, a missing last newline).
\<close>

theorem wire_roundtrip: "wire_to_native (fst (wire_from_native a)) = (a, length a)"
  using length_from_native_ge [of True a] length_to_native_copy [of True "from_native_copy True a"]
  by (simp add: wire_to_native_def wire_from_native_def to_native_from_native_copy)

text \<open>
  \<open>wire_nextline\<close> returns the octet after the first CRLF from the pointer on, and it does so
  only where at least two octets of the article are left from there: \<open>end\<close> is the last octet
  and the CRLF must lie below \<open>end - 1\<close>.
\<close>

theorem wire_nextline_spec:
  "wire_nextline a p e = Some q \<longleftrightarrow> (\<exists>k. q = k + 2 \<and> q < e \<and> first_at (crlf_at a) p k)"
  by (auto simp: wire_nextline_Some)



text \<open>
  The number of octets \<open>wire_from_native\<close> counts and allocates is the number it writes.
\<close>

theorem wire_from_native_fits: "length (fst (wire_from_native a)) = snd (wire_from_native a)"
  by (simp add: wire_from_native_def length_from_native_copy)

text \<open>
  \<open>wire_findbody\<close> finds the octet after the first CRLF CRLF (or after a leading CRLF).
\<close>

theorem wire_findbody_spec:
  "wire_findbody a = Some b \<longleftrightarrow>
     (if 5 < length a \<and> crlf_at a 0 then b = 2
      else \<exists>k. b = k + 4 \<and> first_at (blank_line_at a) 0 k)"
  by (auto simp: wire_findbody_def crlf_at_def findbody_loop_Some)

end
