(* ===== verification/Uwildmat.thy ===== *)
theory Uwildmat
  imports Prelude
begin

text \<open>
  Wildmat matching, \<open>lib/uwildmat.c\<close>. Text and pattern are C strings; a pointer is an index and
  every read goes through \<open>rd\<close>, so a function gives \<open>None\<close> where the code would read past the
  NUL. The C argument \<open>end\<close> points to the last octet of a pattern; here \<open>n\<close> is the index after it,
  which also covers the empty pattern.
\<close>

section \<open>UTF-8\<close>

text \<open>
  Bits are read off the octet's value: \<open>*p & 0xc0 == 0x80\<close> says that it lies in 128..191,
  \<open>*p & 0xc0 == 0xc0\<close> that it is at least 192, and the mask loop counts the leading one bits.
\<close>

definition ISUTF8 :: "char \<Rightarrow> bool" where
  "ISUTF8 c \<longleftrightarrow> 192 \<le> ord c"

definition is_cont :: "char \<Rightarrow> bool" where
  "is_cont c \<longleftrightarrow> 128 \<le> ord c \<and> ord c < 192"

definition lead_ones :: "char \<Rightarrow> nat" where
  "lead_ones c = length (takeWhile (\<lambda>m. odd (ord c div m)) [128, 64, 32, 16, 8, 4, 2, 1])"

text \<open>The loop over the continuation octets: what is left of \<open>left\<close>, and where it stopped.\<close>

fun cont_loop :: "octets \<Rightarrow> nat \<Rightarrow> nat \<Rightarrow> (nat \<times> nat) option" where
  "cont_loop s p 0 = Some (0, p)"
| "cont_loop s p (Suc left) =
     do { c \<leftarrow> rd s p; if is_cont c then cont_loop s (p + 1) left else Some (Suc left, p) }"

text \<open>\<open>e\<close> is the C pointer \<open>end\<close> to the last octet, \<open>None\<close> for NULL.\<close>

definition utf8_length :: "octets \<Rightarrow> nat \<Rightarrow> nat option \<Rightarrow> nat option" where
  "utf8_length s i e =
     do { c \<leftarrow> rd s i;
          let len = lead_ones c in
          if len < 2 \<or> 6 < len then Some 1
          else if (case e of None \<Rightarrow> False | Some e \<Rightarrow> e + 1 < len + i) then Some 1
          else do { (left, p) \<leftarrow> cont_loop s (i + 1) (len - 1);
                    Some (if left = 0 then len else 1) } }"

text \<open>The value of the continuation octets, six bits each.\<close>

fun decode_loop :: "octets \<Rightarrow> nat \<Rightarrow> nat \<Rightarrow> nat \<Rightarrow> nat option" where
  "decode_loop s p 0 value = Some value"
| "decode_loop s p (Suc i) value =
     do { c \<leftarrow> rd s p; decode_loop s (p + 1) i (value * 64 + ord c mod 64) }"

text \<open>The octets consumed and the character, \<open>*result\<close>.\<close>

definition utf8_decode :: "octets \<Rightarrow> nat \<Rightarrow> nat option \<Rightarrow> (nat \<times> nat) option" where
  "utf8_decode s i e =
     do { len \<leftarrow> utf8_length s i e;
          c \<leftarrow> rd s i;
          if len < 2 then Some (1, ord c)
          else do { v \<leftarrow> decode_loop s (i + 1) (len - 1) (ord c mod 2 ^ (7 - len));
                    Some (len, v) } }"

lemma cont_loop_ge: "cont_loop s p k = Some (l, q) \<Longrightarrow> p \<le> q"
  by (induction s p k rule: cont_loop.induct) (auto split: Option.bind_splits if_splits)

function is_valid_utf8_loop :: "octets \<Rightarrow> nat \<Rightarrow> bool option" where
  "is_valid_utf8_loop s p =
     do { c \<leftarrow> rd s p;
          if c = NUL then Some True
          else let len = lead_ones c in
            if len = 0 then
              (if c_isprint c \<or> c = CR \<or> c = LF \<or> c = TAB then is_valid_utf8_loop s (p + 1)
               else Some False)
            else if len < 2 \<or> 6 < len then Some False
            else do { (left, q) \<leftarrow> cont_loop s (p + 1) (len - 1);
                      if 0 < left then Some False else is_valid_utf8_loop s q } }"
  by pat_completeness auto
termination
  by (relation "measure (\<lambda>(s, p). Suc (length s) - p)")
    (auto dest!: rd_Some_le cont_loop_ge)

declare is_valid_utf8_loop.simps [simp del]

definition is_valid_utf8 :: "octets \<Rightarrow> bool option" where
  "is_valid_utf8 s = is_valid_utf8_loop s 0"

section \<open>Character classes\<close>

lemma utf8_length_pos: "utf8_length s i e = Some k \<Longrightarrow> 1 \<le> k"
  by (auto simp: utf8_length_def Let_def split: Option.bind_splits if_splits)

lemma utf8_decode_pos: "utf8_decode s i e = Some (k, v) \<Longrightarrow> 1 \<le> k"
  by (auto simp: utf8_decode_def split: Option.bind_splits if_splits dest: utf8_length_pos)

text \<open>
  The loop of \<open>match_class\<close> over the class body \<open>p .. e\<close> (\<open>e\<close> its last octet), with the locals
  \<open>allowrange\<close> and \<open>first\<close>: whether the character is found.
\<close>

function match_class_loop :: "nat \<Rightarrow> octets \<Rightarrow> nat \<Rightarrow> nat \<Rightarrow> bool \<Rightarrow> nat \<Rightarrow> bool option" where
  "match_class_loop text P p e allowrange first =
     (if p \<le> e then
        do { c \<leftarrow> rd P p;
             if allowrange \<and> c = CHR ''-'' \<and> p < e then
               do { (k, last) \<leftarrow> utf8_decode P (p + 1) (Some e);
                    if first \<le> text \<and> text \<le> last then Some True
                    else match_class_loop text P (p + 1 + k) e False first }
             else
               do { (k, first') \<leftarrow> utf8_decode P p (Some e);
                    if text = first' then Some True
                    else match_class_loop text P (p + k) e True first' } }
      else Some False)"
  by pat_completeness auto
termination
  by (relation "measure (\<lambda>(text, P, p, e, a, f). Suc e - p)") (auto dest!: utf8_decode_pos)

declare match_class_loop.simps [simp del]

definition match_class :: "nat \<Rightarrow> octets \<Rightarrow> nat \<Rightarrow> nat \<Rightarrow> bool option" where
  "match_class text P p e =
     do { c \<leftarrow> rd P p;
          let reversed = (c = CHR ''^'') in
          do { found \<leftarrow> match_class_loop text P (if reversed then p + 1 else p) e False 0;
               Some (if found then \<not> reversed else reversed) } }"

section \<open>Patterns\<close>

datatype mresult = MABORT | MFALSE | MTRUE

definition uwidth :: "octets \<Rightarrow> nat \<Rightarrow> nat option" where
  "uwidth T t = do { c \<leftarrow> rd T t; if ISUTF8 c then utf8_length T t None else Some 1 }"

lemma uwidth_pos: "uwidth T t = Some w \<Longrightarrow> 1 \<le> w"
  by (auto simp: uwidth_def split: Option.bind_splits if_splits dest: utf8_length_pos)

text \<open>Skipping the consecutive stars from \<open>p\<close> on.\<close>

function skip_stars :: "octets \<Rightarrow> nat \<Rightarrow> nat option" where
  "skip_stars P p = do { c \<leftarrow> rd P p; if c = CHR ''*'' then skip_stars P (p + 1) else Some p }"
  by pat_completeness auto
termination
  by (relation "measure (\<lambda>(P, p). Suc (length P) - p)") (auto dest: rd_Some_le)

declare skip_stars.simps [simp del]

text \<open>The inner scan of the optimised case: advance by whole characters to the octet \<open>c\<close> or the NUL.\<close>

function scan_text :: "octets \<Rightarrow> nat \<Rightarrow> char \<Rightarrow> nat option" where
  "scan_text T t c =
     do { tc \<leftarrow> rd T t;
          if tc \<noteq> NUL \<and> tc \<noteq> c then do { w \<leftarrow> uwidth T t; scan_text T (t + w) c } else Some t }"
  by pat_completeness auto
termination
  by (relation "measure (\<lambda>(T, t, c). Suc (length T) - t)") (auto dest!: rd_Some_le uwidth_pos)

declare scan_text.simps [simp del]

text \<open>\<open>memchr\<close> on the pattern, whose NUL can be part of the octets searched.\<close>

definition memchr_s :: "octets \<Rightarrow> nat \<Rightarrow> nat \<Rightarrow> char \<Rightarrow> nat option option" where
  "memchr_s P q n c =
     (if n \<le> Suc (length P) then Some (find (\<lambda>j. rd P j = Some c) [q..<n]) else None)"

function (sequential) match_pattern :: "octets \<Rightarrow> nat \<Rightarrow> octets \<Rightarrow> nat \<Rightarrow> nat \<Rightarrow> mresult option"
  and match_star :: "octets \<Rightarrow> nat \<Rightarrow> octets \<Rightarrow> nat \<Rightarrow> nat \<Rightarrow> bool \<Rightarrow> mresult option"
where
  "match_pattern T t P p n =
     (if p < n then
        do { tc \<leftarrow> rd T t;
             pc \<leftarrow> rd P p;
             if tc = NUL \<and> pc \<noteq> CHR ''*'' then Some MABORT
             else if pc = CHR 0x5C then
               do { pc' \<leftarrow> rd P (p + 1);
                    if pc' = NUL then Some MABORT
                    else if tc \<noteq> pc' then Some MFALSE
                    else match_pattern T (t + 1) P (p + 2) n }
             else if pc = CHR ''?'' then
               do { w \<leftarrow> uwidth T t; match_pattern T (t + w) P (p + 1) n }
             else if pc = CHR ''*'' then
               do { p' \<leftarrow> skip_stars P (p + 1);
                    if n \<le> p' then Some MTRUE
                    else do { c \<leftarrow> rd P p';
                              match_star T t P p' n
                                (c = CHR ''['' \<or> c = CHR ''?'' \<or> c = CHR 0x5C) } }
             else if pc = CHR ''['' then
               do { c1 \<leftarrow> rd P (p + 1);
                    let q = p + 1 + (if c1 = CHR ''^'' then 1 else 0) + 1 in
                    if n \<le> q then Some MABORT
                    else do { r \<leftarrow> memchr_s P q n (CHR '']'');
                              (case r of
                                 None \<Rightarrow> Some MABORT
                               | Some endclass \<Rightarrow>
                                   do { (k, c) \<leftarrow> utf8_decode T t None;
                                        m \<leftarrow> match_class c P (p + 1) (endclass - 1);
                                        if \<not> m then Some MFALSE
                                        else match_pattern T (t + k) P (endclass + 1) n }) } }
             else if tc \<noteq> pc then Some MFALSE
             else match_pattern T (t + 1) P (p + 1) n }
      else do { tc \<leftarrow> rd T t; Some (if tc = NUL then MTRUE else MFALSE) })"
| "match_star T t P p n ismeta =
     do { tc \<leftarrow> rd T t;
          if tc = NUL then Some MABORT
          else if ismeta then
            do { w \<leftarrow> uwidth T t;
                 m \<leftarrow> match_pattern T t P p n;
                 if m \<noteq> MFALSE then Some m else match_star T (t + w) P p n ismeta }
          else
            do { pc \<leftarrow> rd P p;
                 t' \<leftarrow> scan_text T t pc;
                 tc' \<leftarrow> rd T t';
                 if tc' = NUL then Some MABORT
                 else do { m \<leftarrow> match_pattern T (t' + 1) P (p + 1) n;
                           if m \<noteq> MFALSE then Some m
                           else match_star T (t' + 1) P p n ismeta } } }"
  by pat_completeness auto

lemma skip_stars_ge: "skip_stars P p = Some q \<Longrightarrow> p \<le> q"
proof (induction P p rule: skip_stars.induct)
  case (1 P p)
  from "1.prems" show ?case
    by (subst (asm) skip_stars.simps) (auto split: Option.bind_splits if_splits dest!: "1.IH")
qed

lemma scan_text_ge: "scan_text T t c = Some t' \<Longrightarrow> t \<le> t'"
proof (induction T t c rule: scan_text.induct)
  case (1 T t c)
  from "1.prems" show ?case
    by (subst (asm) scan_text.simps) (auto split: Option.bind_splits if_splits dest!: "1.IH")
qed

lemma memchr_s_Some: "memchr_s P q n c = Some (Some j) \<Longrightarrow> q \<le> j \<and> j < n \<and> rd P j = Some c"
  by (auto simp: memchr_s_def find_upt_Some split: if_splits)

termination match_pattern
  by (relation "measures [\<lambda>x. case x of Inl (T, t, P, p, n) \<Rightarrow> Suc (length P) - p
                                     | Inr (T, t, P, p, n, m) \<Rightarrow> Suc (length P) - p,
                          \<lambda>x. case x of Inl (T, t, P, p, n) \<Rightarrow> 0
                                     | Inr (T, t, P, p, n, m) \<Rightarrow> Suc (Suc (length T) - t)]")
    (auto dest!: rd_Some_le skip_stars_ge scan_text_ge memchr_s_Some uwidth_pos)

declare match_pattern.simps [simp del] match_star.simps [simp del]

section \<open>Expressions\<close>

datatype uwildmat_result = UWILDMAT_FAIL | UWILDMAT_MATCH | UWILDMAT_POISON

text \<open>The scan for the end of a character class when an expression is split at its commas.\<close>

function skip_class :: "octets \<Rightarrow> nat \<Rightarrow> nat \<Rightarrow> nat option" where
  "skip_class P i n =
     (if i < n then do { c \<leftarrow> rd P i; if c \<noteq> CHR '']'' then skip_class P (i + 1) n else Some i }
      else Some i)"
  by pat_completeness auto
termination
  by (relation "measure (\<lambda>(P, i, n). n - i)") auto

declare skip_class.simps [simp del]

lemma skip_class_ge: "skip_class P i n = Some j \<Longrightarrow> i \<le> j"
proof (induction P i n rule: skip_class.induct)
  case (1 P i n)
  from "1.prems" show ?case
    by (subst (asm) skip_class.simps) (auto split: Option.bind_splits if_splits dest!: "1.IH")
qed

text \<open>The part of the loop body that steps over a class.\<close>

definition bracket_skip :: "octets \<Rightarrow> nat \<Rightarrow> nat \<Rightarrow> char \<Rightarrow> nat option" where
  "bracket_skip P split n c0 =
     (if c0 = CHR ''['' then
        do { c1 \<leftarrow> rd P (split + 1);
             skip_class P (if c1 = CHR '']'' then split + 2 else split + 1) n }
      else Some split)"

lemma bracket_skip_ge: "bracket_skip P i n c = Some j \<Longrightarrow> i \<le> j"
  by (force simp: bracket_skip_def split: if_splits Option.bind_splits dest!: skip_class_ge)

text \<open>
  The loop that finds the first unescaped comma. \<open>n\<close> is the length of the expression, one more
  than the C index \<open>end\<close>.
\<close>

function find_split :: "octets \<Rightarrow> nat \<Rightarrow> nat \<Rightarrow> bool \<Rightarrow> nat option" where
  "find_split P split n escaped =
     (if split < n then
        do { c0 \<leftarrow> rd P split;
             split' \<leftarrow> bracket_skip P split n c0;
             c \<leftarrow> rd P split';
             if c = CHR '','' \<and> \<not> escaped then Some split'
             else find_split P (split' + 1) n (if c = CHR 0x5C then \<not> escaped else False) }
      else Some split)"
  by pat_completeness auto
termination
  by (relation "measure (\<lambda>(P, i, n, e). n - i)") (auto dest!: bracket_skip_ge)

declare find_split.simps [simp del]

lemma find_split_ge: "find_split P i n e = Some j \<Longrightarrow> i \<le> j"
proof (induction P i n e rule: find_split.induct)
  case (1 P i n e)
  from "1.prems" show ?case
    by (subst (asm) find_split.simps)
      (auto split: Option.bind_splits if_splits dest!: "1.IH" dest: bracket_skip_ge)
qed

text \<open>The main loop, with the locals \<open>match\<close> and \<open>poisoned\<close>, which it returns.\<close>

function expression_loop ::
  "octets \<Rightarrow> octets \<Rightarrow> nat \<Rightarrow> bool \<Rightarrow> bool \<Rightarrow> bool \<Rightarrow> (bool \<times> bool) option" where
  "expression_loop T P p allowpoison matched poisoned =
     (if p \<le> length P then
        do { c \<leftarrow> rd P p;
             let poison = (allowpoison \<and> c = CHR ''@'');
                 reverse = (c = CHR ''!'' \<or> poison);
                 p' = (if reverse then p + 1 else p) in
             do { split \<leftarrow> find_split P p' (length P) False;
                  if matched = (\<not> reverse) \<and> poison = poisoned
                  then expression_loop T P (split + 1) allowpoison matched poisoned
                  else do { m \<leftarrow> match_pattern T 0 P p' split;
                            if m = MTRUE
                            then expression_loop T P (split + 1) allowpoison (\<not> reverse) poison
                            else expression_loop T P (split + 1) allowpoison matched poisoned } } }
      else Some (matched, poisoned))"
  by pat_completeness auto
termination
  by (relation "measure (\<lambda>(T, P, p, a, m, b). Suc (length P) - p)")
    (auto dest!: find_split_ge split: if_splits)

declare expression_loop.simps [simp del]

definition match_expression :: "octets \<Rightarrow> octets \<Rightarrow> bool \<Rightarrow> uwildmat_result option" where
  "match_expression T P allowpoison =
     (if P = [] then Some (if T = [] then UWILDMAT_MATCH else UWILDMAT_FAIL)
      else do { (matched, poisoned) \<leftarrow> expression_loop T P 0 allowpoison False False;
                Some (if poisoned then UWILDMAT_POISON
                      else if matched then UWILDMAT_MATCH else UWILDMAT_FAIL) })"

definition uwildmat :: "octets \<Rightarrow> octets \<Rightarrow> bool option" where
  "uwildmat T P =
     (if P = ''*'' then Some True
      else map_option (\<lambda>r. r = UWILDMAT_MATCH) (match_expression T P False))"

definition uwildmat_poison :: "octets \<Rightarrow> octets \<Rightarrow> uwildmat_result option" where
  "uwildmat_poison T P =
     (if P = ''*'' then Some UWILDMAT_MATCH else match_expression T P True)"

definition uwildmat_simple :: "octets \<Rightarrow> octets \<Rightarrow> bool option" where
  "uwildmat_simple T P =
     (if P = ''*'' then Some True
      else map_option (\<lambda>r. r = MTRUE) (match_pattern T 0 P 0 (length P)))"

section \<open>Reads stay inside the strings\<close>

lemma lead_ones_NUL [simp]: "lead_ones NUL = 0"
  by (simp add: lead_ones_def ord_def)

lemma lead_ones_ascii: "ord c < 128 \<Longrightarrow> lead_ones c = 0"
  by (simp add: lead_ones_def)

lemma is_cont_NUL [simp]: "\<not> is_cont NUL"
  by (simp add: is_cont_def ord_def)

lemma cont_loop_safe:
  "p \<le> length s \<Longrightarrow> \<exists>l q. cont_loop s p k = Some (l, q) \<and> q \<le> length s \<and> (l = 0 \<longrightarrow> q = p + k)"
proof (induction s p k rule: cont_loop.induct)
  case (1 s p)
  then show ?case by simp
next
  case (2 s p k)
  obtain c where c: "rd s p = Some c" using rd_le [OF "2.prems"] by blast
  show ?case
  proof (cases "is_cont c")
    case True
    then have "c \<noteq> NUL" by auto
    then have "p < length s" using c rd_Some_lt by blast
    then show ?thesis using "2.IH" [OF c True] c True by auto
  next
    case False
    then show ?thesis using c "2.prems" by auto
  qed
qed

lemma utf8_length_safe:
  assumes "i \<le> length s"
  shows "\<exists>k. utf8_length s i e = Some k \<and> 1 \<le> k \<and> (rd s i \<noteq> Some NUL \<longrightarrow> i + k \<le> length s)"
proof -
  obtain c where c: "rd s i = Some c" using rd_le [OF assms] by blast
  show ?thesis
  proof (cases "c = NUL")
    case True
    then show ?thesis using c by (simp add: utf8_length_def)
  next
    case False
    then have lt: "i < length s" using c rd_Some_lt by blast
    then obtain l q where "cont_loop s (i + 1) (lead_ones c - 1) = Some (l, q)" "q \<le> length s"
        "l = 0 \<longrightarrow> q = i + 1 + (lead_ones c - 1)"
      using cont_loop_safe [of "i + 1" s] by fastforce
    then show ?thesis using c lt by (auto simp: utf8_length_def Let_def split: option.splits)
  qed
qed

lemma decode_loop_safe: "p + k \<le> length s \<Longrightarrow> \<exists>v'. decode_loop s p k v = Some v'"
  by (induction s p k v rule: decode_loop.induct) auto

lemma utf8_decode_safe:
  assumes "i \<le> length s"
  shows "\<exists>k v. utf8_decode s i e = Some (k, v) \<and> 1 \<le> k \<and> (rd s i \<noteq> Some NUL \<longrightarrow> i + k \<le> length s)"
proof -
  obtain c where c: "rd s i = Some c" using rd_le [OF assms] by blast
  obtain k where k: "utf8_length s i e = Some k" "1 \<le> k" "rd s i \<noteq> Some NUL \<longrightarrow> i + k \<le> length s"
    using utf8_length_safe [OF assms] by blast
  show ?thesis
  proof (cases "k < 2")
    case True
    then have "k = 1" using k(2) by simp
    then show ?thesis using c k by (simp add: utf8_decode_def)
  next
    case False
    then have "c \<noteq> NUL" using k(1) c by (auto simp: utf8_length_def)
    then have "i + 1 + (k - 1) \<le> length s" using k(2,3) c by auto
    then obtain v where "decode_loop s (i + 1) (k - 1) (ord c mod 2 ^ (7 - k)) = Some v"
      using decode_loop_safe by blast
    then show ?thesis using False c k by (simp add: utf8_decode_def)
  qed
qed

lemma uwidth_safe:
  assumes "i < length s" and "NUL \<notin> set s"
  shows "\<exists>w. uwidth s i = Some w \<and> 1 \<le> w \<and> i + w \<le> length s"
  using utf8_length_safe [of i s None] assms rd_not_NUL [of s i]
  by (auto simp: uwidth_def Suc_le_eq)

lemma match_class_loop_safe:
  "e < length P \<Longrightarrow> \<exists>r. match_class_loop x P p e a f = Some r"
proof (induction x P p e a f rule: match_class_loop.induct)
  case (1 x P p e a f)
  show ?case
  proof (cases "p \<le> e")
    case False
    then show ?thesis by (subst match_class_loop.simps) auto
  next
    case True
    then have p: "rd P p = Some (P ! p)" and "p + 1 \<le> length P" using "1.prems" by auto
    obtain k v where d: "utf8_decode P p (Some e) = Some (k, v)"
      using utf8_decode_safe [of p P "Some e"] True "1.prems" by auto
    obtain k' v' where d': "utf8_decode P (p + 1) (Some e) = Some (k', v')"
      using utf8_decode_safe [of "p + 1" P "Some e"] \<open>p + 1 \<le> length P\<close> by auto
    show ?thesis
      using "1.IH"(1) [OF True p _ d' refl _ "1.prems"] "1.IH"(2) [OF True p _ d refl _ "1.prems"] True p d d'
      by (subst match_class_loop.simps) auto
  qed
qed

lemma match_class_safe: "p \<le> length P \<Longrightarrow> e < length P \<Longrightarrow> \<exists>r. match_class x P p e = Some r"
proof -
  assume "p \<le> length P" "e < length P"
  then obtain c where "rd P p = Some c" using rd_le by blast
  then show ?thesis
    using match_class_loop_safe [OF \<open>e < length P\<close>, of x "if c = CHR ''^'' then p + 1 else p" False 0]
    by (auto simp: match_class_def Let_def)
qed

lemma skip_stars_safe: "p \<le> length P \<Longrightarrow> \<exists>q. skip_stars P p = Some q \<and> q \<le> length P"
proof (induction P p rule: skip_stars.induct)
  case (1 P p)
  then obtain c where c: "rd P p = Some c" using rd_le by blast
  show ?case
  proof (cases "c = CHR ''*''")
    case True
    then have "p + 1 \<le> length P" using c rd_Some_lt [of P p c] by auto
    then show ?thesis using "1.IH" [OF c True] c True by (subst skip_stars.simps) simp
  next
    case False
    then show ?thesis using c "1.prems" by (subst skip_stars.simps) simp
  qed
qed

lemma scan_text_safe:
  "t \<le> length T \<Longrightarrow> NUL \<notin> set T \<Longrightarrow> \<exists>t'. scan_text T t c = Some t' \<and> t' \<le> length T"
proof (induction T t c rule: scan_text.induct)
  case (1 T t c)
  obtain tc where tc: "rd T t = Some tc" using rd_le [OF "1.prems"(1)] by blast
  show ?case
  proof (cases "tc \<noteq> NUL \<and> tc \<noteq> c")
    case True
    then have "t < length T" using tc rd_Some_lt by blast
    then obtain w where w: "uwidth T t = Some w" "t + w \<le> length T"
      using uwidth_safe "1.prems"(2) by blast
    show ?thesis using "1.IH" [OF tc True w(1) w(2) "1.prems"(2)] tc True w
      by (subst scan_text.simps) auto
  next
    case False
    then show ?thesis using tc "1.prems" by (subst scan_text.simps) auto
  qed
qed

lemma memchr_s_safe: "n \<le> Suc (length P) \<Longrightarrow> \<exists>r. memchr_s P q n c = Some r"
  by (simp add: memchr_s_def)

lemma match_pattern_safe:
  "t \<le> length T \<Longrightarrow> NUL \<notin> set T \<Longrightarrow> n \<le> Suc (length P) \<Longrightarrow> \<exists>r. match_pattern T t P p n = Some r"
  "t \<le> length T \<Longrightarrow> NUL \<notin> set T \<Longrightarrow> n \<le> Suc (length P) \<Longrightarrow> p < n \<Longrightarrow> \<exists>r. match_star T t P p n ismeta = Some r"
proof (induction T t P p n and T t P p n ismeta rule: match_pattern_match_star.induct)
  case (1 T t P p n)
  obtain tc where tc: "rd T t = Some tc" using rd_le [OF "1.prems"(1)] by blast
  show ?case
  proof (cases "p < n")
    case False
    then show ?thesis using tc by (subst match_pattern.simps) simp
  next
    case p: True
    then obtain pc where pc: "rd P p = Some pc" using rd_le [of p P] "1.prems"(3) by auto
    show ?thesis
    proof (cases "tc = NUL \<and> pc \<noteq> CHR ''*''")
      case True
      then show ?thesis using tc pc p by (subst match_pattern.simps) simp
    next
      case live: False
      have lt: "pc \<noteq> CHR ''*'' \<Longrightarrow> t < length T" using live tc rd_Some_lt by blast
      consider "pc = CHR 0x5C" | "pc = CHR ''?''" | "pc = CHR ''*''" | "pc = CHR ''[''"
        | "pc \<noteq> CHR 0x5C" "pc \<noteq> CHR ''?''" "pc \<noteq> CHR ''*''" "pc \<noteq> CHR ''[''" by blast
      then show ?thesis
      proof cases
        case a: 1
        then have "p < length P" using pc rd_Some_lt by blast
        then obtain pc' where pc': "rd P (p + 1) = Some pc'" using rd_le [of "p + 1" P] by auto
        show ?thesis
          using "1.IH"(1) [OF p tc pc live a pc' _ _ _ "1.prems"(2,3)] a lt tc pc pc' p live
          by (subst match_pattern.simps) auto
      next
        case a: 2
        then obtain w where w: "uwidth T t = Some w" "t + w \<le> length T"
          using uwidth_safe [of t T] lt "1.prems"(2) by auto
        show ?thesis
          using "1.IH"(2) [OF p tc pc live _ a w(1,2) "1.prems"(2,3)] a tc pc p live w
          by (subst match_pattern.simps) auto
      next
        case a: 3
        then have "p + 1 \<le> length P" using pc rd_Some_lt [of P p pc] by auto
        then obtain p' where p': "skip_stars P (p + 1) = Some p'" "p' \<le> length P"
          using skip_stars_safe by blast
        then obtain c where c: "rd P p' = Some c" using rd_le by blast
        show ?thesis
          using "1.IH"(3) [OF p tc pc live _ _ a p'(1) _ c "1.prems"] a tc pc p live p' c
          by (subst match_pattern.simps) auto
      next
        case a: 4
        then have "p + 1 \<le> length P" using pc rd_Some_lt [of P p pc] by auto
        then obtain c1 where c1: "rd P (p + 1) = Some c1" using rd_le by blast
        define q where "q = p + 1 + (if c1 = CHR ''^'' then 1 else 0) + 1"
        obtain r where r: "memchr_s P q n (CHR '']'') = Some r"
          using memchr_s_safe "1.prems"(3) by blast
        show ?thesis
        proof (cases "n \<le> q \<or> r = None")
          case True
          then show ?thesis using a tc pc p live c1 r
            by (subst match_pattern.simps) (auto simp: q_def Let_def)
        next
          case False
          then obtain e where e: "r = Some e" by auto
          then have "q \<le> e" "rd P e = Some (CHR '']'')" using r memchr_s_Some by blast+
          then have "e - 1 < length P" using rd_Some_lt [of P e] by auto
          moreover have tl: "t < length T" using lt a by simp
          ultimately obtain m k v where m: "match_class v P (p + 1) (e - 1) = Some m"
              and d: "utf8_decode T t None = Some (k, v)" "t + k \<le> length T"
            using match_class_safe [OF \<open>p + 1 \<le> length P\<close>] utf8_decode_safe [of t T None]
              rd_not_NUL [OF "1.prems"(2) tl] by fastforce
          have nq: "\<not> n \<le> q" using False by simp
          show ?thesis
            using "1.IH"(4) [OF p tc pc live _ _ _ a c1 q_def nq [unfolded q_def, folded q_def] r e d(1) refl m _ d(2) "1.prems"(2,3)]
              a tc pc p live c1 r e d m nq
            by (subst match_pattern.simps) (auto simp: q_def Let_def)
        qed
      next
        case a: 5
        show ?thesis
          using "1.IH"(5) [OF p tc pc live a(1,2,3,4) _ _ "1.prems"(2,3)] a lt tc pc p live
          by (subst match_pattern.simps) auto
      qed
    qed
  qed
next
  case (2 T t P p n ismeta)
  obtain tc where tc: "rd T t = Some tc" using rd_le [OF "2.prems"(1)] by blast
  show ?case
  proof (cases "tc = NUL")
    case True
    then show ?thesis using tc by (subst match_star.simps) simp
  next
    case live: False
    then have lt: "t < length T" using tc rd_Some_lt by blast
    obtain w where w: "uwidth T t = Some w" "t + w \<le> length T"
      using uwidth_safe lt "2.prems"(2) by blast
    obtain pc where pc: "rd P p = Some pc" using rd_le [of p P] "2.prems" by auto
    obtain t' where t': "scan_text T t pc = Some t'" "t' \<le> length T"
      using scan_text_safe "2.prems"(1,2) by blast
    obtain tc' where tc': "rd T t' = Some tc'" using rd_le [OF t'(2)] by blast
    have t1: "tc' \<noteq> NUL \<Longrightarrow> t' + 1 \<le> length T" using tc' rd_Some_lt [of T t' tc'] by auto
    show ?thesis
    proof (cases ismeta)
      case True
      then show ?thesis
        using "2.IH"(1) [OF tc live True w(1) "2.prems"(1,2,3)]
          "2.IH"(2) [OF tc live True w(1) _ _ w(2) "2.prems"(2,3,4)] tc live w
        by (subst match_star.simps) auto
    next
      case False
      then show ?thesis
        using "2.IH"(3) [OF tc live False pc t'(1) tc' _ t1 "2.prems"(2,3)]
          "2.IH"(4) [OF tc live False pc t'(1) tc' _ _ _ t1 "2.prems"(2,3,4)] tc live pc t' tc'
        by (subst match_star.simps) auto
    qed
  qed
qed

end
