(* ===== verification/Uwildmat_Spec.thy ===== *)
theory Uwildmat_Spec
  imports Uwildmat
begin

text \<open>
  What a wildmat pattern means, and that \<open>match_pattern\<close> with its two shortcuts (the \<open>ABORT\<close> result
  and the scan for the literal after a star) decides it on ASCII text.
\<close>

section \<open>Reference semantics\<close>

text \<open>The members of a character class as a list of ranges, in the order they are written.\<close>

function class_ranges :: "octets \<Rightarrow> nat \<Rightarrow> nat \<Rightarrow> bool \<Rightarrow> nat \<Rightarrow> (nat \<times> nat) list option" where
  "class_ranges P p e allowrange prev =
     (if p \<le> e then
        do { c \<leftarrow> rd P p;
             if allowrange \<and> c = CHR ''-'' \<and> p < e then
               do { (k, last) \<leftarrow> utf8_decode P (p + 1) (Some e);
                    rs \<leftarrow> class_ranges P (p + 1 + k) e False prev;
                    Some ((prev, last) # rs) }
             else
               do { (k, c') \<leftarrow> utf8_decode P p (Some e);
                    rs \<leftarrow> class_ranges P (p + k) e True c';
                    Some ((c', c') # rs) } }
      else Some [])"
  by pat_completeness auto
termination
  by (relation "measure (\<lambda>(P, p, e, a, f). Suc e - p)") (auto dest!: utf8_decode_pos)

declare class_ranges.simps [simp del]

definition in_ranges :: "nat \<Rightarrow> (nat \<times> nat) list \<Rightarrow> bool" where
  "in_ranges x rs \<longleftrightarrow> list_ex (\<lambda>(lo, hi). lo \<le> x \<and> x \<le> hi) rs"

definition in_class :: "octets \<Rightarrow> nat \<Rightarrow> nat \<Rightarrow> nat \<Rightarrow> bool" where
  "in_class P p e x =
     (let neg = (rd P p = Some (CHR ''^'')) in
      (case class_ranges P (if neg then p + 1 else p) e False 0 of
         None \<Rightarrow> False
       | Some rs \<Rightarrow> in_ranges x rs \<noteq> neg))"

datatype gitem = GLit char | GAny | GStar | GClass "nat \<Rightarrow> bool"

text \<open>The bracket that closes the class opened at \<open>p\<close>: not the first octet of its body.\<close>

definition class_end :: "octets \<Rightarrow> nat \<Rightarrow> nat \<Rightarrow> char \<Rightarrow> nat option" where
  "class_end P p n c1 =
     find (\<lambda>j. rd P j = Some (CHR '']'')) [p + 1 + (if c1 = CHR ''^'' then 1 else 0) + 1..<n]"

lemma class_end_gt: "class_end P p n c = Some e \<Longrightarrow> p + 1 < e \<and> e < n \<and> rd P e = Some (CHR '']'')"
  by (auto simp: class_end_def find_upt_Some split: if_splits)

text \<open>The items of the pattern \<open>P[p .. n - 1]\<close>; \<open>None\<close> for a malformed one.\<close>

function parse_pat :: "octets \<Rightarrow> nat \<Rightarrow> nat \<Rightarrow> gitem list option" where
  "parse_pat P p n =
     (if p < n then
        do { pc \<leftarrow> rd P p;
             if pc = CHR 0x5C then
               do { c \<leftarrow> rd P (p + 1);
                    if c = NUL then None else map_option (Cons (GLit c)) (parse_pat P (p + 2) n) }
             else if pc = CHR ''?'' then map_option (Cons GAny) (parse_pat P (p + 1) n)
             else if pc = CHR ''*'' then map_option (Cons GStar) (parse_pat P (p + 1) n)
             else if pc = CHR ''['' then
               do { c1 \<leftarrow> rd P (p + 1);
                    e \<leftarrow> class_end P p n c1;
                    map_option (Cons (GClass (in_class P (p + 1) (e - 1)))) (parse_pat P (e + 1) n) }
             else map_option (Cons (GLit pc)) (parse_pat P (p + 1) n) }
      else Some [])"
  by pat_completeness auto
termination
  by (relation "measure (\<lambda>(P, p, n). n - p)") (auto dest!: class_end_gt)

declare parse_pat.simps [simp del]

fun glob :: "gitem list \<Rightarrow> octets \<Rightarrow> bool" where
  "glob [] s = (s = [])"
| "glob (GLit c # ps) s = (case s of [] \<Rightarrow> False | x # xs \<Rightarrow> x = c \<and> glob ps xs)"
| "glob (GAny # ps) s = (case s of [] \<Rightarrow> False | x # xs \<Rightarrow> glob ps xs)"
| "glob (GClass f # ps) s = (case s of [] \<Rightarrow> False | x # xs \<Rightarrow> f (ord x) \<and> glob ps xs)"
| "glob (GStar # ps) s = (glob ps s \<or> (case s of [] \<Rightarrow> False | x # xs \<Rightarrow> glob (GStar # ps) xs))"

text \<open>The pattern from \<open>p\<close> on matches the text from \<open>t\<close> on.\<close>

definition pmatch :: "octets \<Rightarrow> octets \<Rightarrow> nat \<Rightarrow> nat \<Rightarrow> nat \<Rightarrow> bool" where
  "pmatch T P n t p = (case parse_pat P p n of None \<Rightarrow> False | Some items \<Rightarrow> glob items (drop t T))"

section \<open>Unfolding the reference, one pattern item at a time\<close>

lemma ex_le_Suc: "(\<exists>k \<le> Suc n. Q k) \<longleftrightarrow> Q 0 \<or> (\<exists>k \<le> n. Q (Suc k))"
proof
  assume "\<exists>k \<le> Suc n. Q k"
  then obtain k where "k \<le> Suc n" "Q k" by blast
  then show "Q 0 \<or> (\<exists>k \<le> n. Q (Suc k))" by (cases k) auto
qed auto

lemma glob_star: "glob (GStar # ps) s \<longleftrightarrow> (\<exists>k \<le> length s. glob ps (drop k s))"
proof (induction s)
  case Nil
  show ?case by simp
next
  case (Cons x xs)
  then show ?case using ex_le_Suc [of "length xs" "\<lambda>k. glob ps (drop k (x # xs))"] by simp
qed

lemma drop_case: "t < length T \<Longrightarrow> drop t T = T ! t # drop (t + 1) T"
  by (simp add: Cons_nth_drop_Suc)

lemma pmatch_end: "\<not> p < n \<Longrightarrow> t \<le> length T \<Longrightarrow> pmatch T P n t p \<longleftrightarrow> t = length T"
  by (auto simp: pmatch_def parse_pat.simps [of P p n])

lemma pmatch_lit:
  assumes "p < n" "rd P p = Some c" "c \<notin> {CHR 0x5C, CHR ''?'', CHR ''*'', CHR ''[''}"
  shows "pmatch T P n t p \<longleftrightarrow> t < length T \<and> T ! t = c \<and> pmatch T P n (t + 1) (p + 1)"
  using assms by (cases "t < length T")
    (auto simp: pmatch_def parse_pat.simps [of P p n] drop_case split: option.splits)

lemma pmatch_esc:
  assumes "p < n" "rd P p = Some (CHR 0x5C)" "rd P (p + 1) = Some c"
  shows "pmatch T P n t p \<longleftrightarrow> c \<noteq> NUL \<and> t < length T \<and> T ! t = c \<and> pmatch T P n (t + 1) (p + 2)"
  using assms by (cases "t < length T")
    (auto simp: pmatch_def parse_pat.simps [of P p n] drop_case split: option.splits)

lemma pmatch_any:
  assumes "p < n" "rd P p = Some (CHR ''?'')"
  shows "pmatch T P n t p \<longleftrightarrow> t < length T \<and> pmatch T P n (t + 1) (p + 1)"
  using assms by (cases "t < length T")
    (auto simp: pmatch_def parse_pat.simps [of P p n] drop_case split: option.splits)

lemma pmatch_star:
  assumes "p < n" "rd P p = Some (CHR ''*'')" "t \<le> length T"
  shows "pmatch T P n t p \<longleftrightarrow> (\<exists>t'. t \<le> t' \<and> t' \<le> length T \<and> pmatch T P n t' (p + 1))"
proof (cases "parse_pat P (p + 1) n")
  case None
  then show ?thesis using assms by (auto simp: pmatch_def parse_pat.simps [of P p n])
next
  case (Some items)
  have "(\<exists>k \<le> length T - t. glob items (drop (k + t) T)) \<longleftrightarrow>
      (\<exists>t'. t \<le> t' \<and> t' \<le> length T \<and> glob items (drop t' T))"
    (is "?L = ?R")
  proof
    assume ?R
    then obtain t' where "t \<le> t'" "t' \<le> length T" "glob items (drop t' T)" by blast
    then show ?L by (intro exI [of _ "t' - t"]) auto
  next
    assume ?L
    then obtain k where "k \<le> length T - t" "glob items (drop (k + t) T)" by blast
    then show ?R using assms(3) by (intro exI [of _ "k + t"]) auto
  qed
  then show ?thesis using Some assms
    by (simp add: pmatch_def parse_pat.simps [of P p n] glob_star del: glob.simps)
qed

lemma pmatch_class:
  assumes "p < n" "rd P p = Some (CHR ''['')" "rd P (p + 1) = Some c1"
  shows "pmatch T P n t p \<longleftrightarrow>
    (case class_end P p n c1 of
       None \<Rightarrow> False
     | Some e \<Rightarrow> t < length T \<and> in_class P (p + 1) (e - 1) (ord (T ! t)) \<and> pmatch T P n (t + 1) (e + 1))"
  using assms by (cases "t < length T")
    (auto simp: pmatch_def parse_pat.simps [of P p n] drop_case
      split: option.splits)

lemma pmatch_empty:
  assumes "p < n" "rd P p = Some c" "c \<noteq> CHR ''*''" "length T \<le> t"
  shows "\<not> pmatch T P n t p"
proof
  assume "pmatch T P n t p"
  then obtain items where "parse_pat P p n = Some items" "glob items []"
    using assms(4) by (auto simp: pmatch_def split: option.splits)
  then show False using assms(1-3)
    by (subst (asm) parse_pat.simps) (auto split: if_splits Option.bind_splits)
qed

section \<open>Character classes\<close>

lemma match_class_loop_ranges:
  "e < length P \<Longrightarrow>
   match_class_loop x P p e a f = map_option (in_ranges x) (class_ranges P p e a f) \<and>
   class_ranges P p e a f \<noteq> None"
proof (induction P p e a f rule: class_ranges.induct)
  case (1 P p e a f)
  show ?case
  proof (cases "p \<le> e")
    case False
    then show ?thesis
      by (simp add: match_class_loop.simps [of x P p e a f] class_ranges.simps [of P p e a f] in_ranges_def)
  next
    case True
    then have p: "rd P p = Some (P ! p)" and "p + 1 \<le> length P" using "1.prems" by auto
    obtain k v where d: "utf8_decode P p (Some e) = Some (k, v)"
      using utf8_decode_safe [of p P "Some e"] True "1.prems" by auto
    obtain k' v' where d': "utf8_decode P (p + 1) (Some e) = Some (k', v')"
      using utf8_decode_safe [of "p + 1" P "Some e"] \<open>p + 1 \<le> length P\<close> by auto
    show ?thesis
    proof (cases "a \<and> P ! p = CHR ''-'' \<and> p < e")
      case c: True
      show ?thesis
        using "1.IH"(1) [OF True p c d' refl "1.prems"] True p c d'
        unfolding match_class_loop.simps [of x P p e a f] class_ranges.simps [of P p e a f] in_ranges_def
        by auto
    next
      case c: False
      show ?thesis
        using "1.IH"(2) [OF True p c d refl "1.prems"] True p c d
        unfolding match_class_loop.simps [of x P p e a f] class_ranges.simps [of P p e a f] in_ranges_def
        by auto
    qed
  qed
qed

lemma match_class_in_class:
  assumes "p \<le> length P" and "e < length P"
  shows "match_class x P p e = Some (in_class P p e x)"
proof -
  obtain c where c: "rd P p = Some c" using rd_le [OF assms(1)] by blast
  show ?thesis
    using match_class_loop_ranges [OF assms(2), of x "if c = CHR ''^'' then p + 1 else p" False 0] c
    by (cases "c = CHR ''^''") (auto simp: match_class_def in_class_def Let_def)
qed

section \<open>ASCII text\<close>

definition ascii :: "octets \<Rightarrow> bool" where
  "ascii s \<longleftrightarrow> list_all (\<lambda>c. 0 < ord c \<and> ord c < 128) s"

lemma ascii_nth: "ascii T \<Longrightarrow> t < length T \<Longrightarrow> 0 < ord (T ! t) \<and> ord (T ! t) < 128"
  by (simp add: ascii_def list_all_length)

lemma ascii_no_NUL: "ascii T \<Longrightarrow> NUL \<notin> set T"
  unfolding ascii_def list_all_iff by (metis ord_NUL less_irrefl)

lemma ascii_width: "ascii T \<Longrightarrow> t < length T \<Longrightarrow> uwidth T t = Some 1"
  by (auto dest!: ascii_nth simp: uwidth_def ISUTF8_def)

lemma ascii_decode: "ascii T \<Longrightarrow> t < length T \<Longrightarrow> utf8_decode T t None = Some (1, ord (T ! t))"
  by (auto dest!: ascii_nth simp: utf8_decode_def utf8_length_def lead_ones_ascii Let_def)

lemma scan_text_ascii:
  "ascii T \<Longrightarrow> t \<le> length T \<Longrightarrow> scan_text T t c = Some t' \<Longrightarrow>
   t \<le> t' \<and> t' \<le> length T \<and> (t' < length T \<longrightarrow> T ! t' = c) \<and> (\<forall>m. t \<le> m \<and> m < t' \<longrightarrow> T ! m \<noteq> c)"
proof (induction T t c rule: scan_text.induct)
  case (1 T t c)
  obtain tc where tc: "rd T t = Some tc" using rd_le [OF "1.prems"(2)] by blast
  show ?case
  proof (cases "tc \<noteq> NUL \<and> tc \<noteq> c")
    case True
    then have lt: "t < length T" "T ! t = tc" using tc rd_Some_lt by blast+
    have w: "uwidth T t = Some 1" using ascii_width "1.prems"(1) lt(1) by blast
    then have "scan_text T (t + 1) c = Some t'"
      using "1.prems"(3) tc True by (subst (asm) scan_text.simps) simp
    from "1.IH" [OF tc True w "1.prems"(1) _ this] lt
    have IH: "t + 1 \<le> t'" "t' \<le> length T" "t' < length T \<longrightarrow> T ! t' = c"
      "\<forall>m. t + 1 \<le> m \<and> m < t' \<longrightarrow> T ! m \<noteq> c" by auto
    have "T ! m \<noteq> c" if "t \<le> m" "m < t'" for m
      using that IH(4) lt True by (cases "m = t") auto
    then show ?thesis using IH by auto
  next
    case False
    then have "t' = t" using "1.prems"(3) tc by (subst (asm) scan_text.simps) auto
    then show ?thesis using False tc "1.prems" ascii_nth [of T t] by auto
  qed
qed

lemma skip_stars_stop: "skip_stars P p = Some q \<Longrightarrow> rd P q \<noteq> Some (CHR ''*'')"
proof (induction P p rule: skip_stars.induct)
  case (1 P p)
  from "1.prems" show ?case
    by (subst (asm) skip_stars.simps) (auto split: Option.bind_splits if_splits dest!: "1.IH")
qed

lemma skip_stars_pmatch:
  "skip_stars P p = Some p' \<Longrightarrow> t \<le> length T \<Longrightarrow>
   (\<exists>t'. t \<le> t' \<and> t' \<le> length T \<and> pmatch T P n t' p) \<longleftrightarrow>
   (if n \<le> p' then True else \<exists>t'. t \<le> t' \<and> t' \<le> length T \<and> pmatch T P n t' p')"
proof (induction P p arbitrary: t rule: skip_stars.induct)
  case (1 P p)
  then obtain c where c: "rd P p = Some c" by (subst (asm) skip_stars.simps) (auto split: Option.bind_splits)
  show ?case
  proof (cases "c = CHR ''*'' \<and> p < n")
    case True
    then have s: "skip_stars P (p + 1) = Some p'" using "1.prems"(1) c by (subst (asm) skip_stars.simps) simp
    have "(\<exists>t'. t \<le> t' \<and> t' \<le> length T \<and> pmatch T P n t' p) \<longleftrightarrow>
        (\<exists>t'. t \<le> t' \<and> t' \<le> length T \<and> pmatch T P n t' (p + 1))"
      using pmatch_star [of p n P _ T] c True by (meson le_refl le_trans)
    then show ?thesis using "1.IH" [OF c _ s "1.prems"(2)] True by simp
  next
    case False
    show ?thesis
    proof (cases "p < n")
      case True
      then have "p' = p" using False "1.prems"(1) c by (subst (asm) skip_stars.simps) simp
      then show ?thesis using True by simp
    next
      case np: False
      have "p \<le> p'" using "1.prems"(1) by (rule skip_stars_ge)
      then show ?thesis using np "1.prems"(2) pmatch_end [OF np, of "length T" T P] by auto
    qed
  qed
qed

section \<open>The matcher decides the reference\<close>

text \<open>
  What a result of \<open>match_pattern\<close> says: \<open>MABORT\<close> excludes a match not only here but at every
  later position of the text, which is what lets a star give up.
\<close>

definition result_ok :: "octets \<Rightarrow> octets \<Rightarrow> nat \<Rightarrow> nat \<Rightarrow> nat \<Rightarrow> mresult \<Rightarrow> bool" where
  "result_ok T P n t p r \<longleftrightarrow>
     (case r of
        MTRUE \<Rightarrow> pmatch T P n t p
      | MFALSE \<Rightarrow> \<not> pmatch T P n t p
      | MABORT \<Rightarrow> \<not> (\<exists>t'. t \<le> t' \<and> t' \<le> length T \<and> pmatch T P n t' p))"

definition star_ok :: "octets \<Rightarrow> octets \<Rightarrow> nat \<Rightarrow> nat \<Rightarrow> nat \<Rightarrow> mresult \<Rightarrow> bool" where
  "star_ok T P n t p r \<longleftrightarrow>
     r \<noteq> MFALSE \<and> (r = MTRUE \<longleftrightarrow> (\<exists>t'. t \<le> t' \<and> t' \<le> length T \<and> pmatch T P n t' p))"

text \<open>
  An item that consumes one octet: the result for the rest of the pattern carries over. \<open>Q\<close> is
  what the item asks of the octet.
\<close>

lemma result_ok_step:
  assumes item: "\<And>u. u \<le> length T \<Longrightarrow> pmatch T P n u p \<longleftrightarrow> u < length T \<and> Q (T ! u) \<and> pmatch T P n (u + 1) p'"
    and rest: "result_ok T P n (t + 1) p' r" and t: "t < length T" and Q: "Q (T ! t)"
  shows "result_ok T P n t p r"
proof (cases r)
  case MABORT
  then have none: "\<not> pmatch T P n u p'" if "t + 1 \<le> u" "u \<le> length T" for u
    using that rest by (auto simp: result_ok_def)
  have "\<not> pmatch T P n u p" if "t \<le> u" "u \<le> length T" for u
    using item [OF that(2)] none [of "u + 1"] that by auto
  then show ?thesis using MABORT by (auto simp: result_ok_def)
qed (use item [of t] rest t Q in \<open>auto simp: result_ok_def\<close>)

lemma result_ok_mismatch:
  assumes "\<And>u. u \<le> length T \<Longrightarrow> pmatch T P n u p \<longleftrightarrow> u < length T \<and> Q (T ! u) \<and> pmatch T P n (u + 1) p'"
    and "t < length T" and "\<not> Q (T ! t)"
  shows "result_ok T P n t p MFALSE"
  using assms(1) [of t] assms(2,3) by (simp add: result_ok_def)

lemma result_ok_never: "(\<And>u. \<not> pmatch T P n u p) \<Longrightarrow> result_ok T P n t p MABORT"
  by (simp add: result_ok_def)

text \<open>Moving the start of a star past positions where its continuation does not match.\<close>

lemma star_ok_later:
  assumes "star_ok T P n u p r" and "t \<le> u" and "\<And>m. t \<le> m \<Longrightarrow> m < u \<Longrightarrow> \<not> pmatch T P n m p"
  shows "star_ok T P n t p r"
proof -
  have "(\<exists>t'. t \<le> t' \<and> t' \<le> length T \<and> pmatch T P n t' p) \<longleftrightarrow>
      (\<exists>t'. u \<le> t' \<and> t' \<le> length T \<and> pmatch T P n t' p)"
    using assms(2,3) by (meson le_trans linorder_not_less)
  then show ?thesis using assms(1) by (simp add: star_ok_def)
qed

lemma star_ok_stop:
  assumes "result_ok T P n t p r" and "r \<noteq> MFALSE" and "t \<le> length T"
  shows "star_ok T P n t p r"
  using assms by (cases r) (auto simp: star_ok_def result_ok_def)

lemma star_ok_at_end:
  assumes "p < n" "rd P p = Some c" "c \<noteq> CHR ''*''" "\<And>m. t \<le> m \<Longrightarrow> m < length T \<Longrightarrow> \<not> pmatch T P n m p"
  shows "star_ok T P n t p MABORT"
  using assms(4) pmatch_empty [OF assms(1-3)] unfolding star_ok_def by (metis mresult.distinct le_less linorder_not_less)

lemma pmatch_class_e:
  assumes "p < n" "rd P p = Some (CHR ''['')" "rd P (p + 1) = Some c1" "class_end P p n c1 = Some e"
  shows "pmatch T P n u p \<longleftrightarrow>
    u < length T \<and> in_class P (p + 1) (e - 1) (ord (T ! u)) \<and> pmatch T P n (u + 1) (e + 1)"
  using pmatch_class [OF assms(1-3), of T u] assms(4) by simp

text \<open>The two branches of the star loop, for one position of the text.\<close>

lemma star_ok_meta:
  assumes "result_ok T P n t p m" "t < length T"
    and "m = MFALSE \<Longrightarrow> star_ok T P n (t + 1) p r" and "m \<noteq> MFALSE \<Longrightarrow> r = m"
  shows "star_ok T P n t p r"
proof (cases "m = MFALSE")
  case True
  then have "\<not> pmatch T P n t p" using assms(1) by (simp add: result_ok_def)
  then have "\<And>k. t \<le> k \<Longrightarrow> k < t + 1 \<Longrightarrow> \<not> pmatch T P n k p" by (simp add: le_less_Suc_eq)
  then show ?thesis using star_ok_later [OF assms(3) [OF True], of t] by simp
next
  case False
  then show ?thesis using star_ok_stop [of T P n t p m] assms by auto
qed

lemma match_pattern_correct:
  "ascii T \<Longrightarrow> t \<le> length T \<Longrightarrow> n \<le> Suc (length P) \<Longrightarrow> match_pattern T t P p n = Some r \<Longrightarrow>
     result_ok T P n t p r"
  "ascii T \<Longrightarrow> t \<le> length T \<Longrightarrow> n \<le> Suc (length P) \<Longrightarrow> match_star T t P p n ismeta = Some r \<Longrightarrow>
     p < n \<Longrightarrow> rd P p \<noteq> Some (CHR ''*'') \<Longrightarrow>
     ismeta = (rd P p \<in> {Some (CHR ''[''), Some (CHR ''?''), Some (CHR 0x5C)}) \<Longrightarrow>
     star_ok T P n t p r"
proof (induction T t P p n and T t P p n ismeta arbitrary: r and r rule: match_pattern_match_star.induct)
  case (1 T t P p n)
  note prems = "1.prems"
  obtain tc where tc: "rd T t = Some tc" using rd_le [OF prems(2)] by blast
  show ?case
  proof (cases "p < n")
    case False
    then have "r = (if tc = NUL then MTRUE else MFALSE)"
      using prems(4) tc by (subst (asm) match_pattern.simps) simp
    then show ?thesis using False tc prems(2) rd_NUL [OF ascii_no_NUL [OF prems(1)], of t]
      by (auto simp: result_ok_def pmatch_end)
  next
    case p: True
    then obtain pc where pc: "rd P p = Some pc" using rd_le [of p P] prems(3) by auto
    show ?thesis
    proof (cases "tc = NUL \<and> pc \<noteq> CHR ''*''")
      case True
      then have "r = MABORT" using prems(4) tc pc p by (subst (asm) match_pattern.simps) simp
      moreover have "t = length T" using True tc rd_NUL [OF ascii_no_NUL [OF prems(1)]] by blast
      ultimately show ?thesis using pmatch_empty [OF p pc] True by (auto simp: result_ok_def)
    next
      case live: False
      have lt: "t < length T" "T ! t = tc" if "pc \<noteq> CHR ''*''" using that live tc rd_Some_lt by blast+
      consider "pc = CHR 0x5C" | "pc = CHR ''?''" | "pc = CHR ''*''" | "pc = CHR ''[''"
        | "pc \<noteq> CHR 0x5C" "pc \<noteq> CHR ''?''" "pc \<noteq> CHR ''*''" "pc \<noteq> CHR ''[''" by blast
      then show ?thesis
      proof cases
        case a: 1
        then have "p < length P" using pc rd_Some_lt by blast
        then obtain pc' where pc': "rd P (p + 1) = Some pc'" using rd_le [of "p + 1" P] by auto
        note item = pmatch_esc [OF p pc [unfolded a] pc', of T]
        have eq: "match_pattern T t P p n = (if pc' = NUL then Some MABORT else if tc \<noteq> pc' then Some MFALSE
            else match_pattern T (t + 1) P (p + 2) n)"
          using a tc pc pc' p live by (subst match_pattern.simps) auto
        show ?thesis
        proof (cases "pc' = NUL")
          case True
          then show ?thesis using eq prems(4) item result_ok_never [of T P n p t] by simp
        next
          case nz: False
          show ?thesis
          proof (cases "tc = pc'")
            case True
            have "result_ok T P n (t + 1) (p + 2) r"
              using "1.IH"(1) [OF p tc pc live a pc' nz] True lt a prems eq nz by simp
            then show ?thesis
              by (rule result_ok_step [where Q = "\<lambda>x. x = pc'", rotated]) (use item nz lt a True in auto)
          next
            case False
            then have "r = MFALSE" using eq nz prems(4) by simp
            then show ?thesis
              using result_ok_mismatch [of T P n p "\<lambda>x. x = pc'" "p + 2" t] item nz lt a False by auto
          qed
        qed
      next
        case a: 2
        have w: "uwidth T t = Some 1" using ascii_width prems(1) lt a by simp
        have "match_pattern T (t + 1) P (p + 1) n = Some r"
          using prems(4) a tc pc p live w by (subst (asm) match_pattern.simps) auto
        then have "result_ok T P n (t + 1) (p + 1) r"
          using "1.IH"(2) [OF p tc pc live _ a w] lt a prems by auto
        then show ?thesis
          by (rule result_ok_step [where Q = "\<lambda>_. True", rotated])
            (use pmatch_any [OF p pc [unfolded a], of T] lt a in auto)
      next
        case a: 3
        then have "p + 1 \<le> length P" using pc rd_Some_lt [of P p pc] by auto
        then obtain p' where p': "skip_stars P (p + 1) = Some p'" "p' \<le> length P"
          using skip_stars_safe by blast
        then obtain c where c: "rd P p' = Some c" using rd_le by blast
        have star: "pmatch T P n u p \<longleftrightarrow> (if n \<le> p' then True else
            \<exists>t'. u \<le> t' \<and> t' \<le> length T \<and> pmatch T P n t' p')" if "u \<le> length T" for u
          using skip_stars_pmatch [OF p'(1) that] pmatch_star [OF p pc [unfolded a] that] by simp
        show ?thesis
        proof (cases "n \<le> p'")
          case True
          then have "r = MTRUE" using prems(4) a tc pc p live p' by (subst (asm) match_pattern.simps) auto
          then show ?thesis using star [OF prems(2)] True by (simp add: result_ok_def)
        next
          case np: False
          have cs: "c \<noteq> CHR ''*''" using skip_stars_stop [OF p'(1)] c by simp
          have ms: "match_star T t P p' n (c = CHR ''['' \<or> c = CHR ''?'' \<or> c = CHR 0x5C) = Some r"
            using prems(4) a tc pc p live p' c np by (subst (asm) match_pattern.simps) auto
          have "star_ok T P n t p' r"
            by (rule "1.IH"(3) [OF p tc pc live _ _ a p'(1) np c prems(1-3) ms])
              (simp_all add: a c cs not_le_imp_less [OF np])
          then show ?thesis using star [OF prems(2)] star np
            by (cases r) (auto simp: star_ok_def result_ok_def)
        qed
      next
        case a: 4
        then have p1: "p + 1 \<le> length P" using pc rd_Some_lt [of P p pc] by auto
        then obtain c1 where c1: "rd P (p + 1) = Some c1" using rd_le by blast
        define q where "q = p + 1 + (if c1 = CHR ''^'' then 1 else 0) + 1"
        have r': "memchr_s P q n (CHR '']'') = Some (class_end P p n c1)"
          using prems(3) by (simp add: memchr_s_def class_end_def q_def)
        show ?thesis
        proof (cases "class_end P p n c1")
          case None
          then have "r = MABORT" using prems(4) a tc pc p live c1 r'
            by (subst (asm) match_pattern.simps) (auto simp: q_def Let_def split: if_splits)
          then show ?thesis using pmatch_class [OF p pc [unfolded a] c1, of T] None result_ok_never by simp
        next
          case e: (Some e)
          note item = pmatch_class_e [OF p pc [unfolded a] c1 e, of T]
          have nq: "\<not> n \<le> q" using e by (auto simp: class_end_def find_upt_Some q_def)
          have "e - 1 < length P" using class_end_gt [OF e] rd_Some_lt [of P e] by auto
          note m = match_class_in_class [OF p1 this, of "ord (T ! t)"]
          have d: "utf8_decode T t None = Some (1, ord (T ! t))" using ascii_decode prems(1) lt a by simp
          have eq: "match_pattern T t P p n = (if \<not> in_class P (p + 1) (e - 1) (ord (T ! t)) then Some MFALSE
              else match_pattern T (t + 1) P (e + 1) n)"
            using a tc pc p live c1 r' e d m nq by (subst match_pattern.simps) (auto simp: q_def Let_def)
          show ?thesis
          proof (cases "in_class P (p + 1) (e - 1) (ord (T ! t))")
            case True
            have "result_ok T P n (t + 1) (e + 1) r"
              using "1.IH"(4) [OF p tc pc live _ _ _ a c1 q_def nq r' e d refl m _ prems(1)] True eq prems lt a
              by auto
            then show ?thesis
              by (rule result_ok_step [where Q = "\<lambda>x. in_class P (p + 1) (e - 1) (ord x)", rotated])
                (use item lt a True in auto)
          next
            case False
            then have "r = MFALSE" using eq prems(4) by simp
            then show ?thesis
              using result_ok_mismatch [of T P n p "\<lambda>x. in_class P (p + 1) (e - 1) (ord x)" "e + 1" t]
                item lt a False by auto
          qed
        qed
      next
        case a: 5
        have item: "pmatch T P n u p \<longleftrightarrow> u < length T \<and> T ! u = pc \<and> pmatch T P n (u + 1) (p + 1)" for u
          using pmatch_lit [OF p pc] a by simp
        have eq: "match_pattern T t P p n = (if tc \<noteq> pc then Some MFALSE else match_pattern T (t + 1) P (p + 1) n)"
          using a tc pc p live by (subst match_pattern.simps) auto
        show ?thesis
        proof (cases "tc = pc")
          case True
          have "result_ok T P n (t + 1) (p + 1) r"
            using "1.IH"(5) [OF p tc pc live a(1,2,3,4)] True lt a prems eq by simp
          then show ?thesis
            by (rule result_ok_step [where Q = "\<lambda>x. x = pc", rotated]) (use item lt a True in auto)
        next
          case False
          then have "r = MFALSE" using eq prems(4) by simp
          then show ?thesis
            using result_ok_mismatch [of T P n p "\<lambda>x. x = pc" "p + 1" t] item lt a False by auto
        qed
      qed
    qed
  qed
next
  case (2 T t P p n ismeta)
  note prems = "2.prems"
  obtain tc where tc: "rd T t = Some tc" using rd_le [OF prems(2)] by blast
  obtain pc where pc: "rd P p = Some pc" using rd_le [of p P] prems by auto
  have ns: "pc \<noteq> CHR ''*''" using pc prems(6) by simp
  show ?case
  proof (cases "tc = NUL")
    case True
    then have "r = MABORT" using prems(4) tc by (subst (asm) match_star.simps) simp
    moreover have "t = length T" using True tc rd_NUL [OF ascii_no_NUL [OF prems(1)]] by blast
    ultimately show ?thesis using star_ok_at_end [OF prems(5) pc ns, of t T] by simp
  next
    case live: False
    then have lt: "t < length T" using tc rd_Some_lt by blast
    have w: "uwidth T t = Some 1" using ascii_width prems(1) lt by simp
    show ?thesis
    proof (cases ismeta)
      case meta: True
      obtain m where m: "match_pattern T t P p n = Some m"
        using match_pattern_safe(1) [OF prems(2) ascii_no_NUL [OF prems(1)] prems(3)] by blast
      have eq: "match_star T t P p n ismeta = (if m \<noteq> MFALSE then Some m else match_star T (t + 1) P p n ismeta)"
        using tc live meta w m by (subst match_star.simps) simp
      have "result_ok T P n t p m" using "2.IH"(1) [OF tc live meta w prems(1-3) m] .
      then show ?thesis
      proof (rule star_ok_meta [OF _ lt])
        show "star_ok T P n (t + 1) p r" if "m = MFALSE"
          using "2.IH"(2) [OF tc live meta w m] that prems lt eq meta by auto
        show "r = m" if "m \<noteq> MFALSE" using that eq prems(4) by simp
      qed
    next
      case lit: False
      have item: "pmatch T P n u p \<longleftrightarrow> u < length T \<and> T ! u = pc \<and> pmatch T P n (u + 1) (p + 1)" for u
        using pmatch_lit [OF prems(5) pc] ns lit prems(7) pc by auto
      obtain t' where t': "scan_text T t pc = Some t'"
        using scan_text_safe [OF prems(2) ascii_no_NUL [OF prems(1)]] by blast
      note scan = scan_text_ascii [OF prems(1,2) t']
      have skipped: "\<And>k. t \<le> k \<Longrightarrow> k < t' \<Longrightarrow> \<not> pmatch T P n k p" using scan item by blast
      obtain tc' where tc': "rd T t' = Some tc'" using scan rd_le by blast
      show ?thesis
      proof (cases "tc' = NUL")
        case True
        then have "r = MABORT" using prems(4) tc live lit pc t' tc' by (subst (asm) match_star.simps) simp
        moreover have "t' = length T" using True tc' rd_NUL [OF ascii_no_NUL [OF prems(1)]] by blast
        ultimately show ?thesis using star_ok_at_end [OF prems(5) pc ns, of t T] skipped by simp
      next
        case live': False
        then have lt': "t' < length T" "T ! t' = pc" using tc' rd_Some_lt [of T t' tc'] scan by auto
        obtain m where m: "match_pattern T (t' + 1) P (p + 1) n = Some m"
          using match_pattern_safe(1) [of "t' + 1" T n P "p + 1"] lt' ascii_no_NUL [OF prems(1)] prems(3) by auto
        have eq: "match_star T t P p n ismeta =
            (if m \<noteq> MFALSE then Some m else match_star T (t' + 1) P p n ismeta)"
          using tc live lit pc t' tc' live' m by (subst match_star.simps) simp
        have "result_ok T P n (t' + 1) (p + 1) m"
          using "2.IH"(3) [OF tc live lit pc t' tc' live' prems(1) _ prems(3) m] lt' by auto
        then have "result_ok T P n t' p m"
          by (rule result_ok_step [where Q = "\<lambda>x. x = pc", rotated]) (use item lt' in auto)
        then have "star_ok T P n t' p r"
        proof (rule star_ok_meta [OF _ lt'(1)])
          show "star_ok T P n (t' + 1) p r" if "m = MFALSE"
            using "2.IH"(4) [OF tc live lit pc t' tc' live' m] that prems lt' eq lit by auto
          show "r = m" if "m \<noteq> MFALSE" using that eq prems(4) by simp
        qed
        then show ?thesis using star_ok_later skipped scan by blast
      qed
    qed
  qed
qed

section \<open>Expressions: the last matching pattern decides\<close>

lemma skip_class_safe: "i \<le> length P \<Longrightarrow> n \<le> length P \<Longrightarrow> \<exists>j. skip_class P i n = Some j \<and> j \<le> length P"
proof (induction P i n rule: skip_class.induct)
  case (1 P i n)
  show ?case
  proof (cases "i < n \<and> P ! i \<noteq> CHR '']''")
    case True
    then have "i < length P" using "1.prems"(2) by simp
    then show ?thesis using "1.IH" [of "P ! i"] True "1.prems" by (subst skip_class.simps) auto
  next
    case False
    then show ?thesis using "1.prems" by (subst skip_class.simps) auto
  qed
qed

lemma bracket_skip_safe: "i < length P \<Longrightarrow> \<exists>j. bracket_skip P i (length P) c = Some j \<and> j \<le> length P"
proof -
  assume lt: "i < length P"
  obtain c1 where c1: "rd P (i + 1) = Some c1" using rd_le [of "i + 1" P] lt by auto
  have "(if c1 = CHR '']'' then i + 2 else i + 1) \<le> length P"
    using lt rd_Some_lt [of P "i + 1" c1] c1 by auto
  then show ?thesis
    using skip_class_safe [of "if c1 = CHR '']'' then i + 2 else i + 1" P "length P"] c1 lt
    by (auto simp: bracket_skip_def)
qed

lemma find_split_safe:
  "n = length P \<Longrightarrow> i \<le> Suc n \<Longrightarrow> \<exists>j. find_split P i n e = Some j \<and> j \<le> Suc n"
proof (induction P i n e rule: find_split.induct)
  case (1 P i n e)
  show ?case
  proof (cases "i < n")
    case False
    then show ?thesis using "1.prems" by (subst find_split.simps) simp
  next
    case lt: True
    then have c0: "rd P i = Some (P ! i)" using "1.prems" by simp
    obtain s where s: "bracket_skip P i n (P ! i) = Some s" "s \<le> length P"
      using bracket_skip_safe lt "1.prems"(1) by blast
    obtain c where c: "rd P s = Some c" using rd_le [OF s(2)] by blast
    show ?thesis
    proof (cases "c = CHR '','' \<and> \<not> e")
      case True
      then show ?thesis using lt c0 s c "1.prems" by (subst find_split.simps) auto
    next
      case False
      then show ?thesis using "1.IH" [OF lt c0 s(1) c False "1.prems"(1)] lt c0 s c "1.prems"(1)
        by (subst find_split.simps) auto
    qed
  qed
qed

text \<open>The sub-patterns of an expression: whether they poison, whether they are negated, their bounds.\<close>

type_synonym sub_pattern = "bool \<times> bool \<times> nat \<times> nat"

function sub_patterns :: "octets \<Rightarrow> nat \<Rightarrow> bool \<Rightarrow> sub_pattern list option" where
  "sub_patterns P p allowpoison =
     (if p \<le> length P then
        do { c \<leftarrow> rd P p;
             let poison = (allowpoison \<and> c = CHR ''@'');
                 reverse = (c = CHR ''!'' \<or> poison);
                 p' = (if reverse then p + 1 else p) in
             do { split \<leftarrow> find_split P p' (length P) False;
                  rest \<leftarrow> sub_patterns P (split + 1) allowpoison;
                  Some ((poison, reverse, p', split) # rest) } }
      else Some [])"
  by pat_completeness auto
termination
  by (relation "measure (\<lambda>(P, p, a). Suc (length P) - p)")
    (auto dest!: find_split_ge split: if_splits)

declare sub_patterns.simps [simp del]

definition apply_sub :: "(nat \<Rightarrow> nat \<Rightarrow> bool) \<Rightarrow> sub_pattern \<Rightarrow> bool \<times> bool \<Rightarrow> bool \<times> bool" where
  "apply_sub m s st = (case s of (poison, reverse, b, e) \<Rightarrow> if m b e then (\<not> reverse, poison) else st)"

definition last_match :: "(nat \<Rightarrow> nat \<Rightarrow> bool) \<Rightarrow> sub_pattern list \<Rightarrow> uwildmat_result" where
  "last_match m subs =
     (case find (\<lambda>(poison, reverse, b, e). m b e) (rev subs) of
        None \<Rightarrow> UWILDMAT_FAIL
      | Some (poison, reverse, b, e) \<Rightarrow>
          if poison then UWILDMAT_POISON else if reverse then UWILDMAT_FAIL else UWILDMAT_MATCH)"

lemma fold_apply_sub:
  "fold (apply_sub m) subs st =
     (case find (\<lambda>(poison, reverse, b, e). m b e) (rev subs) of
        None \<Rightarrow> st | Some (poison, reverse, b, e) \<Rightarrow> (\<not> reverse, poison))"
  by (induction subs rule: rev_induct) (auto simp: apply_sub_def split: option.splits)

lemma expression_loop_step:
  assumes "p \<le> length P" "rd P p = Some c" "poison = (a \<and> c = CHR ''@'')"
    "reverse = (c = CHR ''!'' \<or> poison)" "q = (if reverse then p + 1 else p)"
    "find_split P q (length P) False = Some s"
  shows "expression_loop T P p a matched poisoned =
    (if matched = (\<not> reverse) \<and> poison = poisoned then expression_loop T P (s + 1) a matched poisoned
     else do { m \<leftarrow> match_pattern T 0 P q s;
               if m = MTRUE then expression_loop T P (s + 1) a (\<not> reverse) poison
               else expression_loop T P (s + 1) a matched poisoned })"
    and "sub_patterns P p a = do { rest \<leftarrow> sub_patterns P (s + 1) a; Some ((poison, reverse, q, s) # rest) }"
  using assms(1,2,6) unfolding assms(3-5) expression_loop.simps [of T P p] sub_patterns.simps [of P p]
  by (simp_all add: Let_def)

lemma expression_loop_fold:
  assumes "NUL \<notin> set T"
  shows "\<exists>subs. sub_patterns P p a = Some subs \<and>
    expression_loop T P p a matched poisoned =
      Some (fold (apply_sub (\<lambda>b e. match_pattern T 0 P b e = Some MTRUE)) subs (matched, poisoned)) \<and>
    list_all (\<lambda>(_, _, b, e). e \<le> Suc (length P)) subs"
proof (induction "Suc (length P) - p" arbitrary: p matched poisoned rule: less_induct)
  case less
  let ?m = "\<lambda>b e. match_pattern T 0 P b e = Some MTRUE"
  show ?case
  proof (cases "p \<le> length P")
    case False
    then show ?thesis by (simp add: sub_patterns.simps [of P p] expression_loop.simps [of T P p])
  next
    case True
    then obtain c where c: "rd P p = Some c" using rd_le by blast
    define poison where "poison = (a \<and> c = CHR ''@'')"
    define reverse where "reverse = (c = CHR ''!'' \<or> poison)"
    define q where "q = (if reverse then p + 1 else p)"
    have "q \<le> Suc (length P)" using True by (simp add: q_def)
    then obtain s where s: "find_split P q (length P) False = Some s" "s \<le> Suc (length P)"
      using find_split_safe by blast
    then have "p < s + 1" using find_split_ge [OF s(1)] by (simp add: q_def split: if_splits)
    then have IH: "\<exists>subs. sub_patterns P (s + 1) a = Some subs \<and>
      expression_loop T P (s + 1) a m p' = Some (fold (apply_sub ?m) subs (m, p')) \<and>
      list_all (\<lambda>(_, _, b, e). e \<le> Suc (length P)) subs" for m p'
      using less.hyps [of "s + 1"] True by simp
    then obtain subs where subs: "sub_patterns P (s + 1) a = Some subs"
        "list_all (\<lambda>(_, _, b, e). e \<le> Suc (length P)) subs" by blast
    then have rest: "expression_loop T P (s + 1) a m p' = Some (fold (apply_sub ?m) subs (m, p'))" for m p'
      using IH [of m p'] by auto
    obtain r where r: "match_pattern T 0 P q s = Some r"
      using match_pattern_safe(1) [of 0 T s P q] assms s(2) by auto
    have "expression_loop T P p a matched poisoned =
        Some (fold (apply_sub ?m) ((poison, reverse, q, s) # subs) (matched, poisoned))"
      unfolding expression_loop_step(1) [OF True c poison_def reverse_def q_def s(1)]
      using r rest by (auto simp: apply_sub_def)
    moreover have "sub_patterns P p a = Some ((poison, reverse, q, s) # subs)"
      unfolding expression_loop_step(2) [OF True c poison_def reverse_def q_def s(1)]
      using subs by simp
    ultimately show ?thesis using s(2) subs(2) by simp
  qed
qed

text \<open>On ASCII text a sub-pattern matches when the reference says so.\<close>

lemma match_pattern_iff:
  assumes "ascii T" and "e \<le> Suc (length P)"
  shows "match_pattern T 0 P b e = Some MTRUE \<longleftrightarrow> pmatch T P e 0 b"
proof -
  obtain r where r: "match_pattern T 0 P b e = Some r"
    using match_pattern_safe(1) [of 0 T e P b] ascii_no_NUL [OF assms(1)] assms(2) by auto
  then have ok: "result_ok T P e 0 b r" using match_pattern_correct(1) [of T 0 e P b r] assms by simp
  then show ?thesis using r by (cases r) (auto simp: result_ok_def)
qed

lemma find_cong_list_all:
  "list_all (\<lambda>x. P x = Q x) xs \<Longrightarrow> find P xs = find Q xs"
  by (induction xs) auto

section \<open>Properties\<close>



text \<open>
  A wildmat expression never makes the matcher read outside its strings, and its verdict is
  that of the last sub-pattern that matches, although the code skips sub-patterns that could not
  change the state it has.
\<close>

theorem uwildmat_poison_last_match:
  assumes "NUL \<notin> set T" and "P \<noteq> []" and "P \<noteq> ''*''"
  shows "\<exists>subs. sub_patterns P 0 True = Some subs \<and>
    uwildmat_poison T P = Some (last_match (\<lambda>b e. match_pattern T 0 P b e = Some MTRUE) subs)"
proof -
  obtain subs where "sub_patterns P 0 True = Some subs"
    "expression_loop T P 0 True False False =
      Some (fold (apply_sub (\<lambda>b e. match_pattern T 0 P b e = Some MTRUE)) subs (False, False))"
    using expression_loop_fold [OF assms(1)] by blast
  then show ?thesis using assms(2,3)
    by (auto simp: uwildmat_poison_def match_expression_def fold_apply_sub last_match_def
        split: option.splits)
qed

theorem uwildmat_poison_last_match_witness:
  "uwildmat_poison ''a.b'' ''*,@a.*'' = Some UWILDMAT_POISON"
proof -
  obtain subs where "sub_patterns ''*,@a.*'' 0 True = Some subs"
    "uwildmat_poison ''a.b'' ''*,@a.*'' =
      Some (last_match (\<lambda>b e. match_pattern ''a.b'' 0 ''*,@a.*'' b e = Some MTRUE) subs)"
    using uwildmat_poison_last_match [of "''a.b''" "''*,@a.*''"] by auto
  moreover have "sub_patterns ''*,@a.*'' 0 True = Some [(False, False, 0, 1), (True, True, 3, 6)]"
    by code_simp
  moreover have "last_match (\<lambda>b e. match_pattern ''a.b'' 0 ''*,@a.*'' b e = Some MTRUE)
      [(False, False, 0, 1), (True, True, 3, 6)] = UWILDMAT_POISON"
    by code_simp
  ultimately show ?thesis by simp
qed


end
