(* ===== verification/Headers.thy ===== *)
theory Headers
  imports Uwildmat
begin

text \<open>
  Syntax checks on message-IDs (\<open>lib/messageid.c\<close>) and header fields (\<open>lib/headers.c\<close>). The
  routines walk a C string forward, so the pointer is modelled by the octets from it to the NUL:
  \<open>deref\<close> is \<open>*p\<close>, the tail is \<open>p + 1\<close>, and where the code looks back at \<open>p[-1]\<close> the octet
  before the pointer is an argument.
\<close>

definition deref :: "octets \<Rightarrow> char" where
  "deref s = (case s of [] \<Rightarrow> NUL | c # r \<Rightarrow> c)"

lemma deref_simps [simp]: "deref [] = NUL" "deref (c # r) = c"
  by (simp_all add: deref_def)

section \<open>Message-IDs\<close>

text \<open>
  The table \<open>midcclass\<close> that \<open>InitializeMessageIDcclass\<close> fills, as a function: bit 1 is
  \<open>CC_MSGID_ATOM\<close>, bit 2 \<open>CC_MSGID_NORM\<close>.
\<close>

definition midcclass :: "char \<Rightarrow> nat" where
  "midcclass c =
     (if c \<in> set ''abcdefghijklmnopqrstuvwxyzABCDEFGHIJKLMNOPQRSTUVWXYZ0123456789'' then 3
      else if c \<in> set (''!#$%&'' @ [CHR 0x27] @ ''*+-/=?^_'' @ [CHR 0x60] @ ''{|}~'') then 3
      else if c \<in> set (CHR 0x22 # ''(),.:;<@'') then 2
      else 0)"

definition midatomchar :: "char \<Rightarrow> bool" where
  "midatomchar c \<longleftrightarrow> odd (midcclass c)"

definition midnormchar :: "char \<Rightarrow> bool" where
  "midnormchar c \<longleftrightarrow> odd (midcclass c div 2)"

definition NNTP_MAXLEN_MSGID :: nat where
  "NNTP_MAXLEN_MSGID = 250"

lemma not_midatom [simp]:
  "\<not> midatomchar NUL" "\<not> midatomchar (CHR ''@'')" "\<not> midatomchar (CHR ''.'')"
  "\<not> midatomchar (CHR ''>'')" "\<not> midatomchar (CHR ''['')" "\<not> midatomchar (CHR ''<'')"
  by (simp_all add: midatomchar_def midcclass_def)

lemma not_midnorm [simp]:
  "\<not> midnormchar NUL" "\<not> midnormchar (CHR '']'')" "\<not> midnormchar (CHR ''>'')"
  by (simp_all add: midnormchar_def midcclass_def)

text \<open>
  The scan of the local part. \<open>None\<close> is \<open>return false\<close>, otherwise the octets from the pointer on
  after the loop is left by \<open>break\<close>.
\<close>

function local_part :: "octets \<Rightarrow> bool \<Rightarrow> bool \<Rightarrow> octets option" where
  "local_part s atfound laxsyntax =
     (if midatomchar (deref s) then
        let r = dropWhile midatomchar s in
        if deref r \<noteq> CHR ''.'' then
          if laxsyntax \<and> deref r = CHR ''@'' then
            if atfound \<or> deref (tl r) = CHR ''['' \<or> CHR ''@'' \<notin> set (tl r) then Some r
            else local_part (tl r) True laxsyntax
          else Some r
        else local_part (if laxsyntax \<and> deref (tl r) = CHR ''.'' then tl (tl r) else tl r)
               atfound laxsyntax
      else None)"
  by pat_completeness auto

lemma length_dropWhile_atom:
  "midatomchar (deref s) \<Longrightarrow> length (dropWhile midatomchar s) < length s"
  by (cases s) (auto simp: le_imp_less_Suc length_dropWhile_le)

termination local_part
  by (relation "measure (\<lambda>(s, a, l). length s)") (auto dest!: length_dropWhile_atom)

declare local_part.simps [simp del]

fun literal_part :: "octets \<Rightarrow> octets option" where
  "literal_part [] = None"
| "literal_part (c # r) =
     (if c = CHR '']'' then Some r else if midnormchar c then literal_part r else None)"

function domain_part :: "octets \<Rightarrow> char \<Rightarrow> octets option" where
  "domain_part s prev =
     (if midatomchar (deref s) then
        let r = dropWhile midatomchar s in
        if deref r \<noteq> CHR ''.'' then Some r else domain_part (tl r) (CHR ''.'')
      else if prev \<noteq> CHR ''@'' \<or> deref s \<noteq> CHR ''['' then None
      else literal_part (tl s))"
  by pat_completeness auto
termination
  by (relation "measure (\<lambda>(s, p). length s)") (auto dest!: length_dropWhile_atom)

declare domain_part.simps [simp del]

definition IsValidMessageID :: "octets option \<Rightarrow> bool \<Rightarrow> bool \<Rightarrow> bool" where
  "IsValidMessageID MessageID stripspaces laxsyntax =
     (case MessageID of
        None \<Rightarrow> False
      | Some s \<Rightarrow>
          if NNTP_MAXLEN_MSGID < length s then False
          else
            let p = (if stripspaces then dropWhile ISWHITE s else s) in
            if deref p \<noteq> CHR ''<'' then False
            else case local_part (tl p) False laxsyntax of
              None \<Rightarrow> False
            | Some q \<Rightarrow>
                if deref q \<noteq> CHR ''@'' then False
                else case domain_part (tl q) (CHR ''@'') of
                  None \<Rightarrow> False
                | Some r \<Rightarrow>
                    if deref r \<noteq> CHR ''>'' then False
                    else (if stripspaces then dropWhile ISWHITE (tl r) else tl r) = [])"

section \<open>Header fields\<close>

fun IsValidHeaderName_loop :: "octets \<Rightarrow> bool" where
  "IsValidHeaderName_loop [] = True"
| "IsValidHeaderName_loop (c # r) =
     (if \<not> c_isgraph c \<or> c = CHR '':'' then False else IsValidHeaderName_loop r)"

definition IsValidHeaderName :: "octets option \<Rightarrow> bool" where
  "IsValidHeaderName p =
     (case p of None \<Rightarrow> False | Some s \<Rightarrow> if s = [] then False else IsValidHeaderName_loop s)"

text \<open>
  The loop over a header body; \<open>prev\<close> is \<open>p[-1]\<close>, \<open>None\<close> at the start of an object, where the read
  of \<open>p[-1]\<close> is outside it.
\<close>

function body_loop :: "octets \<Rightarrow> char option \<Rightarrow> bool \<Rightarrow> bool option" where
  "body_loop s prev blank =
     (case s of
        [] \<Rightarrow> Some (\<not> blank)
      | c # r \<Rightarrow>
          if ISWHITE c then body_loop r (Some c) blank
          else if c = LF \<or> (c = CR \<and> deref r = LF) then
            (let nl = (if c = LF then r else tl r) in
             if blank \<or> \<not> ISWHITE (deref nl) then Some False
             else body_loop nl (Some LF) True)
          else if c = CR then Some False
          else (case prev of
                  None \<Rightarrow> None
                | Some b \<Rightarrow> if b = CR then Some False else body_loop r (Some c) False))"
  by pat_completeness auto
termination
  by (relation "measure (\<lambda>(s, p, e). length s)") (auto split: if_splits)

declare body_loop.simps [simp del]

definition IsValidHeaderBody :: "octets option \<Rightarrow> char option \<Rightarrow> bool option" where
  "IsValidHeaderBody p prev =
     (case p of
        None \<Rightarrow> Some False
      | Some s \<Rightarrow>
          if s = [] then Some False
          else do { v \<leftarrow> is_valid_utf8 s; if \<not> v then Some False else body_loop s prev True })"

text \<open>The scan of the field name: the octets after its colon, \<open>[]\<close> where there is no colon.\<close>

fun field_name_loop :: "octets \<Rightarrow> octets option" where
  "field_name_loop [] = Some []"
| "field_name_loop (c # r) =
     (if \<not> c_isgraph c then None else if c = CHR '':'' then Some r else field_name_loop r)"

definition IsValidHeaderField :: "octets option \<Rightarrow> bool option" where
  "IsValidHeaderField p =
     (case p of
        None \<Rightarrow> Some False
      | Some s \<Rightarrow>
          if s = [] \<or> deref s = CHR '':'' then Some False
          else case field_name_loop s of
            None \<Rightarrow> Some False
          | Some q \<Rightarrow> if q = [] then Some False else if deref q \<noteq> SP then Some False
                       else IsValidHeaderBody (Some (tl q)) (Some SP))"

text \<open>Skipping comments and folding white space; the octets from the new position on.\<close>

fun skip_cfws_loop :: "nat \<Rightarrow> octets \<Rightarrow> octets" where
  "skip_cfws_loop nesting [] = []"
| "skip_cfws_loop nesting (c # r) =
     (if c = SP \<or> c = TAB \<or> c = LF then skip_cfws_loop nesting r
      else if c = CR then
        (if deref r \<noteq> LF \<and> nesting = 0 then c # r else skip_cfws_loop nesting r)
      else if c = CHR ''('' then skip_cfws_loop (nesting + 1) r
      else if c = CHR '')'' then (if nesting = 0 then c # r else skip_cfws_loop (nesting - 1) r)
      else if c = CHR 0x5C then
        (if nesting = 0 \<or> r = [] then c # r else skip_cfws_loop nesting (tl r))
      else if nesting = 0 then c # r
      else skip_cfws_loop nesting r)"

definition skip_cfws :: "octets \<Rightarrow> octets" where
  "skip_cfws p = skip_cfws_loop 0 p"

fun skip_fws :: "octets \<Rightarrow> octets" where
  "skip_fws [] = []"
| "skip_fws (c # r) =
     (if c = SP \<or> c = TAB \<or> c = LF then skip_fws r
      else if c = CR then (if deref r \<noteq> LF then c # r else skip_fws r)
      else c # r)"

section \<open>Grammars\<close>

text \<open>\<open>dot-atom-text\<close> of RFC 5322: one or more non-empty runs of atom characters between dots.\<close>

inductive dot_atom :: "octets \<Rightarrow> bool" where
  one: "w \<noteq> [] \<Longrightarrow> list_all midatomchar w \<Longrightarrow> dot_atom w"
| more: "w \<noteq> [] \<Longrightarrow> list_all midatomchar w \<Longrightarrow> dot_atom u \<Longrightarrow> dot_atom (w @ CHR ''.'' # u)"

definition no_fold_literal :: "octets \<Rightarrow> bool" where
  "no_fold_literal d \<longleftrightarrow> (\<exists>x. d = CHR ''['' # x @ [CHR '']''] \<and> list_all midnormchar x)"

definition msg_id :: "octets \<Rightarrow> bool" where
  "msg_id s \<longleftrightarrow> (\<exists>l d. s = CHR ''<'' # l @ CHR ''@'' # d @ [CHR ''>''] \<and> dot_atom l \<and>
     (dot_atom d \<or> no_fold_literal d))"

text \<open>The lines of a header body, which end in LF or CRLF.\<close>

function eol_lines :: "octets \<Rightarrow> octets list" where
  "eol_lines s =
     (case s of
        [] \<Rightarrow> [[]]
      | c # r \<Rightarrow>
          if c = LF then [] # eol_lines r
          else if c = CR \<and> deref r = LF then [] # eol_lines (tl r)
          else (let ls = eol_lines r in (c # hd ls) # tl ls))"
  by pat_completeness auto
termination
  by (relation "measure length") auto

declare eol_lines.simps [simp del]

definition has_text :: "octets \<Rightarrow> bool" where
  "has_text l \<longleftrightarrow> list_ex (\<lambda>c. \<not> ISWHITE c) l"

definition body_lines_ok :: "bool \<Rightarrow> octets list \<Rightarrow> bool" where
  "body_lines_ok blank ls \<longleftrightarrow>
     list_all (\<lambda>l. CR \<notin> set l) ls \<and> (has_text (hd ls) \<or> \<not> blank) \<and>
     list_all (\<lambda>l. has_text l \<and> ISWHITE (deref l)) (tl ls)"

lemma eol_lines_neq_Nil [simp]: "eol_lines s \<noteq> []"
  by (subst eol_lines.simps) (simp add: Let_def split: list.split)

lemma eol_lines_Nil: "eol_lines [] = [[]]"
  by (subst eol_lines.simps) simp

lemma eol_lines_LF: "eol_lines (LF # r) = [] # eol_lines r"
  by (subst eol_lines.simps) simp

lemma eol_lines_CRLF: "deref r = LF \<Longrightarrow> eol_lines (CR # r) = [] # eol_lines (tl r)"
  by (subst eol_lines.simps) simp

lemma eol_lines_other:
  "c \<noteq> LF \<Longrightarrow> \<not> (c = CR \<and> deref r = LF) \<Longrightarrow>
   eol_lines (c # r) = (c # hd (eol_lines r)) # tl (eol_lines r)"
  by (subst eol_lines.simps) (auto simp: Let_def)

lemma deref_hd_eol_lines: "ISWHITE (deref (hd (eol_lines s))) \<longleftrightarrow> ISWHITE (deref s)"
proof (cases s)
  case Nil
  then show ?thesis by (simp add: eol_lines_Nil)
next
  case (Cons c r)
  then show ?thesis
    by (cases "c = LF"; cases "c = CR \<and> deref r = LF")
      (auto simp: eol_lines_LF eol_lines_CRLF eol_lines_other)
qed

lemma list_all_split: "xs \<noteq> [] \<Longrightarrow> list_all P xs \<longleftrightarrow> P (hd xs) \<and> list_all P (tl xs)"
  by (cases xs) auto

lemma body_loop_Nil: "body_loop [] prev blank = Some (\<not> blank)"
  by (subst body_loop.simps) simp

lemma body_loop_Cons:
  "body_loop (c # r) prev blank =
     (if ISWHITE c then body_loop r (Some c) blank
      else if c = LF \<or> (c = CR \<and> deref r = LF) then
        (let nl = (if c = LF then r else tl r) in
         if blank \<or> \<not> ISWHITE (deref nl) then Some False else body_loop nl (Some LF) True)
      else if c = CR then Some False
      else (case prev of None \<Rightarrow> None | Some b \<Rightarrow> if b = CR then Some False else body_loop r (Some c) False))"
  by (subst body_loop.simps) simp

lemma body_loop_lines:
  "prev \<noteq> None \<Longrightarrow> prev \<noteq> Some CR \<Longrightarrow>
   body_loop s prev blank = Some (body_lines_ok blank (eol_lines s))"
proof (induction s prev blank rule: body_loop.induct)
  case (1 s prev blank)
  note IH = "1.IH" and prems = "1.prems"
  show ?case
  proof (cases s)
    case Nil
    then show ?thesis
      by (simp add: body_loop_Nil eol_lines_Nil body_lines_ok_def has_text_def)
  next
    case (Cons c r)
    consider "ISWHITE c" | "c = LF" | "c = CR" "deref r = LF" | "c = CR" "deref r \<noteq> LF"
      | "\<not> ISWHITE c" "c \<noteq> LF" "c \<noteq> CR" by blast
    then show ?thesis
    proof cases
      case a: 1
      then have "c \<noteq> LF" "c \<noteq> CR" by (auto simp: ISWHITE_def)
      then show ?thesis using IH(1) [OF Cons a] Cons a
        by (simp add: body_loop_Cons eol_lines_other body_lines_ok_def has_text_def
            list_all_split [of "eol_lines r"])
    next
      case a: 2
      show ?thesis using IH(2) [OF Cons _ _ refl] Cons a deref_hd_eol_lines [of r]
        by (auto simp: body_loop_Cons eol_lines_LF body_lines_ok_def has_text_def Let_def
            list_all_split [of "eol_lines r"] ISWHITE_def)
    next
      case a: 3
      show ?thesis using IH(2) [OF Cons _ _ refl] Cons a deref_hd_eol_lines [of "tl r"]
        by (auto simp: body_loop_Cons eol_lines_CRLF body_lines_ok_def has_text_def Let_def
            list_all_split [of "eol_lines (tl r)"] ISWHITE_def)
    next
      case a: 4
      then show ?thesis using Cons
        by (simp add: body_loop_Cons eol_lines_other body_lines_ok_def)
    next
      case a: 5
      obtain b where b: "prev = Some b" "b \<noteq> CR" using prems by auto
      then show ?thesis using IH(3) [OF Cons a(1) _ _ b] Cons a
        by (simp add: body_loop_Cons eol_lines_other body_lines_ok_def has_text_def
            list_all_split [of "eol_lines r"])
    qed
  qed
qed

section \<open>Message-IDs against the grammar\<close>

lemma dropWhile_split:
  "midatomchar (deref s) \<Longrightarrow>
   \<exists>w. w \<noteq> [] \<and> list_all midatomchar w \<and> s = w @ dropWhile midatomchar s \<and>
     \<not> midatomchar (deref (dropWhile midatomchar s))"
proof -
  assume m: "midatomchar (deref s)"
  let ?w = "takeWhile midatomchar s"
  have "?w \<noteq> []" using m by (cases s) auto
  moreover have "list_all midatomchar ?w" by (auto simp: list_all_iff dest: set_takeWhileD)
  moreover have "\<not> midatomchar (deref (dropWhile midatomchar s))"
  proof -
    define r where "r = dropWhile midatomchar s"
    then have "r \<noteq> [] \<Longrightarrow> \<not> midatomchar (hd r)" using hd_dropWhile by blast
    then show ?thesis unfolding r_def [symmetric] by (cases r) auto
  qed
  ultimately show ?thesis by (metis takeWhile_dropWhile_id)
qed

lemma dropWhile_run:
  "list_all midatomchar w \<Longrightarrow> \<not> midatomchar (deref r) \<Longrightarrow> dropWhile midatomchar (w @ r) = r"
  by (cases r) (auto simp: list_all_iff dropWhile_append)

lemma deref_run: "w \<noteq> [] \<Longrightarrow> list_all midatomchar w \<Longrightarrow> midatomchar (deref (w @ r))"
  by (cases w) auto

text \<open>A scan over dot-separated runs up to a delimiter \<open>c\<close>, which is no atom character and no dot.\<close>

lemma local_part_sound: "local_part s a False = Some r \<Longrightarrow> \<exists>l. dot_atom l \<and> s = l @ r"
proof (induction "length s" arbitrary: s rule: less_induct)
  case less
  then have m: "midatomchar (deref s)" by (subst (asm) local_part.simps) (auto split: if_splits)
  obtain w where w: "w \<noteq> []" "list_all midatomchar w" "s = w @ dropWhile midatomchar s"
    using dropWhile_split [OF m] by blast
  let ?q = "dropWhile midatomchar s"
  show ?case
  proof (cases "deref ?q = CHR ''.''")
    case False
    then have "r = ?q" using less.prems m by (subst (asm) local_part.simps) (simp add: Let_def)
    then show ?thesis using w dot_atom.one by blast
  next
    case True
    then obtain q where q: "?q = CHR ''.'' # q" by (cases ?q) auto
    then have "local_part q a False = Some r" using less.prems m True
      by (subst (asm) local_part.simps) (simp add: Let_def)
    moreover have "length q < length s" using arg_cong [OF w(3), of length] q by simp
    ultimately obtain l where "dot_atom l" "q = l @ r" using less.hyps by blast
    then show ?thesis using w q dot_atom.more [OF w(1,2)] by (metis append.assoc append_Cons)
  qed
qed

lemma local_part_complete:
  assumes "dot_atom l" and "\<not> midatomchar (deref r)" and "deref r \<noteq> CHR ''.''"
  shows "local_part (l @ r) a False = Some r"
  using assms
proof (induction l rule: dot_atom.induct)
  case (one w)
  then show ?case by (subst local_part.simps) (simp add: deref_run dropWhile_run)
next
  case (more w u)
  then show ?case by (subst local_part.simps) (simp add: deref_run dropWhile_run)
qed

lemma literal_part_iff:
  "literal_part s = Some r \<longleftrightarrow> (\<exists>x. list_all midnormchar x \<and> s = x @ CHR '']'' # r)"
proof (induction s)
  case Nil
  show ?case by simp
next
  case (Cons c s)
  have "(\<exists>x. list_all midnormchar x \<and> c # s = x @ CHR '']'' # r) \<longleftrightarrow>
      (c = CHR '']'' \<and> s = r) \<or> (midnormchar c \<and> (\<exists>x. list_all midnormchar x \<and> s = x @ CHR '']'' # r))"
    (is "(\<exists>x. ?P x) \<longleftrightarrow> ?R")
  proof
    assume "\<exists>x. ?P x"
    then obtain x where "?P x" ..
    then show ?R by (cases x) auto
  next
    assume ?R
    then show "\<exists>x. ?P x"
    proof
      assume "c = CHR '']'' \<and> s = r"
      then show ?thesis by (intro exI [of _ "[]"]) simp
    next
      assume "midnormchar c \<and> (\<exists>x. list_all midnormchar x \<and> s = x @ CHR '']'' # r)"
      then obtain x where "midnormchar c" "list_all midnormchar x" "s = x @ CHR '']'' # r" by blast
      then show ?thesis by (intro exI [of _ "c # x"]) simp
    qed
  qed
  then show ?case using Cons by auto
qed

lemma domain_part_sound:
  "domain_part s prev = Some r \<Longrightarrow>
   \<exists>d. s = d @ r \<and> (dot_atom d \<or> (prev = CHR ''@'' \<and> no_fold_literal d))"
proof (induction "length s" arbitrary: s prev rule: less_induct)
  case less
  show ?case
  proof (cases "midatomchar (deref s)")
    case False
    then have p: "prev = CHR ''@''" "deref s = CHR ''[''" "literal_part (tl s) = Some r"
      using less.prems by (subst (asm) domain_part.simps; auto split: if_splits)+
    then obtain x where "list_all midnormchar x" "s = CHR ''['' # x @ CHR '']'' # r"
      by (cases s) (auto simp: literal_part_iff)
    then show ?thesis using p(1)
      by (intro exI [of _ "CHR ''['' # x @ [CHR '']'']"]) (auto simp: no_fold_literal_def)
  next
    case m: True
    obtain w where w: "w \<noteq> []" "list_all midatomchar w" "s = w @ dropWhile midatomchar s"
      using dropWhile_split [OF m] by blast
    let ?q = "dropWhile midatomchar s"
    show ?thesis
    proof (cases "deref ?q = CHR ''.''")
      case False
      then have "r = ?q" using less.prems m by (subst (asm) domain_part.simps) (simp add: Let_def)
      then show ?thesis using w dot_atom.one by blast
    next
      case True
      then obtain q where q: "?q = CHR ''.'' # q" by (cases ?q) auto
      then have "domain_part q (CHR ''.'') = Some r" using less.prems m True
        by (subst (asm) domain_part.simps) (simp add: Let_def)
      moreover have "length q < length s" using arg_cong [OF w(3), of length] q by simp
      ultimately obtain d where "dot_atom d" "q = d @ r" using less.hyps by force
      then show ?thesis using w q dot_atom.more [OF w(1,2)] by (metis append.assoc append_Cons)
    qed
  qed
qed

lemma domain_part_complete_dot:
  assumes "dot_atom d" and "\<not> midatomchar (deref r)" and "deref r \<noteq> CHR ''.''"
  shows "domain_part (d @ r) prev = Some r"
  using assms
proof (induction d arbitrary: prev rule: dot_atom.induct)
  case (one w)
  then show ?case by (subst domain_part.simps) (simp add: deref_run dropWhile_run)
next
  case (more w u)
  then show ?case by (subst domain_part.simps) (simp add: deref_run dropWhile_run)
qed

lemma domain_part_complete_literal:
  "no_fold_literal d \<Longrightarrow> domain_part (d @ r) (CHR ''@'') = Some r"
  by (subst domain_part.simps) (auto simp: no_fold_literal_def literal_part_iff)

text \<open>A comment or folding white space as a tree, and its text.\<close>

datatype cfws = Blank | Tab | Newline | Crlf | Comment "ctext list"
  and ctext = Text char | Quoted char | Inner cfws

fun render_cfws :: "cfws \<Rightarrow> octets" and render_ctext :: "ctext \<Rightarrow> octets" where
  "render_cfws Blank = [SP]"
| "render_cfws Tab = [TAB]"
| "render_cfws Newline = [LF]"
| "render_cfws Crlf = [CR, LF]"
| "render_cfws (Comment xs) = CHR ''('' # concat (map render_ctext xs) @ [CHR '')'']"
| "render_ctext (Text c) =
     (if c \<in> {CHR ''('', CHR '')'', CHR 0x5C} then [CHR 0x5C, c] else [c])"
| "render_ctext (Quoted c) = [CHR 0x5C, c]"
| "render_ctext (Inner x) = render_cfws x"

lemma skip_cfws_loop_render:
  "skip_cfws_loop n (render_cfws x @ s) = skip_cfws_loop n s"
  "0 < n \<Longrightarrow> skip_cfws_loop n (render_ctext y @ s) = skip_cfws_loop n s"
proof (induction x and y arbitrary: n s and n s)
  case (Comment xs)
  have "skip_cfws_loop (n + 1) (concat (map render_ctext ys) @ t) = skip_cfws_loop (n + 1) t"
    if "set ys \<subseteq> set xs" for ys t
    using that
  proof (induction ys)
    case (Cons y ys)
    then show ?case using Comment.IH [of y "n + 1"] by simp
  qed simp
  then show ?case by simp
qed auto

section \<open>Properties\<close>

lemma IsValidMessageID_iff:
  "IsValidMessageID (Some s) False False \<longleftrightarrow> length s \<le> 250 \<and> msg_id s"
proof
  assume v: "IsValidMessageID (Some s) False False"
  then have len: "length s \<le> 250"
    by (auto simp: IsValidMessageID_def NNTP_MAXLEN_MSGID_def split: if_splits)
  with v obtain q r where s: "deref s = CHR ''<''" "local_part (tl s) False False = Some q"
      "deref q = CHR ''@''" "domain_part (tl q) (CHR ''@'') = Some r" "deref r = CHR ''>''" "tl r = []"
    by (auto simp: IsValidMessageID_def NNTP_MAXLEN_MSGID_def Let_def split: if_splits option.splits)
  from local_part_sound [OF s(2)] obtain l where l: "dot_atom l" "tl s = l @ q" by blast
  from domain_part_sound [OF s(4)] obtain d where d: "tl q = d @ r" "dot_atom d \<or> no_fold_literal d"
    by blast
  have "s = CHR ''<'' # l @ CHR ''@'' # d @ [CHR ''>'']"
    using s l(2) d(1) by (cases s; cases q; cases r) auto
  then show "length s \<le> 250 \<and> msg_id s" using len l d unfolding msg_id_def by blast
next
  assume "length s \<le> 250 \<and> msg_id s"
  then obtain l d where len: "length s \<le> 250" and s: "s = CHR ''<'' # l @ CHR ''@'' # d @ [CHR ''>'']"
      and l: "dot_atom l" and d: "dot_atom d \<or> no_fold_literal d"
    by (auto simp: msg_id_def)
  have "domain_part (d @ [CHR ''>'']) (CHR ''@'') = Some [CHR ''>'']"
    using d domain_part_complete_dot [of d "[CHR ''>'']"] domain_part_complete_literal by auto
  then show "IsValidMessageID (Some s) False False"
    using len s local_part_complete [OF l, of "CHR ''@'' # d @ [CHR ''>'']" False]
    by (simp add: IsValidMessageID_def NNTP_MAXLEN_MSGID_def)
qed

text \<open>
  C24: with neither option set, \<open>IsValidMessageID\<close> accepts exactly the strings of at most 250
  octets of the grammar \<open>< dot-atom-text @ (dot-atom-text | no-fold-literal) >\<close>.
\<close>

theorem IsValidMessageID_grammar:
  "IsValidMessageID (Some s) False False \<longleftrightarrow> length s \<le> 250 \<and> msg_id s"
  by (rule IsValidMessageID_iff)

text \<open>
  A header body that \<open>IsValidHeaderBody\<close> is asked about behind another octet is accepted
  exactly when it is valid UTF-8, every line has something but white space, every continuation
  line starts with white space, and no CR stands outside a line end.
\<close>

theorem IsValidHeaderBody_lines:
  assumes "b \<noteq> CR" and "s \<noteq> []"
  shows "IsValidHeaderBody (Some s) (Some b) =
    map_option (\<lambda>v. v \<and> body_lines_ok True (eol_lines s)) (is_valid_utf8 s)"
  using body_loop_lines [of "Some b" s True] assms
  by (auto simp: IsValidHeaderBody_def split: option.splits Option.bind_splits)

theorem IsValidHeaderBody_lines_witness:
  "IsValidHeaderBody (Some (''a'' @ [CR, LF] @ '' b'')) (Some SP) = Some True \<and>
   IsValidHeaderBody (Some (''a'' @ [CR, LF] @ ''b'')) (Some SP) = Some False"
proof
  have "is_valid_utf8 (''a'' @ [CR, LF] @ '' b'') = Some True" by code_simp
  moreover have "body_lines_ok True (eol_lines (''a'' @ [CR, LF] @ '' b''))" by code_simp
  ultimately show "IsValidHeaderBody (Some (''a'' @ [CR, LF] @ '' b'')) (Some SP) = Some True"
    using IsValidHeaderBody_lines [of SP "''a'' @ [CR, LF] @ '' b''"] by simp
  have "is_valid_utf8 (''a'' @ [CR, LF] @ ''b'') = Some True" by code_simp
  moreover have "\<not> body_lines_ok True (eol_lines (''a'' @ [CR, LF] @ ''b''))" by code_simp
  ultimately show "IsValidHeaderBody (Some (''a'' @ [CR, LF] @ ''b'')) (Some SP) = Some False"
    using IsValidHeaderBody_lines [of SP "''a'' @ [CR, LF] @ ''b''"] by simp
qed

text \<open>
  \<open>skip_cfws\<close> steps over any sequence of white space, line ends and comments, however the
  comments nest and whatever they quote, and stops at the next other octet.
\<close>

theorem skip_cfws_skips:
  assumes "deref s \<notin> {SP, TAB, LF, CR, CHR ''(''}"
  shows "skip_cfws (concat (map render_cfws xs) @ s) = s"
proof -
  have "skip_cfws_loop 0 s = s" using assms by (cases s) auto
  then show ?thesis
    by (induction xs) (simp_all add: skip_cfws_def skip_cfws_loop_render(1))
qed

theorem skip_cfws_skips_witness:
  "deref ''x'' \<notin> {SP, TAB, LF, CR, CHR ''(''} \<and>
   skip_cfws (concat (map render_cfws [Crlf, Blank, Comment [Text (CHR '')''), Inner (Comment [])]]) @ ''x'') = ''x''"
proof
  show d: "deref ''x'' \<notin> {SP, TAB, LF, CR, CHR ''(''}" by simp
  show "skip_cfws (concat (map render_cfws [Crlf, Blank, Comment [Text (CHR '')''), Inner (Comment [])]]) @ ''x'') = ''x''"
    by (rule skip_cfws_skips [OF d])
qed

end
