(* ===== verification/MD5.thy ===== *)
theory MD5
  imports Prelude
begin

text \<open>
  The MD5 message digest, \<open>lib/md5.c\<close>, on a little-endian machine (where \<open>decode\<close> is empty and
  \<open>encode\<close> copies). A \<open>uint32_t\<close> is a \<open>32 word\<close>; the 64-octet chunk buffer \<open>in\<close> is a list of
  octets read as little-endian words where the code reads its word view.
\<close>

unbundle bit_operations_syntax

type_synonym u32 = "32 word"

section \<open>The compression function\<close>

definition ROT :: "u32 \<Rightarrow> nat \<Rightarrow> u32" where
  "ROT x n = push_bit n x OR drop_bit (32 - n) x"

datatype md5_round = RF | RG | RH | RI

fun md5_fun :: "md5_round \<Rightarrow> u32 \<Rightarrow> u32 \<Rightarrow> u32 \<Rightarrow> u32" where
  "md5_fun RF x y z = z XOR (x AND (y XOR z))"
| "md5_fun RG x y z = y XOR (z AND (x XOR y))"
| "md5_fun RH x y z = x XOR y XOR z"
| "md5_fun RI x y z = y XOR (x OR (NOT z))"

type_synonym chain = "u32 \<times> u32 \<times> u32 \<times> u32"

text \<open>
  One of the macros \<open>FF\<close>, \<open>GG\<close>, \<open>HH\<close>, \<open>II\<close>. The code names the registers in the rotated order
  \<open>a b c d\<close>, \<open>d a b c\<close>, ... in consecutive steps; here the tuple is rotated instead, so every
  step updates its first component.
\<close>

definition md5_step :: "u32 list \<Rightarrow> md5_round \<times> nat \<times> nat \<times> u32 \<Rightarrow> chain \<Rightarrow> chain" where
  "md5_step ws st abcd =
     (case st of (f, k, s, ac) \<Rightarrow> case abcd of (a, b, c, d) \<Rightarrow>
        (d, ROT (a + (md5_fun f b c d + ws ! k + ac)) s + b, b, c))"

text \<open>The 64 steps: the round, the index into \<open>in\<close>, the rotation and the constant.\<close>

definition md5_steps :: "(md5_round \<times> nat \<times> nat \<times> u32) list" where
  "md5_steps =
    [
     (RF, 0, 7, 3614090360), (RF, 1, 12, 3905402710), (RF, 2, 17, 606105819), (RF, 3, 22, 3250441966),
     (RF, 4, 7, 4118548399), (RF, 5, 12, 1200080426), (RF, 6, 17, 2821735955), (RF, 7, 22, 4249261313),
     (RF, 8, 7, 1770035416), (RF, 9, 12, 2336552879), (RF, 10, 17, 4294925233), (RF, 11, 22, 2304563134),
     (RF, 12, 7, 1804603682), (RF, 13, 12, 4254626195), (RF, 14, 17, 2792965006), (RF, 15, 22, 1236535329),
     (RG, 1, 5, 4129170786), (RG, 6, 9, 3225465664), (RG, 11, 14, 643717713), (RG, 0, 20, 3921069994),
     (RG, 5, 5, 3593408605), (RG, 10, 9, 38016083), (RG, 15, 14, 3634488961), (RG, 4, 20, 3889429448),
     (RG, 9, 5, 568446438), (RG, 14, 9, 3275163606), (RG, 3, 14, 4107603335), (RG, 8, 20, 1163531501),
     (RG, 13, 5, 2850285829), (RG, 2, 9, 4243563512), (RG, 7, 14, 1735328473), (RG, 12, 20, 2368359562),
     (RH, 5, 4, 4294588738), (RH, 8, 11, 2272392833), (RH, 11, 16, 1839030562), (RH, 14, 23, 4259657740),
     (RH, 1, 4, 2763975236), (RH, 4, 11, 1272893353), (RH, 7, 16, 4139469664), (RH, 10, 23, 3200236656),
     (RH, 13, 4, 681279174), (RH, 0, 11, 3936430074), (RH, 3, 16, 3572445317), (RH, 6, 23, 76029189),
     (RH, 9, 4, 3654602809), (RH, 12, 11, 3873151461), (RH, 15, 16, 530742520), (RH, 2, 23, 3299628645),
     (RI, 0, 6, 4096336452), (RI, 7, 10, 1126891415), (RI, 14, 15, 2878612391), (RI, 5, 21, 4237533241),
     (RI, 12, 6, 1700485571), (RI, 3, 10, 2399980690), (RI, 10, 15, 4293915773), (RI, 1, 21, 2240044497),
     (RI, 8, 6, 1873313359), (RI, 15, 10, 4264355552), (RI, 6, 15, 2734768916), (RI, 13, 21, 1309151649),
     (RI, 4, 6, 4149444226), (RI, 11, 10, 3174756917), (RI, 2, 15, 718787259), (RI, 9, 21, 3951481745)
    ]"

definition md5_transform :: "chain \<Rightarrow> u32 list \<Rightarrow> chain" where
  "md5_transform buf ws =
     (case buf of (b0, b1, b2, b3) \<Rightarrow>
        case fold (md5_step ws) md5_steps buf of (a, b, c, d) \<Rightarrow>
          (b0 + a, b1 + b, b2 + c, b3 + d))"

section \<open>Little-endian words\<close>

fun le_words :: "octets \<Rightarrow> u32 list" where
  "le_words (a # b # c # d # r) =
     word_of_nat (ord a + 256 * ord b + 65536 * ord c + 16777216 * ord d) # le_words r"
| "le_words r = []"

definition le_bytes :: "u32 \<Rightarrow> octets" where
  "le_bytes w = map (\<lambda>k. chr (unat w div 256 ^ k)) [0, 1, 2, 3]"

section \<open>The context\<close>

record md5_context =
  count0 :: u32
  count1 :: u32
  buf :: chain
  inb :: octets
  datalen :: nat
  digest :: octets

definition blit :: "octets \<Rightarrow> nat \<Rightarrow> octets \<Rightarrow> octets" where
  "blit dst off src = take off dst @ src @ drop (off + length src) dst"

text \<open>\<open>memcpy (dst + off, src, length src)\<close> above; the context passed in is uninitialised memory.\<close>

definition md5_init :: "md5_context \<Rightarrow> md5_context" where
  "md5_init ctx =
     ctx\<lparr>buf := (0x67452301, 0xefcdab89, 0x98badcfe, 0x10325476), count0 := 0, count1 := 0,
         datalen := 0\<rparr>"

function md5_update_block :: "chain \<Rightarrow> octets \<Rightarrow> chain" where
  "md5_update_block b data =
     (if 64 \<le> length data
      then md5_update_block (md5_transform b (le_words (take 64 data))) (drop 64 data)
      else b)"
  by pat_completeness auto
termination
  by (relation "measure (\<lambda>(b, d). length d)") auto

declare md5_update_block.simps [simp del]

text \<open>The byte count: \<open>size_t\<close> has 64 bits.\<close>

definition md5_count :: "md5_context \<Rightarrow> nat \<Rightarrow> md5_context" where
  "md5_count ctx n =
     (let high_count = n div 2 ^ 31;
          c1 = count1 ctx + word_of_nat (high_count div 2 mod 2 ^ 32);
          low_count = word_of_nat n;
          c0 = count0 ctx + low_count in
      ctx\<lparr>count0 := c0, count1 := (if c0 < low_count then c1 + 1 else c1)\<rparr>)"

text \<open>What follows the completion of a queued block.\<close>

definition md5_update_rest :: "md5_context \<Rightarrow> octets \<Rightarrow> md5_context" where
  "md5_update_rest ctx data =
     (let used = (length data div 64) * 64;
          ctx' = (if 64 \<le> length data then ctx\<lparr>buf := md5_update_block (buf ctx) data\<rparr> else ctx);
          data' = (if 64 \<le> length data then drop used data else data) in
      if 0 < length data' then ctx'\<lparr>inb := blit (inb ctx') 0 data', datalen := length data'\<rparr>
      else ctx')"

definition md5_update :: "md5_context \<Rightarrow> octets \<Rightarrow> md5_context" where
  "md5_update ctx0 data =
     (let ctx = md5_count ctx0 (length data); dl = datalen ctx0 in
      if 0 < dl then
        let left = 64 - dl in
        if length data < left then
          ctx\<lparr>inb := blit (inb ctx) dl data, datalen := dl + length data\<rparr>
        else
          let inb' = blit (inb ctx) dl (take left data) in
          md5_update_rest
            (ctx\<lparr>inb := inb', buf := md5_transform (buf ctx) (le_words inb'), datalen := 0\<rparr>)
            (drop left data)
      else md5_update_rest ctx data)"

definition padding :: octets where
  "padding = CHR 0x80 # replicate 63 NUL"

definition md5_final :: "md5_context \<Rightarrow> md5_context" where
  "md5_final ctx =
     (let left = datalen ctx;
          pad_needed = (if left < 64 - 8 then 64 - 8 - left else 128 - 8 - left);
          ctx' = md5_update ctx (take pad_needed padding);
          ws = (le_words (inb ctx'))[14 := push_bit 3 (count0 ctx),
                 15 := push_bit 3 (count1 ctx) OR drop_bit 29 (count0 ctx)];
          b = md5_transform (buf ctx') ws in
      ctx'\<lparr>buf := b,
           digest := (case b of (b0, b1, b2, b3) \<Rightarrow>
             le_bytes b0 @ le_bytes b1 @ le_bytes b2 @ le_bytes b3)\<rparr>)"

definition md5_hash :: "md5_context \<Rightarrow> octets \<Rightarrow> octets" where
  "md5_hash mem data = digest (md5_final (md5_update (md5_init mem) data))"

section \<open>The digest of a whole message (RFC 1321)\<close>

definition md5_iv :: chain where
  "md5_iv = (0x67452301, 0xefcdab89, 0x98badcfe, 0x10325476)"

text \<open>
  The message is padded by the octet 128 and zeros to 56 octets modulo 64, and its length in bits
  modulo \<open>2 ^ 64\<close> is appended as two little-endian words.
\<close>

definition md5_padded :: "octets \<Rightarrow> octets" where
  "md5_padded m = m @ CHR 0x80 # replicate ((119 - length m mod 64) mod 64) NUL"

definition md5_spec :: "octets \<Rightarrow> octets" where
  "md5_spec m =
     (let bits = 8 * length m mod 2 ^ 64 in
      case md5_update_block md5_iv
        (md5_padded m @ le_bytes (word_of_nat bits) @ le_bytes (word_of_nat (bits div 2 ^ 32))) of
        (b0, b1, b2, b3) \<Rightarrow> le_bytes b0 @ le_bytes b1 @ le_bytes b2 @ le_bytes b3)"

section \<open>Blocks\<close>

lemma update_block_short: "length d < 64 \<Longrightarrow> md5_update_block b d = b"
  by (subst md5_update_block.simps) simp

lemma update_block_one: "length d = 64 \<Longrightarrow> md5_update_block b d = md5_transform b (le_words d)"
  by (subst md5_update_block.simps) (simp add: update_block_short)

lemma update_block_append:
  "64 dvd length x \<Longrightarrow> md5_update_block b (x @ y) = md5_update_block (md5_update_block b x) y"
proof (induction b x rule: md5_update_block.induct)
  case (1 b x)
  show ?case
  proof (cases "64 \<le> length x")
    case True
    have "64 dvd length (drop 64 x)" using "1.prems" by (simp add: dvd_diff_nat)
    then have "md5_update_block (md5_transform b (le_words (take 64 x))) (drop 64 x @ y) =
        md5_update_block (md5_update_block (md5_transform b (le_words (take 64 x))) (drop 64 x)) y"
      using "1.IH" True by blast
    moreover have "md5_update_block b (x @ y) =
        md5_update_block (md5_transform b (le_words (take 64 x))) (drop 64 x @ y)"
      using True by (subst md5_update_block.simps) simp
    moreover have "md5_update_block b x =
        md5_update_block (md5_transform b (le_words (take 64 x))) (drop 64 x)"
      using True by (subst md5_update_block.simps) simp
    ultimately show ?thesis by simp
  next
    case False
    then have "x = []" using "1.prems" by (metis dvd_imp_le length_greater_0_conv)
    then show ?thesis by (simp add: update_block_short)
  qed
qed

text \<open>The octets of a message that fill no block.\<close>

definition tail64 :: "octets \<Rightarrow> octets" where
  "tail64 m = drop (length m div 64 * 64) m"

lemma length_tail64 [simp]: "length (tail64 m) = length m mod 64"
  by (simp add: tail64_def modulo_nat_def)

lemma split64:
  obtains h where "m = h @ tail64 m" and "64 dvd length h"
proof -
  have "length (take (length m div 64 * 64) m) = length m div 64 * 64"
    by (simp add: div_times_less_eq_dividend min_absorb2)
  then show ?thesis using that [of "take (length m div 64 * 64) m"] by (simp add: tail64_def)
qed

lemma tail64_append: "64 dvd length h \<Longrightarrow> tail64 (h @ t) = tail64 t"
  by (auto simp: tail64_def elim!: dvdE)

lemma tail64_short [simp]: "length t < 64 \<Longrightarrow> tail64 t = t"
  by (simp add: tail64_def)

lemma update_block_tail: "64 dvd length h \<Longrightarrow> length t < 64 \<Longrightarrow> md5_update_block b (h @ t) = md5_update_block b h"
  by (simp add: update_block_append update_block_short)

section \<open>What a context holds\<close>

definition md5_data :: "md5_context \<Rightarrow> octets \<Rightarrow> bool" where
  "md5_data ctx m \<longleftrightarrow>
     length (inb ctx) = 64 \<and> datalen ctx = length m mod 64 \<and>
     take (datalen ctx) (inb ctx) = tail64 m \<and> buf ctx = md5_update_block md5_iv m"

definition md5_counts :: "md5_context \<Rightarrow> nat \<Rightarrow> bool" where
  "md5_counts ctx n \<longleftrightarrow> count0 ctx = word_of_nat n \<and> count1 ctx = word_of_nat (n div 2 ^ 32)"

lemma length_blit [simp]: "off + length src \<le> length dst \<Longrightarrow> length (blit dst off src) = length dst"
  by (simp add: blit_def)

lemma take_blit: "off + length src \<le> length dst \<Longrightarrow> take (off + length src) (blit dst off src) = take off dst @ src"
  by (simp add: blit_def)

lemma md5_count_frame [simp]:
  "buf (md5_count ctx n) = buf ctx" "inb (md5_count ctx n) = inb ctx"
  "datalen (md5_count ctx n) = datalen ctx"
  by (simp_all add: md5_count_def Let_def)

lemma carry_iff:
  assumes "a < N" and "b < (N :: nat)"
  shows "(a + b) mod N < b \<longleftrightarrow> N \<le> a + b"
proof (cases "N \<le> a + b")
  case True
  then have "(a + b) mod N = a + b - N" using assms by (simp add: le_mod_geq)
  then show ?thesis using True assms by linarith
qed simp

lemma md5_count_counts:
  assumes "md5_counts ctx k"
  shows "md5_counts (md5_count ctx n) (k + n)"
proof -
  define lo where "lo = (word_of_nat n :: u32)"
  have c0: "count0 ctx + lo = word_of_nat (k + n)" using assms by (simp add: md5_counts_def lo_def)
  have lt: "count0 ctx + lo < lo \<longleftrightarrow> 2 ^ 32 \<le> k mod 2 ^ 32 + n mod 2 ^ 32"
  proof -
    have "unat (count0 ctx + lo) = (k mod 2 ^ 32 + n mod 2 ^ 32) mod 2 ^ 32"
      unfolding c0 unat_of_nat by (simp add: mod_add_eq)
    moreover have "unat lo = n mod 2 ^ 32" by (simp add: lo_def unat_of_nat)
    ultimately show ?thesis unfolding word_less_nat_alt
      using carry_iff [of "k mod 2 ^ 32" "2 ^ 32" "n mod 2 ^ 32"] by simp
  qed
  have hi: "n div 2 ^ 31 div 2 = n div 2 ^ 32" by (simp add: div_mult2_eq [symmetric])
  have "(k + n) div 2 ^ 32 = k div 2 ^ 32 + n div 2 ^ 32 + (k mod 2 ^ 32 + n mod 2 ^ 32) div 2 ^ 32"
    by (rule div_add1_eq)
  moreover have "(k mod 2 ^ 32 + n mod 2 ^ 32) div 2 ^ 32 = (if count0 ctx + lo < lo then 1 else 0)"
    unfolding lt by (auto simp: div_nat_eqI)
  moreover have "word_of_nat (n div 2 ^ 32 mod 2 ^ 32) = (word_of_nat (n div 2 ^ 32) :: u32)"
    by (simp add: word_of_nat_eq_iff take_bit_eq_mod)
  ultimately show ?thesis
    using assms c0 unfolding md5_counts_def md5_count_def Let_def hi lo_def [symmetric]
    by simp
qed

lemma md5_update_rest_data:
  assumes "md5_data ctx m" and "64 dvd length m"
  shows "md5_data (md5_update_rest ctx data) (m @ data)"
proof -
  obtain h where h: "data = h @ tail64 data" "64 dvd length h" by (rule split64)
  have used: "(length data div 64) * 64 = length h"
  proof -
    have "length data = length h + length data mod 64" using arg_cong [OF h(1), of length] by simp
    then show ?thesis by (metis add_right_cancel div_mult_mod_eq)
  qed
  define b where "b = md5_update_block (buf ctx) data"
  have b: "b = md5_update_block md5_iv (m @ data)"
    using assms by (simp add: b_def md5_data_def update_block_append)
  have short: "\<not> 64 \<le> length data \<Longrightarrow> b = buf ctx" by (simp add: b_def update_block_short)
  have dl: "datalen ctx = 0" "length (inb ctx) = 64" using assms by (auto simp: md5_data_def)
  have rest: "(if 64 \<le> length data then drop (length h) data else data) = tail64 data"
    using used by (auto simp: tail64_def)
  have eq: "md5_update_rest ctx data =
      (if 0 < length (tail64 data)
       then ctx\<lparr>buf := b, inb := blit (inb ctx) 0 (tail64 data), datalen := length (tail64 data)\<rparr>
       else ctx\<lparr>buf := b\<rparr>)"
    unfolding md5_update_rest_def Let_def used rest using short by (auto simp: b_def)
  have mod: "length (m @ data) mod 64 = length (tail64 data)"
    using assms(2) by (metis add_0 dvd_imp_mod_0 length_append length_tail64 mod_add_left_eq)
  have pos: "tail64 data \<noteq> [] \<longleftrightarrow> 0 < length data mod 64"
    by (metis length_tail64 length_greater_0_conv)
  have "length (tail64 data) \<le> 64" by simp
  then show ?thesis
    using dl b mod tail64_append [OF assms(2), of data] take_blit [of 0 "tail64 data" "inb ctx"]
      tail64_append [OF assms(2), of "tail64 data"]
    unfolding md5_data_def eq by (cases "tail64 data = []") (auto simp: blit_def pos)
qed

lemma md5_data_cong:
  "buf c = buf d \<Longrightarrow> inb c = inb d \<Longrightarrow> datalen c = datalen d \<Longrightarrow> md5_data c m = md5_data d m"
  by (simp add: md5_data_def)

lemma md5_update_data:
  assumes "md5_data ctx m"
  shows "md5_data (md5_update ctx data) (m @ data)"
proof -
  obtain h where h: "m = h @ tail64 m" "64 dvd length h" by (rule split64)
  define c where "c = md5_count ctx (length data)"
  have c: "md5_data c m" using assms unfolding md5_data_def c_def md5_count_frame .
  define dl where "dl = datalen ctx"
  have dl: "dl = length m mod 64" "length (tail64 m) = dl" "take dl (inb c) = tail64 m" "length (inb c) = 64"
      "dl < 64" "datalen c = dl" "buf c = md5_update_block md5_iv h"
    using assms c arg_cong [OF h(1), of "md5_update_block md5_iv"] update_block_tail [OF h(2), of "tail64 m"]
    by (auto simp: dl_def c_def md5_data_def)
  have t: "tail64 (m @ data) = tail64 (tail64 m @ data)"
    by (subst (1) h(1)) (simp add: tail64_append [OF h(2)])
  show ?thesis
  proof (cases "0 < dl")
    case False
    then have "64 dvd length m" using dl(1) by (simp add: dvd_eq_mod_eq_0)
    then show ?thesis using md5_update_rest_data [OF c] False
      by (simp add: md5_update_def Let_def c_def dl_def)
  next
    case pos: True
    show ?thesis
    proof (cases "length data < 64 - dl")
      case True
      have "md5_update_block md5_iv (m @ data) = md5_update_block md5_iv h"
        using update_block_tail [OF h(2), of "tail64 m @ data"] True dl(2) by (subst h(1)) simp
      moreover have "length (m @ data) mod 64 = dl + length data"
        using True dl(1) by (metis add.commute length_append less_diff_conv mod_add_left_eq mod_less)
      ultimately show ?thesis using pos True dl t
        by (simp add: md5_update_def Let_def c_def [symmetric] dl_def [symmetric] md5_data_def take_blit)
    next
      case False
      define left where "left = 64 - dl"
      define i where "i = blit (inb c) dl (take left data)"
      have len: "length (take left data) = left" using False by (simp add: left_def min_absorb2)
      have i: "i = tail64 m @ take left data" "length i = 64"
        using dl len by (auto simp: i_def blit_def left_def)
      define c' where "c' = c\<lparr>inb := i, buf := md5_transform (buf c) (le_words i), datalen := 0\<rparr>"
      have m': "64 dvd length (m @ take left data)"
      proof -
        have "m @ take left data = h @ i" by (subst h(1)) (simp add: i(1))
        then show ?thesis using h(2) i(2) by simp
      qed
      have "md5_update_block md5_iv (m @ take left data) = md5_transform (buf c) (le_words i)"
      proof -
        have "m @ take left data = h @ i" by (subst h(1)) (simp add: i(1))
        then show ?thesis using update_block_append [OF h(2)] update_block_one [OF i(2)] dl(7) by simp
      qed
      then have "md5_data c' (m @ take left data)"
        using m' i(2) by (auto simp: c'_def md5_data_def tail64_def)
      from md5_update_rest_data [OF this m', of "drop left data"]
      show ?thesis using pos False
        by (simp add: md5_update_def Let_def c_def [symmetric] dl_def [symmetric] left_def [symmetric]
            i_def [symmetric] c'_def)
    qed
  qed
qed

section \<open>The final block\<close>

lemma le_words_append: "4 dvd length x \<Longrightarrow> le_words (x @ y) = le_words x @ le_words y"
proof (induction x rule: le_words.induct)
  case (1 a b c d r)
  have "4 dvd length r" using "1.prems" by simp presburger
  then show ?case using "1.IH" by simp
qed (simp_all, presburger+)

lemma length_le_words: "length (le_words x) = length x div 4"
  by (induction x rule: le_words.induct) auto

lemma bytes_sum:
  assumes "u < 2 ^ 32"
  shows "u mod 256 + 256 * (u div 256 mod 256) + 65536 * (u div 65536 mod 256) +
    16777216 * (u div 16777216 mod 256) = (u :: nat)"
proof -
  have "u mod (256 * 256) = 256 * (u div 256 mod 256) + u mod 256" by (rule mod_mult2_eq)
  moreover have "u mod (65536 * 256) = 65536 * (u div 65536 mod 256) + u mod 65536" by (rule mod_mult2_eq)
  moreover have "u mod (16777216 * 256) = 16777216 * (u div 16777216 mod 256) + u mod 16777216"
    by (rule mod_mult2_eq)
  moreover have "u mod (16777216 * 256) = u" using assms by simp
  ultimately show ?thesis by simp
qed

lemma le_words_bytes: "le_words (le_bytes w) = [w]"
proof -
  have "unat w < 2 ^ 32" using unsigned_less [of w] by simp
  from arg_cong [OF bytes_sum [OF this], of "word_of_nat :: nat \<Rightarrow> u32"]
  have "(word_of_nat (unat w mod 256 + 256 * (unat w div 256 mod 256) + 65536 * (unat w div 65536 mod 256) +
      16777216 * (unat w div 16777216 mod 256)) :: u32) = w"
    by (simp only: of_nat_unat unsigned_ucast_eq ucast_id)
  moreover have "le_words (le_bytes w) =
      [word_of_nat (unat w mod 256 + 256 * (unat w div 256 mod 256) + 65536 * (unat w div 65536 mod 256) +
        16777216 * (unat w div 16777216 mod 256))]"
    unfolding le_bytes_def list.map le_words.simps ord_chr by (simp only: power_0 div_by_1, simp)
  ultimately show ?thesis by (simp only:)
qed

lemma length_le_bytes [simp]: "length (le_bytes w) = 4"
  by (simp add: le_bytes_def)

lemma count_words:
  fixes c0 c1 :: u32
  assumes "c0 = word_of_nat n" and "c1 = word_of_nat (n div 2 ^ 32)"
  shows "push_bit 3 c0 = word_of_nat (8 * n mod 2 ^ 64)"
    and "push_bit 3 c1 OR drop_bit 29 c0 = word_of_nat (8 * n mod 2 ^ 64 div 2 ^ 32)"
proof -
  have bits: "8 * n mod 2 ^ 64 = take_bit 64 (push_bit 3 n)" "n div 2 ^ 32 = drop_bit 32 n"
    "8 * n mod 2 ^ 64 div 2 ^ 32 = drop_bit 32 (take_bit 64 (push_bit 3 n))"
    by (simp_all add: take_bit_eq_mod push_bit_eq_mult drop_bit_eq_div mult.commute)
  show "push_bit 3 c0 = word_of_nat (8 * n mod 2 ^ 64)"
    unfolding assms bits by (rule bit_word_eqI) (auto simp: bit_simps)
  show "push_bit 3 c1 OR drop_bit 29 c0 = word_of_nat (8 * n mod 2 ^ 64 div 2 ^ 32)"
    unfolding assms bits(2,3) by (rule bit_word_eqI) (auto simp: bit_simps ac_simps)
qed

lemma take_padding: "k \<le> 63 \<Longrightarrow> take (Suc k) padding = CHR 0x80 # replicate k NUL"
  by (simp add: padding_def min_def)

lemma pad_len: "r < 64 \<Longrightarrow> (119 - r) mod 64 = (if r < 56 then 55 - r else 119 - r)" for r :: nat
  by (auto simp: mod_if)

lemma length_padded_mod: "length (md5_padded m) mod 64 = 56"
proof -
  have "length (md5_padded m) = length m + 1 + (119 - length m mod 64) mod 64"
    by (simp add: md5_padded_def)
  then have "length (md5_padded m) mod 64 = (length m mod 64 + (1 + (119 - length m mod 64) mod 64)) mod 64"
    by (metis add.assoc mod_add_left_eq)
  also have "length m mod 64 + (1 + (119 - length m mod 64) mod 64) =
      (if length m mod 64 < 56 then 56 else 120)"
    using pad_len [of "length m mod 64"] by auto
  finally show ?thesis by (auto split: if_splits)
qed

lemma md5_final_spec:
  assumes "md5_data ctx m" and "md5_counts ctx (length m)"
  shows "digest (md5_final ctx) = md5_spec m"
proof -
  define left where "left = length m mod 64"
  have left: "datalen ctx = left" "left < 64" using assms by (simp_all add: left_def md5_data_def)
  have "(if left < 64 - 8 then 64 - 8 - left else 128 - 8 - left) = Suc ((119 - left) mod 64)"
    using left(2) pad_len [OF left(2)] by auto
  then have pad: "take (if left < 64 - 8 then 64 - 8 - left else 128 - 8 - left) padding =
      CHR 0x80 # replicate ((119 - left) mod 64) NUL"
    by (simp add: take_padding less_Suc_eq_le [symmetric])
  define c where "c = md5_update ctx (CHR 0x80 # replicate ((119 - left) mod 64) NUL)"
  have c: "md5_data c (md5_padded m)"
    using md5_update_data [OF assms(1)] by (simp add: c_def md5_padded_def left_def)
  define p where "p = md5_padded m"
  obtain h where h: "p = h @ tail64 p" "64 dvd length h" by (rule split64)
  have len: "length (tail64 p) = 56" by (simp add: p_def length_padded_mod)
  have inb: "take 56 (inb c) = tail64 p" "length (inb c) = 64" "buf c = md5_update_block md5_iv h"
    using c len arg_cong [OF h(1), of "md5_update_block md5_iv"] update_block_tail [OF h(2), of "tail64 p"]
    by (auto simp: md5_data_def p_def)
  define bits where "bits = 8 * length m mod 2 ^ 64"
  define lo where "lo = (word_of_nat bits :: u32)"
  define hi where "hi = (word_of_nat (bits div 2 ^ 32) :: u32)"
  have cnt: "push_bit 3 (count0 ctx) = lo" "push_bit 3 (count1 ctx) OR drop_bit 29 (count0 ctx) = hi"
    using count_words [of "count0 ctx" "length m" "count1 ctx"] assms(2)
    by (simp_all add: md5_counts_def lo_def hi_def bits_def)
  have "inb c = tail64 p @ drop 56 (inb c)" using inb(1) by (metis append_take_drop_id)
  then have "le_words (inb c) = le_words (tail64 p) @ le_words (drop 56 (inb c))"
    using le_words_append [of "tail64 p" "drop 56 (inb c)"] len by simp
  moreover have "length (le_words (tail64 p)) = 14" "length (le_words (drop 56 (inb c))) = 2"
    unfolding length_le_words len length_drop inb(2) by simp_all
  then obtain x y where "le_words (drop 56 (inb c)) = [x, y]" "length (le_words (tail64 p)) = 14"
    by (auto simp: length_Suc_conv numeral_2_eq_2)
  ultimately have "(le_words (inb c))[14 := lo, 15 := hi] = le_words (tail64 p) @ [lo, hi]"
    by (simp add: list_update_append)
  also have "\<dots> = le_words (tail64 p @ le_bytes lo @ le_bytes hi)"
    using le_words_append [of "tail64 p"] le_words_append [of "le_bytes lo"] len
    by (simp add: le_words_bytes)
  finally have ws: "(le_words (inb c))[14 := lo, 15 := hi] = le_words (tail64 p @ le_bytes lo @ le_bytes hi)" .
  have "md5_transform (buf c) (le_words (tail64 p @ le_bytes lo @ le_bytes hi)) =
      md5_update_block md5_iv (h @ (tail64 p @ le_bytes lo @ le_bytes hi))"
    using update_block_append [OF h(2)] update_block_one [of "tail64 p @ le_bytes lo @ le_bytes hi"] len inb(3)
    by simp
  also have "h @ tail64 p @ le_bytes lo @ le_bytes hi = p @ le_bytes lo @ le_bytes hi"
    by (metis append.assoc h(1))
  finally show ?thesis
    unfolding md5_final_def Let_def left(1) pad c_def [symmetric] cnt ws md5_spec_def p_def [symmetric]
      bits_def [symmetric] lo_def [symmetric] hi_def [symmetric]
    by simp
qed

lemma md5_update_counts:
  "md5_counts ctx k \<Longrightarrow> md5_counts (md5_update ctx data) (k + length data)"
  using md5_count_counts [of ctx k "length data"]
  by (auto simp: md5_update_def md5_update_rest_def md5_counts_def Let_def)

text \<open>Any number of updates, starting from a context with whatever memory it was given.\<close>

lemma md5_updates:
  assumes "md5_data ctx m" and "md5_counts ctx (length m)"
  shows "md5_data (fold (\<lambda>d c. md5_update c d) ds ctx) (m @ concat ds) \<and>
    md5_counts (fold (\<lambda>d c. md5_update c d) ds ctx) (length (m @ concat ds))"
  using assms
proof (induction ds arbitrary: ctx m)
  case (Cons d ds)
  from Cons.IH [OF md5_update_data [OF Cons.prems(1), of d]] md5_update_counts [OF Cons.prems(2), of d]
  show ?case by simp
qed simp

lemma md5_init_data: "length (inb mem) = 64 \<Longrightarrow> md5_data (md5_init mem) []"
  by (simp add: md5_data_def md5_init_def md5_iv_def update_block_short tail64_def)

lemma md5_init_counts: "md5_counts (md5_init mem) 0"
  by (simp add: md5_counts_def md5_init_def)

lemma md5_hash_spec: "length (inb mem) = 64 \<Longrightarrow> md5_hash mem data = md5_spec data"
  using md5_updates [OF md5_init_data, of mem "[data]"] md5_init_counts [of mem]
  by (simp add: md5_hash_def md5_final_spec)

section \<open>Properties\<close>



end
