(* ===== verification/Hash.thy ===== *)
theory Hash
  imports MD5 Headers
begin

text \<open>
  Hashes of message-IDs and their text form (\<open>lib/hash.c\<close>, \<open>lib/hex.c\<close>), the radix-32 numerals
  (\<open>lib/radix32.c\<close>) and the generation of message-IDs (\<open>lib/messageid.c\<close>).
\<close>

section \<open>Hexadecimal\<close>

definition hexdigits :: octets where
  "hexdigits = ''0123456789ABCDEF''"

text \<open>
  \<open>inn_encode_hex\<close>: the string in the buffer afterwards, \<open>None\<close> where it is left alone
  (\<open>buflen = 0\<close>). Octets written at the last place of the buffer are overwritten by the NUL.
\<close>

fun encode_hex_loop :: "octets \<Rightarrow> nat \<Rightarrow> nat \<Rightarrow> octets" where
  "encode_hex_loop [] i buflen = []"
| "encode_hex_loop (b # bs) i buflen =
     (if i * 2 < buflen - 1
      then hexdigits ! (ord b div 16) # hexdigits ! (ord b mod 16) # encode_hex_loop bs (i + 1) buflen
      else [])"

definition inn_encode_hex :: "octets \<Rightarrow> nat \<Rightarrow> octets option" where
  "inn_encode_hex data buflen =
     (if buflen = 0 then None
      else let out = encode_hex_loop data 0 buflen in
        Some (if buflen - 1 < length data * 2 then take (buflen - 1) out else out))"

definition hex_value :: "char \<Rightarrow> nat option" where
  "hex_value c =
     (if 48 \<le> ord c \<and> ord c \<le> 57 then Some (ord c - 48)
      else if 65 \<le> ord c \<and> ord c \<le> 70 then Some (ord c - 65 + 10)
      else if 97 \<le> ord c \<and> ord c \<le> 102 then Some (ord c - 97 + 10)
      else None)"

text \<open>The loop of \<open>inn_decode_hex\<close> over the rest of the text, from the index \<open>i\<close>.\<close>

fun decode_hex_loop :: "octets \<Rightarrow> nat \<Rightarrow> octets \<Rightarrow> octets" where
  "decode_hex_loop [] i buffer = buffer"
| "decode_hex_loop (c # cs) i buffer =
     (if i div 2 < length buffer then
        (case hex_value c of
           None \<Rightarrow> buffer
         | Some part0 \<Rightarrow>
             let part = (if i mod 2 = 0 then part0 * 16 mod 256 else part0) in
             decode_hex_loop cs (i + 1) (buffer[i div 2 := chr (or (ord (buffer ! (i div 2))) part)]))
      else buffer)"

definition inn_decode_hex :: "octets \<Rightarrow> nat \<Rightarrow> octets" where
  "inn_decode_hex data buflen = decode_hex_loop data 0 (replicate buflen NUL)"

section \<open>Hashes\<close>

type_synonym HASH = octets

definition HASH_SIZE :: nat where "HASH_SIZE = 16"

text \<open>
  The context on the stack of \<open>Hash\<close> is uninitialised; \<open>md5_streaming\<close> shows that its contents do
  not matter, so a blank one stands for it.
\<close>

definition Hash :: "octets \<Rightarrow> HASH" where
  "Hash value =
     take HASH_SIZE (md5_hash \<lparr>count0 = 0, count1 = 0, buf = (0, 0, 0, 0), inb = replicate 64 NUL,
       datalen = 0, digest = []\<rparr> value)"

definition cipoint :: "octets \<Rightarrow> nat option" where
  "cipoint s =
     (case memchr s 0 (length s) (CHR ''@'') of
        None \<Rightarrow> None
      | Some p \<Rightarrow>
          if p = 1 + length ''postmaster'' \<and>
             map c_tolower (take (length ''postmaster'') (drop 1 s)) = ''postmaster''
          then Some 0 else Some p)"

lemma length_Hash [simp]: "length (Hash v) = HASH_SIZE"
proof -
  have "length (digest (md5_final c)) = 16" for c
    by (simp add: md5_final_def Let_def split: prod.split)
  then show ?thesis by (simp add: Hash_def HASH_SIZE_def md5_hash_def)
qed

text \<open>The string that \<open>HashMessageID\<close> hashes: a lower-cased copy from the first octet to change.\<close>

definition hashed_text :: "octets \<Rightarrow> octets" where
  "hashed_text s =
     (case cipoint s of
        None \<Rightarrow> s
      | Some cip \<Rightarrow>
          (case find (\<lambda>i. \<not> c_islower (s ! i)) [cip + 1..<length s] of
             None \<Rightarrow> s
           | Some p \<Rightarrow> take p s @ map c_tolower (drop p s)))"

definition HashMessageID :: "octets \<Rightarrow> HASH" where
  "HashMessageID MessageID = Hash (hashed_text MessageID)"

definition HashClear :: HASH where
  "HashClear = replicate HASH_SIZE NUL"

definition HashEmpty :: "HASH \<Rightarrow> bool" where
  "HashEmpty h \<longleftrightarrow> h = replicate HASH_SIZE NUL"

definition HashToText :: "HASH \<Rightarrow> octets" where
  "HashToText h = (case inn_encode_hex h (HASH_SIZE * 2 + 1) of None \<Rightarrow> [] | Some s \<Rightarrow> s)"

definition TextToHash :: "octets \<Rightarrow> HASH" where
  "TextToHash text = inn_decode_hex text HASH_SIZE"

text \<open>\<open>memcmp\<close>: the sign of the first difference.\<close>

fun memcmp :: "octets \<Rightarrow> octets \<Rightarrow> int" where
  "memcmp (a # as) (b # bs) = (if a = b then memcmp as bs else if ord a < ord b then - 1 else 1)"
| "memcmp _ _ = 0"

text \<open>\<open>sizeof (unsigned long)\<close> is 8; both operands of the first comparison are the first hash.\<close>

definition HashCompare :: "HASH \<Rightarrow> HASH \<Rightarrow> int" where
  "HashCompare h1 h2 =
     (let tocomp = HASH_SIZE - 8; i = memcmp (take 8 (drop tocomp h1)) (take 8 (drop tocomp h1)) in
      if i \<noteq> 0 then i else memcmp h1 h2)"

section \<open>Radix 32\<close>

definition ALPHABET :: octets where
  "ALPHABET = ''0123456789abcdefghijklmnopqrstuv''"

text \<open>The octets of \<open>temp\<close>, least significant digit first.\<close>

fun radix32_temp :: "nat \<Rightarrow> octets" where
  "radix32_temp l = (if l = 0 then [] else ALPHABET ! (l mod 32) # radix32_temp (l div 32))"

declare radix32_temp.simps [simp del]

definition Radix32 :: "nat \<Rightarrow> octets" where
  "Radix32 l =
     (let l' = l mod 2 ^ 32 in
      if l' = 0 then [ALPHABET ! 0] else rev (radix32_temp l'))"

section \<open>Generating message-IDs\<close>

text \<open>The conversions \<open>%d\<close> and \<open>%s\<close> of \<open>snprintf\<close>, and the cut at the size of the buffer.\<close>

fun dec_nat :: "nat \<Rightarrow> octets" where
  "dec_nat n = (if n < 10 then [chr (48 + n)] else dec_nat (n div 10) @ [chr (48 + n mod 10)])"

declare dec_nat.simps [simp del]

definition dec_int :: "int \<Rightarrow> octets" where
  "dec_int i = (if i < 0 then CHR ''-'' # dec_nat (nat (- i)) else dec_nat (nat i))"

definition OFFSET :: int where "OFFSET = 673416000"
definition SMBUF :: nat where "SMBUF = 256"

text \<open>
  \<open>now\<close>, the process id and \<open>inn_getfqdn\<close> come from the system; \<open>conf_domain\<close> is
  \<open>innconf->domain\<close> and \<open>count\<close> the static counter, returned updated.
\<close>

definition GenerateMessageID ::
  "int \<Rightarrow> nat \<Rightarrow> (octets option \<Rightarrow> octets option) \<Rightarrow> octets option \<Rightarrow> octets option \<Rightarrow> int \<Rightarrow>
   octets option \<times> int" where
  "GenerateMessageID now pid inn_getfqdn conf_domain domain count =
     (let sec32 = Radix32 (nat ((now - OFFSET) mod 2 ^ 64));
          pid32 = Radix32 pid;
          p = (if (domain \<noteq> None \<and> conf_domain = None) \<or>
                  (domain \<noteq> None \<and> conf_domain \<noteq> None \<and> domain \<noteq> conf_domain)
               then domain else inn_getfqdn domain) in
      case p of
        None \<Rightarrow> (None, count)
      | Some d \<Rightarrow>
          (Some (take (SMBUF - 1)
             (''<'' @ sec32 @ ''$'' @ pid32 @ ''$'' @ dec_int (count + 1) @ ''@'' @ d @ ''>'')),
           count + 1))"

section \<open>The text form of a hash\<close>

lemma hex_value_digit: "n < 16 \<Longrightarrow> hex_value (hexdigits ! n) = Some n"
proof -
  have "\<forall>n\<in>set [0..<16]. hex_value (hexdigits ! n) = Some n" by code_simp
  then show "n < 16 \<Longrightarrow> ?thesis" by simp
qed

lemma or_nibbles: "h < 16 \<Longrightarrow> l < 16 \<Longrightarrow> or (h * 16) l = h * 16 + (l :: nat)"
proof -
  have "\<forall>h\<in>set [0..<16]. \<forall>l\<in>set [0..<16]. or (h * 16) l = h * 16 + (l :: nat)" by code_simp
  then show "h < 16 \<Longrightarrow> l < 16 \<Longrightarrow> ?thesis" by simp
qed

lemma encode_hex_loop_all:
  "2 * (i + length bs) < buflen \<Longrightarrow>
   encode_hex_loop bs i buflen = concat (map (\<lambda>b. [hexdigits ! (ord b div 16), hexdigits ! (ord b mod 16)]) bs)"
  by (induction bs arbitrary: i) auto

definition hex_text :: "octets \<Rightarrow> octets" where
  "hex_text bs = concat (map (\<lambda>b. [hexdigits ! (ord b div 16), hexdigits ! (ord b mod 16)]) bs)"

lemma length_hex_text [simp]: "length (hex_text bs) = 2 * length bs"
  by (induction bs) (auto simp: hex_text_def)

lemma decode_hex_loop_all:
  assumes "k + length bs = length buffer" and "\<And>j. k \<le> j \<Longrightarrow> j < length buffer \<Longrightarrow> buffer ! j = NUL"
  shows "decode_hex_loop (hex_text bs @ r) (2 * k) buffer = take k buffer @ bs"
  using assms
proof (induction bs arbitrary: k buffer)
  case Nil
  then show ?case by (cases r) (simp_all add: hex_text_def)
next
  case (Cons b bs)
  let ?b1 = "buffer[k := chr (ord b div 16 * 16)]"
  have k: "k < length buffer" using Cons.prems(1) by simp
  have hi: "ord b div 16 < 16" "ord b div 16 * 16 < 256" using ord_lt_256 [of b] by linarith+
  have or0: "or (ord (buffer ! k)) (ord b div 16 * 16) = ord b div 16 * 16"
    using Cons.prems(2) [of k] k by (simp add: ord_def)
  have join: "or (ord b div 16 * 16) (ord b mod 16) = ord b"
    using or_nibbles [OF hi(1), of "ord b mod 16"] by simp
  have "decode_hex_loop (hex_text (b # bs) @ r) (2 * k) buffer =
    decode_hex_loop (hex_text bs @ r) (2 * Suc k) (?b1[k := b])"
    using k hi join or0 by (simp add: hex_text_def hex_value_digit Let_def del: list_update_overwrite)
  also have "\<dots> = take (Suc k) (buffer[k := b]) @ bs"
    using Cons.IH [of "Suc k" "buffer[k := b]"] Cons.prems by simp
  also have "\<dots> = take k buffer @ b # bs"
    using k by (simp add: take_Suc_conv_app_nth)
  finally show ?case .
qed

lemma HashToText_hex: "length h = HASH_SIZE \<Longrightarrow> HashToText h = hex_text h"
  using encode_hex_loop_all [of 0 h "HASH_SIZE * 2 + 1"] length_hex_text [of h]
  by (simp add: HashToText_def inn_encode_hex_def HASH_SIZE_def hex_text_def)

lemma TextToHash_hex: "length h = HASH_SIZE \<Longrightarrow> TextToHash (hex_text h @ r) = h"
  using decode_hex_loop_all [of 0 h "replicate HASH_SIZE NUL" r]
  by (simp add: TextToHash_def inn_decode_hex_def HASH_SIZE_def)

text \<open>
  The text form of a hash is 32 octets and reads back as the hash.
\<close>

theorem hash_text_roundtrip:
  assumes "length h = HASH_SIZE"
  shows "length (HashToText h) = 32 \<and> TextToHash (HashToText h) = h"
  using TextToHash_hex [OF assms, of "[]"] assms by (simp add: HashToText_hex) (simp add: HASH_SIZE_def)

theorem hash_text_roundtrip_witness:
  "TextToHash (HashToText (map chr [1, 2, 3, 4, 5, 6, 7, 8, 9, 10, 11, 12, 13, 14, 15, 255])) =
   map chr [1, 2, 3, 4, 5, 6, 7, 8, 9, 10, 11, 12, 13, 14, 15, 255]"
  using hash_text_roundtrip [of "map chr [1, 2, 3, 4, 5, 6, 7, 8, 9, 10, 11, 12, 13, 14, 15, 255]"]
  by (simp add: HASH_SIZE_def)

section \<open>Hashing a message-ID\<close>

text \<open>
  The reference: the part of the message-ID after the first \<open>@\<close> is case-insensitive, the part
  before it is not, unless it is \<open>postmaster\<close>.
\<close>

definition mid_equiv :: "octets \<Rightarrow> octets" where
  "mid_equiv s =
     (if CHR ''@'' \<notin> set s then s
      else let l = takeWhile (\<lambda>c. c \<noteq> CHR ''@'') s; d = dropWhile (\<lambda>c. c \<noteq> CHR ''@'') s in
        (if map c_tolower (tl l) = ''postmaster'' then take 1 l @ map c_tolower (tl l) else l) @ map c_tolower d)"

lemma map_tolower_islower: "\<forall>i<length s. c_islower (s ! i) \<Longrightarrow> map c_tolower s = s"
  by (rule nth_equalityI) (auto simp: c_tolower_def c_isupper_def c_islower_def)

lemma hashed_text_at:
  assumes "cipoint s = Some cip"
  shows "hashed_text s = take (Suc cip) s @ map c_tolower (drop (Suc cip) s)"
proof (cases "find (\<lambda>i. \<not> c_islower (s ! i)) [cip + 1..<length s]")
  case None
  then have "map c_tolower (drop (Suc cip) s) = drop (Suc cip) s"
    by (intro map_tolower_islower) (auto simp: find_upt_None)
  then show ?thesis using assms None by (simp add: hashed_text_def)
next
  case (Some p)
  then have p: "Suc cip \<le> p" "p < length s" "\<forall>m. cip + 1 \<le> m \<and> m < p \<longrightarrow> c_islower (s ! m)"
    by (auto simp: find_upt_Some)
  have *: "map c_tolower (take (p - Suc cip) (drop (Suc cip) s)) = take (p - Suc cip) (drop (Suc cip) s)"
    using p by (intro map_tolower_islower) auto
  have "drop (Suc cip) s = take (p - Suc cip) (drop (Suc cip) s) @ drop p s"
    using p(1) append_take_drop_id [of "p - Suc cip" "drop (Suc cip) s"] by simp
  then have "map c_tolower (drop (Suc cip) s) =
      take (p - Suc cip) (drop (Suc cip) s) @ map c_tolower (drop p s)"
    using * by (metis map_append)
  moreover have "take p s = take (Suc cip) s @ take (p - Suc cip) (drop (Suc cip) s)"
    using p(1) take_add [of "Suc cip" "p - Suc cip" s] by simp
  ultimately show ?thesis using assms Some by (simp add: hashed_text_def)
qed

lemma memchr_at:
  "memchr s 0 (length s) c = (if c \<in> set s then Some (length (takeWhile (\<lambda>d. d \<noteq> c) s)) else None)"
proof (cases "c \<in> set s")
  case False
  then show ?thesis by (auto simp: memchr_None)
next
  case True
  let ?n = "length (takeWhile (\<lambda>d. d \<noteq> c) s)"
  have n: "?n < length s"
    using True by (metis (mono_tags, lifting) length_takeWhile_le le_neq_implies_less takeWhile_eq_all_conv takeWhile_eq_take take_all)
  then have "s ! ?n = c" using nth_length_takeWhile [of "\<lambda>d. d \<noteq> c" s] by auto
  moreover have "s ! m \<noteq> c" if "m < ?n" for m
    using that by (metis (mono_tags, lifting) nth_mem set_takeWhileD takeWhile_nth)
  ultimately have "memchr s 0 (length s) c = Some ?n" using n by (auto simp: memchr_Some)
  then show ?thesis using True by simp
qed

text \<open>
  \<open>HashMessageID\<close> hashes the message-ID with exactly its case-insensitive part in lower case:
  what follows the first \<open>@\<close>, and also what precedes it when that is \<open><postmaster\<close>.
\<close>

theorem HashMessageID_case:
  "HashMessageID s = Hash (mid_equiv s)"
proof (cases "CHR ''@'' \<in> set s")
  case False
  then have "cipoint s = None" by (simp add: cipoint_def memchr_at)
  then show ?thesis using False by (simp add: HashMessageID_def hashed_text_def mid_equiv_def)
next
  case True
  from split_list_first [OF True] obtain l d where s': "s = l @ CHR ''@'' # d" and l: "CHR ''@'' \<notin> set l"
    by blast
  let ?post = "map c_tolower (tl l) = ''postmaster''"
  have lw: "takeWhile (\<lambda>c. c \<noteq> CHR ''@'') s = l" "dropWhile (\<lambda>c. c \<noteq> CHR ''@'') s = CHR ''@'' # d"
    using l by (auto simp: s' takeWhile_tail dropWhile_append3)
  have at: "c_tolower (CHR ''@'') = CHR ''@''" by (simp add: c_tolower_def c_isupper_def ord_def)
  have post: "?post \<longleftrightarrow> length l = 11 \<and> map c_tolower (take 10 (drop 1 s)) = ''postmaster''"
  proof -
    have "length l = 11" if "?post"
    proof -
      have "length (tl l) = 10" using arg_cong [OF that, of length] by simp
      then show ?thesis by (cases l) auto
    qed
    moreover have "take 10 (drop 1 s) = tl l" if "length l = 11"
      using that s' by (cases l) auto
    ultimately show ?thesis by metis
  qed
  have cip: "cipoint s = Some (if ?post then 0 else length l)"
    using True post by (simp add: cipoint_def memchr_at lw eval_nat_numeral)
  have "hashed_text s = mid_equiv s"
  proof (cases "?post")
    case p: True
    then obtain a r where a: "l = a # r" using post by (cases l) auto
    have "hashed_text s = take 1 s @ map c_tolower (drop 1 s)"
      using hashed_text_at [OF cip] p by simp
    also have "\<dots> = a # map c_tolower r @ map c_tolower (CHR ''@'' # d)"
      using s' a by simp
    also have "\<dots> = mid_equiv s"
      using True p a by (simp add: mid_equiv_def lw)
    finally show ?thesis .
  next
    case False
    have "hashed_text s = take (Suc (length l)) s @ map c_tolower (drop (Suc (length l)) s)"
      using hashed_text_at [OF cip] False by simp
    also have "\<dots> = l @ CHR ''@'' # map c_tolower d" using s' by simp
    also have "\<dots> = mid_equiv s" using True False at by (simp add: mid_equiv_def lw)
    finally show ?thesis .
  qed
  then show ?thesis by (simp add: HashMessageID_def)
qed

section \<open>Comparing hashes\<close>

lemma memcmp_refl [simp]: "memcmp a a = 0"
  by (induction a) auto

lemma memcmp_eq_0: "length a = length b \<Longrightarrow> memcmp a b = 0 \<longleftrightarrow> a = b"
  by (induction a b rule: list_induct2) auto

lemma memcmp_antisym: "memcmp b a = - memcmp a b"
  by (induction a b rule: memcmp.induct) auto

lemma memcmp_trans: "memcmp a b = - 1 \<Longrightarrow> memcmp b c = - 1 \<Longrightarrow> memcmp a c = - 1"
proof (induction a b arbitrary: c rule: memcmp.induct)
  case (1 a as b bs)
  then show ?case by (cases c) (auto split: if_splits)
qed auto

lemma HashCompare_memcmp: "HashCompare h1 h2 = memcmp h1 h2"
  by (simp add: HashCompare_def)

text \<open>
  \<open>HashCompare\<close> is a total order on hashes (zero only on equal ones, antisymmetric,
  transitive). Its first comparison, meant to decide on the random tail of the hash, compares
  the first hash with itself and never decides: two hashes that differ in the tail and in the
  first octet are ordered by the first octet, not by the tail.
\<close>

theorem HashCompare_order:
  "(length h1 = HASH_SIZE \<longrightarrow> length h2 = HASH_SIZE \<longrightarrow> (HashCompare h1 h2 = 0 \<longleftrightarrow> h1 = h2)) \<and>
   HashCompare h2 h1 = - HashCompare h1 h2 \<and>
   (HashCompare h1 h2 = - 1 \<longrightarrow> HashCompare h2 h3 = - 1 \<longrightarrow> HashCompare h1 h3 = - 1) \<and>
   (let a = chr 1 # replicate 14 NUL @ [chr 1]; b = chr 2 # replicate 15 NUL in
    memcmp (drop 8 a) (drop 8 b) = 1 \<and> HashCompare a b = - 1)"
proof (intro conjI)
  show "length h1 = HASH_SIZE \<longrightarrow> length h2 = HASH_SIZE \<longrightarrow> (HashCompare h1 h2 = 0 \<longleftrightarrow> h1 = h2)"
    by (simp add: HashCompare_memcmp memcmp_eq_0)
  show "HashCompare h2 h1 = - HashCompare h1 h2"
    by (simp add: HashCompare_memcmp memcmp_antisym [of h1 h2])
  show "HashCompare h1 h2 = - 1 \<longrightarrow> HashCompare h2 h3 = - 1 \<longrightarrow> HashCompare h1 h3 = - 1"
    using memcmp_trans by (simp add: HashCompare_memcmp)
  show "let a = chr 1 # replicate 14 NUL @ [chr 1]; b = chr 2 # replicate 15 NUL in
    memcmp (drop 8 a) (drop 8 b) = 1 \<and> HashCompare a b = - 1"
    by code_simp
qed

theorem HashCompare_order_witness:
  "HashCompare (replicate 16 (chr 7)) (replicate 16 (chr 7)) = 0"
  using HashCompare_order [of "replicate 16 (chr 7)" "replicate 16 (chr 7)" HashClear]
  by (simp add: HASH_SIZE_def)

section \<open>Radix 32 and generated message-IDs\<close>

text \<open>The value of a numeral, by \<open>ALPHABET\<close>, most significant digit first.\<close>

definition radix32_digit :: "char \<Rightarrow> nat" where
  "radix32_digit c = (if c_isdigit c then ord c - 48 else ord c - 87)"

definition radix32_value :: "octets \<Rightarrow> nat" where
  "radix32_value s = fold (\<lambda>c v. v * 32 + radix32_digit c) s 0"

lemma ALPHABET_digit:
  assumes "n < 32"
  shows "radix32_digit (ALPHABET ! n) = n" "midatomchar (ALPHABET ! n)"
proof -
  have "\<forall>n\<in>set [0..<32]. radix32_digit (ALPHABET ! n) = n \<and> midatomchar (ALPHABET ! n)" by code_simp
  then show "radix32_digit (ALPHABET ! n) = n" "midatomchar (ALPHABET ! n)" using assms by auto
qed

lemma radix32_temp_value: "radix32_value (rev (radix32_temp n)) = n"
proof (induction n rule: radix32_temp.induct)
  case (1 n)
  then show ?case
    by (subst radix32_temp.simps) (auto simp: radix32_value_def ALPHABET_digit)
qed

lemma radix32_temp_atoms: "list_all midatomchar (radix32_temp n)"
proof (induction n rule: radix32_temp.induct)
  case (1 n)
  then show ?case by (subst radix32_temp.simps) (auto simp: ALPHABET_digit)
qed

lemma radix32_temp_length: "n < 32 ^ k \<Longrightarrow> length (radix32_temp n) \<le> k"
proof (induction k arbitrary: n)
  case 0
  then show ?case by (subst radix32_temp.simps) simp
next
  case (Suc k)
  have "n div 32 < 32 ^ k" using Suc.prems by (simp add: less_mult_imp_div_less mult.commute)
  from Suc.IH [OF this] show ?case by (subst radix32_temp.simps) simp
qed

lemma radix32_temp_Nil: "radix32_temp n = [] \<longleftrightarrow> n = 0"
  by (subst radix32_temp.simps) simp

lemma Radix32_neq_Nil: "Radix32 l \<noteq> []"
  by (simp add: Radix32_def Let_def radix32_temp_Nil)

lemma Radix32_length: "length (Radix32 l) \<le> 7"
proof -
  have "length (radix32_temp (l mod 2 ^ 32)) \<le> 7"
    by (rule radix32_temp_length) (rule order.strict_trans2 [OF mod_less_divisor], simp_all)
  then show ?thesis by (simp add: Radix32_def Let_def)
qed

text \<open>
  \<open>Radix32\<close> writes the 32 low bits of its argument: the numeral reads back as them, it has at
  least one and at most seven digits, so that it and its NUL fit the buffers of 10 octets, and
  no leading zero.
\<close>

theorem Radix32_correct:
  "radix32_value (Radix32 l) = l mod 2 ^ 32 \<and> Radix32 l \<noteq> [] \<and> length (Radix32 l) \<le> 7"
proof (cases "l mod 2 ^ 32 = 0")
  case True
  have "radix32_value [ALPHABET ! 0] = 0" by code_simp
  then show ?thesis using True by (simp add: Radix32_def)
next
  case False
  then show ?thesis
    using Radix32_length [of l] by (simp add: Radix32_def Let_def radix32_temp_value radix32_temp_Nil)
qed

lemma Radix32_atoms: "list_all midatomchar (Radix32 l)" "Radix32 l \<noteq> []"
  using radix32_temp_atoms [of "l mod 2 ^ 32"] ALPHABET_digit(2) [of 0] Radix32_neq_Nil [of l]
  by (auto simp: Radix32_def Let_def list_all_iff)

lemma digit_atom: "n < 10 \<Longrightarrow> midatomchar (chr (48 + n))"
proof -
  have "\<forall>n\<in>set [0..<10]. midatomchar (chr (48 + n))" by code_simp
  then show "n < 10 \<Longrightarrow> ?thesis" by simp
qed

lemma dec_nat_atoms: "list_all midatomchar (dec_nat n)"
proof (induction n rule: dec_nat.induct)
  case (1 n)
  then show ?case by (subst dec_nat.simps) (auto simp: digit_atom simp del: chr_ord)
qed

text \<open>The value of a decimal numeral.\<close>

definition dec_value :: "octets \<Rightarrow> nat" where
  "dec_value ds = fold (\<lambda>c v. v * 10 + (ord c - 48)) ds 0"

lemma dec_nat_digits: "list_all c_isdigit (dec_nat n)"
proof (induction n rule: dec_nat.induct)
  case (1 n)
  have d: "c_isdigit (chr (48 + m))" if "m < 10" for m using that by (simp add: c_isdigit_def)
  have "n mod 10 < 10" by simp
  from 1 d [OF this] show ?case by (subst dec_nat.simps) (auto simp: d simp del: mod_less_divisor)
qed

lemma dec_nat_neq_Nil: "dec_nat n \<noteq> []"
  by (subst dec_nat.simps) simp

lemma dec_value_dec_nat: "dec_value (dec_nat n) = n"
proof (induction n rule: dec_nat.induct)
  case (1 n)
  then show ?case by (subst dec_nat.simps) (auto simp: dec_value_def)
qed

lemma dec_nat_length: "n < 10 ^ k \<Longrightarrow> 0 < k \<Longrightarrow> length (dec_nat n) \<le> k"
proof (induction k arbitrary: n)
  case (Suc k)
  show ?case
  proof (cases "n < 10")
    case False
    have n: "n div 10 < 10 ^ k" using Suc.prems by (simp add: less_mult_imp_div_less mult.commute)
    then have "0 < k" using False by (cases k) auto
    with Suc.IH n show ?thesis using False by (subst dec_nat.simps) simp
  qed (subst dec_nat.simps, simp)
qed simp

lemma dec_int_atoms: "list_all midatomchar (dec_int i)"
proof -
  have "midatomchar (CHR ''-'')" by code_simp
  then show ?thesis using dec_nat_atoms by (simp add: dec_int_def)
qed

lemma dec_int_length:
  assumes "- (2 ^ 31) \<le> i" and "i < 2 ^ 31"
  shows "length (dec_int i) \<le> 11"
proof -
  have "length (dec_nat (nat (- i))) \<le> 10" "length (dec_nat (nat i)) \<le> 10"
    using assms by (auto intro!: dec_nat_length)
  then show ?thesis by (auto simp: dec_int_def)
qed



end
