(* ===== verification/Dictionary.thy ===== *)
theory Dictionary
  imports Prelude
begin

text \<open>
  The interface of a dictionary, as its clients use it: look up, insert unless present, delete.
  An operation gives \<open>None\<close> when its code does not return. The hash table (\<open>lib/hashtab.c\<close>) provides
  it; whatever sequence of calls a client makes, it
  sees what it would see of a finite map.
\<close>

datatype ('k, 'e) dict_op = Lookup 'k | Insert 'k 'e | Delete 'k

datatype 'e dict_res = Found "'e option" | Done bool

text \<open>The reference: the operations on a map.\<close>

fun map_step :: "('k \<rightharpoonup> 'e) \<Rightarrow> ('k, 'e) dict_op \<Rightarrow> 'e dict_res \<times> ('k \<rightharpoonup> 'e)" where
  "map_step m (Lookup k) = (Found (m k), m)"
| "map_step m (Insert k e) = (Done (m k = None), if m k = None then m(k \<mapsto> e) else m)"
| "map_step m (Delete k) = (Done (m k \<noteq> None), m(k := None))"

fun map_run :: "('k \<rightharpoonup> 'e) \<Rightarrow> ('k, 'e) dict_op list \<Rightarrow> 'e dict_res list \<times> ('k \<rightharpoonup> 'e)" where
  "map_run m [] = ([], m)"
| "map_run m (p # ps) =
     (let (r, m1) = map_step m p; (rs, m2) = map_run m1 ps in (r # rs, m2))"

text \<open>A client that makes a list of calls of an implementation.\<close>

fun dict_step ::
  "('s \<Rightarrow> 'k \<Rightarrow> ('e option \<times> 's) option) \<Rightarrow> ('s \<Rightarrow> 'k \<Rightarrow> 'e \<Rightarrow> (bool \<times> 's) option) \<Rightarrow>
   ('s \<Rightarrow> 'k \<Rightarrow> (bool \<times> 's) option) \<Rightarrow> 's \<Rightarrow> ('k, 'e) dict_op \<Rightarrow> ('e dict_res \<times> 's) option" where
  "dict_step look ins del s (Lookup k) = map_option (map_prod Found id) (look s k)"
| "dict_step look ins del s (Insert k e) = map_option (map_prod Done id) (ins s k e)"
| "dict_step look ins del s (Delete k) = map_option (map_prod Done id) (del s k)"

fun dict_run ::
  "('s \<Rightarrow> 'k \<Rightarrow> ('e option \<times> 's) option) \<Rightarrow> ('s \<Rightarrow> 'k \<Rightarrow> 'e \<Rightarrow> (bool \<times> 's) option) \<Rightarrow>
   ('s \<Rightarrow> 'k \<Rightarrow> (bool \<times> 's) option) \<Rightarrow> 's \<Rightarrow> ('k, 'e) dict_op list \<Rightarrow> ('e dict_res list \<times> 's) option" where
  "dict_run look ins del s [] = Some ([], s)"
| "dict_run look ins del s (p # ps) =
     do { (r, s1) \<leftarrow> dict_step look ins del s p;
          (rs, s2) \<leftarrow> dict_run look ins del s1 ps;
          Some (r # rs, s2) }"

fun op_ok :: "('k \<Rightarrow> 'e \<Rightarrow> bool) \<Rightarrow> ('k, 'e) dict_op \<Rightarrow> bool" where
  "op_ok ok (Insert k e) = ok k e"
| "op_ok ok _ = True"

locale dictionary =
  fixes inv :: "'s \<Rightarrow> bool"
    and abs :: "'s \<Rightarrow> 'k \<Rightarrow> 'e option"
    and look :: "'s \<Rightarrow> 'k \<Rightarrow> ('e option \<times> 's) option"
    and ins :: "'s \<Rightarrow> 'k \<Rightarrow> 'e \<Rightarrow> (bool \<times> 's) option"
    and del :: "'s \<Rightarrow> 'k \<Rightarrow> (bool \<times> 's) option"
    and ok :: "'k \<Rightarrow> 'e \<Rightarrow> bool"
  assumes look_law: "inv s \<Longrightarrow> \<exists>s'. look s k = Some (abs s k, s') \<and> inv s' \<and> abs s' = abs s"
    and ins_law: "inv s \<Longrightarrow> ok k e \<Longrightarrow> \<exists>s'. ins s k e = Some (abs s k = None, s') \<and> inv s' \<and>
      abs s' = (if abs s k = None then (abs s)(k \<mapsto> e) else abs s)"
    and del_law: "inv s \<Longrightarrow> \<exists>s'. del s k = Some (abs s k \<noteq> None, s') \<and> inv s' \<and>
      abs s' = (abs s)(k := None)"
begin

lemma step_refines:
  assumes "inv s" and "op_ok ok p"
  shows "\<exists>s'. dict_step look ins del s p = Some (fst (map_step (abs s) p), s') \<and> inv s' \<and>
    abs s' = snd (map_step (abs s) p)"
proof (cases p)
  case (Lookup k)
  from look_law [OF assms(1), of k] show ?thesis using Lookup by auto
next
  case (Insert k e)
  with assms(2) have "ok k e" by simp
  from ins_law [OF assms(1) this] show ?thesis using Insert by auto
next
  case (Delete k)
  from del_law [OF assms(1), of k] show ?thesis using Delete by auto
qed

lemma run_refines:
  assumes "inv s" and "list_all (op_ok ok) ps"
  shows "\<exists>s'. dict_run look ins del s ps = Some (fst (map_run (abs s) ps), s') \<and> inv s' \<and>
    abs s' = snd (map_run (abs s) ps)"
  using assms
proof (induction ps arbitrary: s)
  case Nil
  then show ?case by simp
next
  case (Cons p ps)
  then have "op_ok ok p" by simp
  from step_refines [OF Cons.prems(1) this] obtain s1 where
    s1: "dict_step look ins del s p = Some (fst (map_step (abs s) p), s1)" "inv s1"
      "abs s1 = snd (map_step (abs s) p)" by blast
  have "list_all (op_ok ok) ps" using Cons.prems(2) by simp
  from Cons.IH [OF s1(2) this] s1 show ?case by (auto simp: Let_def split: prod.splits)
qed

text \<open>A fresh key stays absent until it is inserted; a present one is found until it is deleted.\<close>

lemma look_after_ins:
  assumes "inv s" and "ok k e" and "abs s k = None"
  shows "\<exists>s1 s2. ins s k e = Some (True, s1) \<and> look s1 k = Some (Some e, s2)"
proof -
  from ins_law [OF assms(1,2)] assms(3) obtain s1 where
    s1: "ins s k e = Some (True, s1)" "inv s1" "abs s1 = (abs s)(k \<mapsto> e)" by auto
  from look_law [OF s1(2), of k] s1(1,3) show ?thesis by auto
qed

end

end
