(* ===== verification/Hashtab.thy ===== *)
theory Hashtab
  imports Dictionary
begin

text \<open>
  The generic hash table of \<open>lib/hashtab.c\<close>: linear probing over a table whose size is a power
  of two, with tombstones. A slot holds \<open>HASH_EMPTY\<close>, \<open>HASH_DELETED\<close> or an element. The client's
  four functions are fields of the record, as in the C struct; \<open>delete\<close> acts on the state \<open>'w\<close> of
  the client, which the operations that call it thread through. The probing loops are
  \<open>while (1)\<close> loops: they are \<open>partial_function\<close>s, \<open>None\<close> meaning that the loop does not end.
  Sizes and counts are \<open>nat\<close> (the source computes them in \<open>size_t\<close>, and \<open>1 << n\<close> in \<open>int\<close>, so
  this is the code for tables of less than \<open>2 ^ 31\<close> slots); the statistics wrap at 64 bits.
\<close>

section \<open>The table\<close>

datatype 'e slot = HASH_EMPTY | HASH_DELETED | Entry 'e

record ('k, 'e, 'w) hash =
  hsize :: nat
  hmask :: nat
  nelements :: nat
  ndeleted :: nat
  searches :: "64 word"
  collisions :: "64 word"
  expansions :: "64 word"
  hashf :: "'k \<Rightarrow> 64 word"
  keyf :: "'e \<Rightarrow> 'k"
  equalf :: "'k \<Rightarrow> 'e \<Rightarrow> bool"
  deletef :: "'e \<Rightarrow> 'w \<Rightarrow> 'w"
  table :: "'e slot list"

text \<open>The number of shifts of \<open>hash_size\<close> until \<open>size\<close> is 0.\<close>

fun shift_count :: "nat \<Rightarrow> nat" where
  "shift_count sz = (if sz > 0 then shift_count (sz div 2) + 1 else 0)"

declare shift_count.simps [simp del]

definition hash_size :: "nat \<Rightarrow> nat" where
  "hash_size target =
     (if target = 0 then 4
      else let sz = 2 ^ shift_count (target - 1) in if sz < 4 then 4 else sz)"

definition hash_create ::
  "nat \<Rightarrow> ('k \<Rightarrow> 64 word) \<Rightarrow> ('e \<Rightarrow> 'k) \<Rightarrow> ('k \<Rightarrow> 'e \<Rightarrow> bool) \<Rightarrow> ('e \<Rightarrow> 'w \<Rightarrow> 'w) \<Rightarrow> ('k, 'e, 'w) hash" where
  "hash_create sz hash_f key_f equal_f delete_f =
     \<lparr>hsize = hash_size sz, hmask = hash_size sz - 1, nelements = 0, ndeleted = 0, searches = 0,
      collisions = 0, expansions = 0, hashf = hash_f, keyf = key_f, equalf = equal_f,
      deletef = delete_f, table = replicate (hash_size sz) HASH_EMPTY\<rparr>"

fun entries :: "'e slot list \<Rightarrow> 'e list" where
  "entries [] = []"
| "entries (Entry e # t) = e # entries t"
| "entries (_ # t) = entries t"

definition hash_free :: "('k, 'e, 'w) hash \<Rightarrow> 'w \<Rightarrow> 'w" where
  "hash_free h w = fold (deletef h) (entries (table h)) w"

definition hash_traverse :: "('k, 'e, 'w) hash \<Rightarrow> ('e \<Rightarrow> 'd \<Rightarrow> 'd) \<Rightarrow> 'd \<Rightarrow> 'd" where
  "hash_traverse h callback data = fold callback (entries (table h)) data"

definition hash_count :: "('k, 'e, 'w) hash \<Rightarrow> nat" where
  "hash_count h = nelements h - ndeleted h"

definition next_slot :: "('k, 'e, 'w) hash \<Rightarrow> nat \<Rightarrow> nat" where
  "next_slot h slot = (if hsize h \<le> slot + 1 then slot + 1 - hsize h else slot + 1)"

definition home :: "('k, 'e, 'w) hash \<Rightarrow> 'k \<Rightarrow> nat" where
  "home h key = and (unat (hashf h key)) (hmask h)"

partial_function (option) find_empty_loop :: "('k, 'e, 'w) hash \<Rightarrow> nat \<Rightarrow> nat option" where
  "find_empty_loop h slot =
     (case table h ! slot of
        HASH_EMPTY \<Rightarrow> Some slot
      | _ \<Rightarrow> find_empty_loop h (next_slot h slot))"

definition hash_find_empty :: "('k, 'e, 'w) hash \<Rightarrow> 'k \<Rightarrow> nat option" where
  "hash_find_empty h key = find_empty_loop h (home h key)"

text \<open>The loop of \<open>hash_expand\<close> over the rest of the old table.\<close>

fun expand_loop :: "'e slot list \<Rightarrow> ('k, 'e, 'w) hash \<Rightarrow> ('k, 'e, 'w) hash option" where
  "expand_loop [] h = Some h"
| "expand_loop (Entry e # old) h =
     do { slot \<leftarrow> hash_find_empty h (keyf h e);
          expand_loop old (h\<lparr>table := (table h)[slot := Entry e], nelements := nelements h + 1\<rparr>) }"
| "expand_loop (_ # old) h = expand_loop old h"

definition hash_expand :: "('k, 'e, 'w) hash \<Rightarrow> ('k, 'e, 'w) hash option" where
  "hash_expand h =
     (let old = table h; sz = hash_size ((nelements h - ndeleted h) * 2) in
      do { h1 \<leftarrow> expand_loop old (h\<lparr>hsize := sz, hmask := sz - 1,
             table := replicate sz HASH_EMPTY, nelements := 0, ndeleted := 0\<rparr>);
           Some (h1\<lparr>expansions := expansions h1 + 1\<rparr>) })"

definition collide :: "('k, 'e, 'w) hash \<Rightarrow> ('k, 'e, 'w) hash" where
  "collide h = h\<lparr>collisions := collisions h + 1\<rparr>"

partial_function (option) find_slot_loop ::
  "('k, 'e, 'w) hash \<Rightarrow> 'k \<Rightarrow> bool \<Rightarrow> nat option \<Rightarrow> nat \<Rightarrow> (nat option \<times> ('k, 'e, 'w) hash) option" where
  "find_slot_loop h key ins deleted_slot slot =
     (case table h ! slot of
        HASH_EMPTY \<Rightarrow>
          if \<not> ins then Some (None, h)
          else (case deleted_slot of
                  Some d \<Rightarrow> Some (Some d, h\<lparr>table := (table h)[d := HASH_EMPTY], ndeleted := ndeleted h - 1\<rparr>)
                | None \<Rightarrow> Some (Some slot, h\<lparr>nelements := nelements h + 1\<rparr>))
      | HASH_DELETED \<Rightarrow>
          find_slot_loop (collide h) key ins (if ins then Some slot else deleted_slot) (next_slot h slot)
      | Entry e \<Rightarrow>
          if equalf h key e then Some (Some slot, h)
          else find_slot_loop (collide h) key ins deleted_slot (next_slot h slot))"

definition hash_find_slot ::
  "('k, 'e, 'w) hash \<Rightarrow> 'k \<Rightarrow> bool \<Rightarrow> (nat option \<times> ('k, 'e, 'w) hash) option" where
  "hash_find_slot h key ins =
     do { h1 \<leftarrow> (if ins \<and> hsize h * 3 \<le> nelements h * 4 then hash_expand h else Some h);
          let h2 = h1\<lparr>searches := searches h1 + 1\<rparr>;
          find_slot_loop h2 key ins None (home h2 key) }"

text \<open>The \<open>void *\<close> that \<open>hash_lookup\<close> returns is the content of a slot; \<open>NULL\<close> is \<open>HASH_EMPTY\<close>.\<close>

definition hash_lookup :: "('k, 'e, 'w) hash \<Rightarrow> 'k \<Rightarrow> ('e slot \<times> ('k, 'e, 'w) hash) option" where
  "hash_lookup h key =
     do { (slot, h1) \<leftarrow> hash_find_slot h key False;
          Some (case slot of None \<Rightarrow> HASH_EMPTY | Some i \<Rightarrow> table h1 ! i, h1) }"

definition hash_insert :: "('k, 'e, 'w) hash \<Rightarrow> 'k \<Rightarrow> 'e \<Rightarrow> (bool \<times> ('k, 'e, 'w) hash) option" where
  "hash_insert h key datum =
     do { (slot, h1) \<leftarrow> hash_find_slot h key True;
          case slot of
            None \<Rightarrow> None
          | Some i \<Rightarrow>
              if table h1 ! i \<noteq> HASH_EMPTY then Some (False, h1)
              else Some (True, h1\<lparr>table := (table h1)[i := Entry datum]\<rparr>) }"

definition hash_replace ::
  "('k, 'e, 'w) hash \<Rightarrow> 'k \<Rightarrow> 'e slot \<Rightarrow> 'w \<Rightarrow> (bool \<times> ('k, 'e, 'w) hash \<times> 'w) option" where
  "hash_replace h key datum w =
     do { (slot, h1) \<leftarrow> hash_find_slot h key False;
          case slot of
            None \<Rightarrow> Some (False, h1, w)
          | Some i \<Rightarrow>
              (case table h1 ! i of
                 Entry e \<Rightarrow> Some (True, h1\<lparr>table := (table h1)[i := datum]\<rparr>, deletef h1 e w)
               | _ \<Rightarrow> None) }"

definition hash_delete :: "('k, 'e, 'w) hash \<Rightarrow> 'k \<Rightarrow> 'w \<Rightarrow> (bool \<times> ('k, 'e, 'w) hash \<times> 'w) option" where
  "hash_delete h key w =
     do { (result, h1, w1) \<leftarrow> hash_replace h key HASH_DELETED w;
          Some (result, if result then h1\<lparr>ndeleted := ndeleted h1 + 1\<rparr> else h1, w1) }"

section \<open>Bob Jenkins's hash function\<close>

unbundle bit_operations_syntax

definition MIX :: "32 word \<times> 32 word \<times> 32 word \<Rightarrow> 32 word \<times> 32 word \<times> 32 word" where
  "MIX = (\<lambda>(a, b, c).
     let a = a - b - c; a = a XOR drop_bit 13 c;
         b = b - c - a; b = b XOR push_bit 8 a;
         c = c - a - b; c = c XOR drop_bit 13 b;
         a = a - b - c; a = a XOR drop_bit 12 c;
         b = b - c - a; b = b XOR push_bit 16 a;
         c = c - a - b; c = c XOR drop_bit 5 b;
         a = a - b - c; a = a XOR drop_bit 3 c;
         b = b - c - a; b = b XOR push_bit 10 a;
         c = c - a - b; c = c XOR drop_bit 15 b
     in (a, b, c))"

text \<open>
  \<open>key\<close> is a \<open>const char *\<close>: where \<open>char\<close> is signed, an octet from 128 on converts to \<open>uint32_t\<close>
  with its sign. \<open>Sn\<close> is the octet shifted left by \<open>n\<close> octets; an octet past the rest of the key
  adds nothing.
\<close>

definition schar :: "char \<Rightarrow> 32 word" where
  "schar c = (if ord c < 128 then of_nat (ord c) else of_int (int (ord c) - 256))"

definition Sn :: "octets \<Rightarrow> nat \<Rightarrow> nat \<Rightarrow> 32 word" where
  "Sn key i n = (if i < length key then push_bit (8 * n) (schar (key ! i)) else 0)"

function lookup2_loop ::
  "octets \<Rightarrow> 32 word \<Rightarrow> 32 word \<Rightarrow> 32 word \<Rightarrow> octets \<times> 32 word \<times> 32 word \<times> 32 word" where
  "lookup2_loop key a b c =
     (if 12 \<le> length key then
        let (a, b, c) = MIX
          (a + (Sn key 0 0 + Sn key 1 1 + Sn key 2 2 + Sn key 3 3),
           b + (Sn key 4 0 + Sn key 5 1 + Sn key 6 2 + Sn key 7 3),
           c + (Sn key 8 0 + Sn key 9 1 + Sn key 10 2 + Sn key 11 3))
        in lookup2_loop (drop 12 key) a b c
      else (key, a, b, c))"
  by pat_completeness auto
termination
  by (relation "measure (\<lambda>(key, a, b, c). length key)") auto

declare lookup2_loop.simps [simp del]

definition hash_lookup2 :: "octets \<Rightarrow> 64 word \<Rightarrow> 64 word" where
  "hash_lookup2 key partial =
     (let (key', a, b, c) = lookup2_loop key 0x9e3779b9 0x9e3779b9 (ucast partial);
          c = c + of_nat (length key);
          c = c + Sn key' 10 3 + Sn key' 9 2 + Sn key' 8 1;
          b = b + Sn key' 7 3 + Sn key' 6 2 + Sn key' 5 1 + Sn key' 4 0;
          a = a + Sn key' 3 3 + Sn key' 2 2 + Sn key' 1 1 + Sn key' 0 0;
          (a, b, c) = MIX (a, b, c)
      in ucast c)"

definition hash_string :: "octets \<Rightarrow> 64 word" where
  "hash_string key = hash_lookup2 key 0"

section \<open>The probe sequence\<close>

definition probe :: "('k, 'e, 'w) hash \<Rightarrow> 'k \<Rightarrow> nat \<Rightarrow> nat" where
  "probe h k n = (home h k + n) mod hsize h"

definition shape :: "('k, 'e, 'w) hash \<Rightarrow> bool" where
  "shape h \<longleftrightarrow> (\<exists>n. hsize h = 2 ^ n) \<and> 4 \<le> hsize h \<and> hmask h = hsize h - 1 \<and> length (table h) = hsize h"

lemma home_mod: "shape h \<Longrightarrow> home h k = unat (hashf h k) mod hsize h"
  unfolding shape_def home_def
  by (auto simp: take_bit_eq_mod [symmetric] take_bit_eq_mask mask_eq_exp_minus_1)

lemma home_lt: "shape h \<Longrightarrow> home h k < hsize h"
  by (simp add: home_mod) (auto simp: shape_def)

lemma probe_lt: "shape h \<Longrightarrow> probe h k n < hsize h"
  by (auto simp: shape_def probe_def)

lemma probe_0: "shape h \<Longrightarrow> probe h k 0 = home h k"
  by (simp add: probe_def home_lt)

lemma next_probe: "shape h \<Longrightarrow> next_slot h (probe h k n) = probe h k (Suc n)"
  using probe_lt [of h k n] by (auto simp: next_slot_def probe_def mod_Suc)

lemma probe_onto:
  assumes "shape h" and "i < hsize h"
  shows "\<exists>n<hsize h. probe h k n = i"
proof (cases "home h k \<le> i")
  case True
  then show ?thesis using assms by (intro exI [of _ "i - home h k"]) (auto simp: probe_def)
next
  case False
  let ?n = "hsize h + i - home h k"
  have "home h k + ?n = i + hsize h" using home_lt [OF assms(1), of k] by simp
  then have "probe h k ?n = i" using assms(2) by (simp add: probe_def)
  moreover have "?n < hsize h" using False assms(2) by linarith
  ultimately show ?thesis by blast
qed

section \<open>The invariant\<close>

text \<open>
  The element at \<open>i\<close> can be reached: its probe sequence meets \<open>i\<close> before an empty slot.
  \<open>layout\<close> is what the table alone must satisfy, \<open>hash_inv\<close> adds the counters.
\<close>

definition free_path :: "('k, 'e, 'w) hash \<Rightarrow> 'k \<Rightarrow> nat \<Rightarrow> bool" where
  "free_path h k i \<longleftrightarrow>
     (\<exists>n<hsize h. probe h k n = i \<and> (\<forall>m<n. table h ! probe h k m \<noteq> HASH_EMPTY))"

definition layout :: "('k, 'e, 'w) hash \<Rightarrow> bool" where
  "layout h \<longleftrightarrow> shape h \<and> (\<forall>k e. equalf h k e \<longleftrightarrow> keyf h e = k) \<and>
     (\<forall>i<hsize h. \<forall>e. table h ! i = Entry e \<longrightarrow> free_path h (keyf h e) i) \<and>
     (\<forall>i<hsize h. \<forall>j<hsize h. \<forall>e f. table h ! i = Entry e \<longrightarrow> table h ! j = Entry f \<longrightarrow>
        keyf h e = keyf h f \<longrightarrow> i = j)"

definition used :: "'e slot list \<Rightarrow> nat" where
  "used t = length (filter (\<lambda>x. x \<noteq> HASH_EMPTY) t)"

definition dead :: "'e slot list \<Rightarrow> nat" where
  "dead t = length (filter (\<lambda>x. x = HASH_DELETED) t)"

definition hash_inv :: "('k, 'e, 'w) hash \<Rightarrow> bool" where
  "hash_inv h \<longleftrightarrow> layout h \<and> nelements h = used (table h) \<and> ndeleted h = dead (table h) \<and>
     nelements h < hsize h"

text \<open>The map that the table stands for.\<close>

definition hash_abs :: "('k, 'e, 'w) hash \<Rightarrow> 'k \<Rightarrow> 'e option" where
  "hash_abs h k = find (\<lambda>e. keyf h e = k) (entries (table h))"

lemma set_entries: "set (entries t) = {e. Entry e \<in> set t}"
  by (induction t rule: entries.induct) auto

lemma filter_update:
  "i < length xs \<Longrightarrow> length (filter P (xs[i := y])) + (if P (xs ! i) then 1 else 0) =
     length (filter P xs) + (if P y then 1 else 0)"
proof (induction xs arbitrary: i)
  case (Cons x xs)
  then show ?case by (cases i) (auto split: if_splits)
qed simp

lemma used_update:
  "i < length t \<Longrightarrow> used (t[i := y]) + (if t ! i = HASH_EMPTY then 0 else 1) =
     used t + (if y = HASH_EMPTY then 0 else 1)"
  using filter_update [of i t "\<lambda>x. x \<noteq> HASH_EMPTY" y] by (auto simp: used_def)

lemma dead_update:
  "i < length t \<Longrightarrow> dead (t[i := y]) + (if t ! i = HASH_DELETED then 1 else 0) =
     dead t + (if y = HASH_DELETED then 1 else 0)"
  using filter_update [of i t "\<lambda>x. x = HASH_DELETED" y] by (auto simp: dead_def)

lemma used_dead: "used t = dead t + length (entries t)"
  by (induction t rule: entries.induct) (auto simp: used_def dead_def)

lemma hash_abs_Some:
  assumes "layout h"
  shows "hash_abs h k = Some e \<longleftrightarrow> keyf h e = k \<and> (\<exists>i<hsize h. table h ! i = Entry e)"
proof -
  have len: "length (table h) = hsize h" using assms by (simp add: layout_def shape_def)
  have uniq: "e = f" if "Entry e \<in> set (table h)" "Entry f \<in> set (table h)" "keyf h e = keyf h f" for e f
    using assms that len unfolding layout_def in_set_conv_nth by (metis slot.inject)
  show ?thesis
  proof
    assume "hash_abs h k = Some e"
    then have "keyf h e = k" "e \<in> set (entries (table h))"
      by (auto simp: hash_abs_def find_Some_iff)
    then show "keyf h e = k \<and> (\<exists>i<hsize h. table h ! i = Entry e)"
      using len by (auto simp: set_entries in_set_conv_nth)
  next
    assume "keyf h e = k \<and> (\<exists>i<hsize h. table h ! i = Entry e)"
    then have k: "keyf h e = k" and e: "Entry e \<in> set (table h)" using len by (auto simp: in_set_conv_nth)
    then have "hash_abs h k \<noteq> None" by (auto simp: hash_abs_def find_None_iff set_entries)
    then obtain f where f: "hash_abs h k = Some f" by blast
    then have "keyf h f = k" "Entry f \<in> set (table h)"
      by (auto simp: hash_abs_def find_Some_iff set_entries dest: nth_mem)
    then show "hash_abs h k = Some e" using uniq [of e f] e k f by auto
  qed
qed

lemma hash_abs_None:
  "layout h \<Longrightarrow> hash_abs h k = None \<longleftrightarrow> (\<forall>i<hsize h. \<forall>e. table h ! i = Entry e \<longrightarrow> keyf h e \<noteq> k)"
  using hash_abs_Some [of h k] by (metis not_None_eq)

lemma hash_abs_eqI:
  assumes "layout h" and "\<And>e. m k = Some e \<longleftrightarrow> keyf h e = k \<and> (\<exists>i<hsize h. table h ! i = Entry e)"
  shows "hash_abs h k = m k"
  using hash_abs_Some [OF assms(1), of k] assms(2) by (metis not_None_eq)

text \<open>The parts of the record that the layout does not read.\<close>

definition stats :: "64 word \<Rightarrow> 64 word \<Rightarrow> 64 word \<Rightarrow> nat \<Rightarrow> nat \<Rightarrow> ('k, 'e, 'w) hash \<Rightarrow> ('k, 'e, 'w) hash" where
  "stats s c x n d h = h\<lparr>searches := s, collisions := c, expansions := x, nelements := n, ndeleted := d\<rparr>"

lemma stats_sel [simp]:
  "table (stats s c x n d h) = table h" "hsize (stats s c x n d h) = hsize h"
  "keyf (stats s c x n d h) = keyf h" "equalf (stats s c x n d h) = equalf h"
  "deletef (stats s c x n d h) = deletef h" "hashf (stats s c x n d h) = hashf h"
  "nelements (stats s c x n d h) = n" "ndeleted (stats s c x n d h) = d"
  "home (stats s c x n d h) k = home h k" "probe (stats s c x n d h) k m = probe h k m"
  "next_slot (stats s c x n d h) i = next_slot h i" "shape (stats s c x n d h) = shape h"
  "layout (stats s c x n d h) = layout h" "hash_abs (stats s c x n d h) = hash_abs h"
  by (auto simp: stats_def home_def probe_def next_slot_def shape_def layout_def free_path_def hash_abs_def)

section \<open>Changing one slot\<close>

lemma table_update_sel [simp]:
  "home (h\<lparr>table := t\<rparr>) k = home h k" "probe (h\<lparr>table := t\<rparr>) k m = probe h k m"
  "next_slot (h\<lparr>table := t\<rparr>) i = next_slot h i"
  by (simp_all add: home_def probe_def next_slot_def)

lemma free_path_update:
  assumes "free_path h k j" and "y \<noteq> HASH_EMPTY"
  shows "free_path (h\<lparr>table := (table h)[i := y]\<rparr>) k j"
proof -
  from assms(1) obtain n where n: "n < hsize h" "probe h k n = j" "\<forall>m<n. table h ! probe h k m \<noteq> HASH_EMPTY"
    unfolding free_path_def by blast
  have "(table h)[i := y] ! probe h k m \<noteq> HASH_EMPTY" if "m < n" for m
    using n(3) that assms(2) by (cases "i < length (table h)") (auto simp: nth_list_update not_less list_update_beyond)
  then show ?thesis using n(1,2) unfolding free_path_def by auto
qed

lemma layout_update:
  assumes "layout h" and "i < hsize h" and "y \<noteq> HASH_EMPTY"
    and "\<And>f. y = Entry f \<Longrightarrow> free_path h (keyf h f) i \<and>
      (\<forall>j<hsize h. \<forall>g. j \<noteq> i \<longrightarrow> table h ! j = Entry g \<longrightarrow> keyf h g \<noteq> keyf h f)"
  shows "layout (h\<lparr>table := (table h)[i := y]\<rparr>)"
proof -
  let ?h = "h\<lparr>table := (table h)[i := y]\<rparr>"
  have len: "length (table h) = hsize h" using assms(1) by (simp add: layout_def shape_def)
  have "shape ?h" using assms(1) by (simp add: layout_def shape_def)
  moreover have "equalf ?h k e \<longleftrightarrow> keyf ?h e = k" for k e using assms(1) by (simp add: layout_def)
  moreover have "free_path ?h (keyf ?h e) j" if "j < hsize ?h" "table ?h ! j = Entry e" for j e
  proof -
    have "free_path h (keyf h e) j"
      using that assms(1,2,4) len unfolding layout_def by (cases "j = i") auto
    from free_path_update [OF this assms(3), of i] show ?thesis by simp
  qed
  moreover have "a = b" if "a < hsize ?h" "b < hsize ?h" "table ?h ! a = Entry e"
      "table ?h ! b = Entry f" "keyf ?h e = keyf ?h f" for a b e f
  proof -
    have old: "a = b" if "a \<noteq> i" "b \<noteq> i"
      using that assms(1) \<open>a < hsize ?h\<close> \<open>b < hsize ?h\<close> \<open>table ?h ! a = Entry e\<close>
        \<open>table ?h ! b = Entry f\<close> \<open>keyf ?h e = keyf ?h f\<close> unfolding layout_def by simp
    have one: "a = i" if "b = i"
      using that assms(4) [of f] \<open>a < hsize ?h\<close> \<open>table ?h ! a = Entry e\<close> \<open>table ?h ! b = Entry f\<close>
        \<open>keyf ?h e = keyf ?h f\<close> len assms(2) by (cases "a = i") auto
    have two: "b = i" if "a = i"
      using that assms(4) [of e] \<open>b < hsize ?h\<close> \<open>table ?h ! a = Entry e\<close> \<open>table ?h ! b = Entry f\<close>
        \<open>keyf ?h e = keyf ?h f\<close> len assms(2) by (cases "b = i") auto
    from old one two show ?thesis by blast
  qed
  ultimately show ?thesis unfolding layout_def by blast
qed

lemma ex_update:
  "i < hsize h \<Longrightarrow> length (table h) = hsize h \<Longrightarrow>
   (\<exists>j<hsize h. (table h)[i := y] ! j = x) \<longleftrightarrow> y = x \<or> (\<exists>j<hsize h. j \<noteq> i \<and> table h ! j = x)"
  by (auto simp: nth_list_update split: if_splits)

text \<open>A new element in a slot that is not taken, a tombstone for an element, a new value for a key.\<close>

lemma place:
  assumes "layout h" and "i < hsize h" and "\<forall>e. table h ! i \<noteq> Entry e" and "free_path h (keyf h f) i"
    and "hash_abs h (keyf h f) = None"
  shows "layout (h\<lparr>table := (table h)[i := Entry f]\<rparr>)"
    "hash_abs (h\<lparr>table := (table h)[i := Entry f]\<rparr>) = (hash_abs h)(keyf h f \<mapsto> f)"
proof -
  have len: "length (table h) = hsize h" using assms(1) by (simp add: layout_def shape_def)
  have absent: "\<forall>j<hsize h. \<forall>g. table h ! j = Entry g \<longrightarrow> keyf h g \<noteq> keyf h f"
    using hash_abs_None [OF assms(1)] assms(5) by simp
  show l: "layout (h\<lparr>table := (table h)[i := Entry f]\<rparr>)"
    using layout_update [OF assms(1,2), of "Entry f"] assms(4) absent by auto
  show "hash_abs (h\<lparr>table := (table h)[i := Entry f]\<rparr>) = (hash_abs h)(keyf h f \<mapsto> f)"
  proof (rule ext, rule hash_abs_eqI [OF l], goal_cases)
    case (1 k e)
    show ?case
      using hash_abs_Some [OF assms(1), of k e] absent assms(2,3)
      by (auto simp: ex_update [OF assms(2) len])
  qed
qed

lemma bury:
  assumes "layout h" and "i < hsize h" and "table h ! i = Entry e"
  shows "layout (h\<lparr>table := (table h)[i := HASH_DELETED]\<rparr>)"
    "hash_abs (h\<lparr>table := (table h)[i := HASH_DELETED]\<rparr>) = (hash_abs h)(keyf h e := None)"
proof -
  have len: "length (table h) = hsize h" using assms(1) by (simp add: layout_def shape_def)
  have uniq: "\<And>j g. j < hsize h \<Longrightarrow> table h ! j = Entry g \<Longrightarrow> keyf h g = keyf h e \<Longrightarrow> j = i"
    using assms unfolding layout_def by blast
  show l: "layout (h\<lparr>table := (table h)[i := HASH_DELETED]\<rparr>)"
    using layout_update [OF assms(1,2), of HASH_DELETED] by auto
  show "hash_abs (h\<lparr>table := (table h)[i := HASH_DELETED]\<rparr>) = (hash_abs h)(keyf h e := None)"
  proof (rule ext, rule hash_abs_eqI [OF l], goal_cases)
    case (1 k f)
    show ?case
      using hash_abs_Some [OF assms(1), of k f] uniq [of _ f] assms(2,3)
      by (auto simp: ex_update [OF assms(2) len])
  qed
qed

lemma renew:
  assumes "layout h" and "i < hsize h" and "table h ! i = Entry e" and "keyf h f = keyf h e"
  shows "layout (h\<lparr>table := (table h)[i := Entry f]\<rparr>)"
    "hash_abs (h\<lparr>table := (table h)[i := Entry f]\<rparr>) = (hash_abs h)(keyf h e \<mapsto> f)"
proof -
  have len: "length (table h) = hsize h" using assms(1) by (simp add: layout_def shape_def)
  have uniq: "\<And>j g. j < hsize h \<Longrightarrow> table h ! j = Entry g \<Longrightarrow> keyf h g = keyf h e \<Longrightarrow> j = i"
    using assms unfolding layout_def by blast
  have "free_path h (keyf h e) i" using assms(1-3) unfolding layout_def by blast
  then show l: "layout (h\<lparr>table := (table h)[i := Entry f]\<rparr>)"
    using layout_update [OF assms(1,2), of "Entry f"] uniq assms(4) by auto
  show "hash_abs (h\<lparr>table := (table h)[i := Entry f]\<rparr>) = (hash_abs h)(keyf h e \<mapsto> f)"
  proof (rule ext, rule hash_abs_eqI [OF l], goal_cases)
    case (1 k g)
    show ?case
      using hash_abs_Some [OF assms(1), of k g] uniq [of _ g] assms(2,3,4)
      by (auto simp: ex_update [OF assms(2) len])
  qed
qed

section \<open>The probing loop\<close>

text \<open>The slot where the search for a key stops: an empty one, or the one with the key.\<close>

definition stops :: "('k, 'e, 'w) hash \<Rightarrow> 'k \<Rightarrow> nat \<Rightarrow> bool" where
  "stops h k m \<longleftrightarrow> table h ! probe h k m = HASH_EMPTY \<or> (\<exists>e. table h ! probe h k m = Entry e \<and> equalf h k e)"

definition hits :: "nat \<Rightarrow> ('k, 'e, 'w) hash \<Rightarrow> ('k, 'e, 'w) hash" where
  "hits n h = h\<lparr>collisions := collisions h + of_nat n\<rparr>"

lemma hits_sel [simp]:
  "table (hits n h) = table h" "hsize (hits n h) = hsize h" "equalf (hits n h) = equalf h"
  "home (hits n h) k = home h k" "probe (hits n h) k m = probe h k m" "shape (hits n h) = shape h"
  "next_slot (hits n h) i = next_slot h i" "hits 0 h = h" "collide (hits n h) = hits (Suc n) h"
  by (auto simp: hits_def home_def probe_def next_slot_def shape_def collide_def algebra_simps)

lemma find_slot_loop_walk:
  assumes "shape h" and "\<forall>m. n \<le> m \<and> m < n + j \<longrightarrow> \<not> stops h k m"
  shows "\<exists>d'. (d' = d \<or> ins \<and> (\<exists>m. n \<le> m \<and> m < n + j \<and> d' = Some (probe h k m) \<and>
      table h ! probe h k m = HASH_DELETED)) \<and>
    find_slot_loop h k ins d (probe h k n) = find_slot_loop (hits j h) k ins d' (probe h k (n + j))"
  using assms
proof (induction j arbitrary: h n d)
  case 0
  then show ?case by auto
next
  case (Suc j)
  let ?d = "if ins \<and> table h ! probe h k n = HASH_DELETED then Some (probe h k n) else d"
  have "\<not> stops h k n" using Suc.prems(2) by auto
  then have step: "find_slot_loop h k ins d (probe h k n) =
      find_slot_loop (hits 1 h) k ins ?d (probe h k (Suc n))"
    using Suc.prems(1)
    by (subst find_slot_loop.simps) (auto simp: stops_def next_probe hits_def collide_def split: slot.split)
  have pre: "\<forall>m. Suc n \<le> m \<and> m < Suc n + j \<longrightarrow> \<not> stops (hits 1 h) k m"
    using Suc.prems(2) by (simp add: stops_def) (meson Suc_leD)
  have h: "hits j (hits (Suc 0) h) = hits (Suc j) h" by (simp add: hits_def algebra_simps)
  have "\<exists>d'. (d' = ?d \<or> ins \<and> (\<exists>m. Suc n \<le> m \<and> m < Suc n + j \<and> d' = Some (probe h k m) \<and>
        table h ! probe h k m = HASH_DELETED)) \<and>
      find_slot_loop (hits 1 h) k ins ?d (probe h k (Suc n)) =
       find_slot_loop (hits (Suc j) h) k ins d' (probe h k (n + Suc j))"
    using Suc.IH [of "hits 1 h" "Suc n" ?d] Suc.prems(1) pre by (simp add: h)
  then obtain d' where
    d': "d' = ?d \<or> ins \<and> (\<exists>m. Suc n \<le> m \<and> m < Suc n + j \<and> d' = Some (probe h k m) \<and>
        table h ! probe h k m = HASH_DELETED)"
      "find_slot_loop (hits 1 h) k ins ?d (probe h k (Suc n)) =
       find_slot_loop (hits (Suc j) h) k ins d' (probe h k (n + Suc j))"
    by (elim exE conjE) (rule that)
  show ?case
  proof (rule exI [of _ d'], rule conjI)
    show "find_slot_loop h k ins d (probe h k n) =
       find_slot_loop (hits (Suc j) h) k ins d' (probe h k (n + Suc j))"
      using step d'(2) by simp
    show "d' = d \<or> ins \<and> (\<exists>m. n \<le> m \<and> m < n + Suc j \<and> d' = Some (probe h k m) \<and>
        table h ! probe h k m = HASH_DELETED)"
      using d'(1) by (auto split: if_splits intro: Suc_leD)
  qed
qed

text \<open>The search stops, because some slot is empty.\<close>

lemma stops_somewhere:
  assumes "layout h" and "used (table h) < hsize h"
  shows "\<exists>m<hsize h. stops h k m \<and> (\<forall>l<m. \<not> stops h k l)"
proof -
  have sh: "shape h" and len: "length (table h) = hsize h" using assms(1) by (auto simp: layout_def shape_def)
  have "\<exists>x\<in>set (table h). x = HASH_EMPTY"
  proof (rule ccontr)
    assume "\<not> (\<exists>x\<in>set (table h). x = HASH_EMPTY)"
    then have "filter (\<lambda>x. x \<noteq> HASH_EMPTY) (table h) = table h" by (auto simp: filter_id_conv)
    then show False using assms(2) len by (simp add: used_def)
  qed
  then obtain i where "i < hsize h" "table h ! i = HASH_EMPTY" using len by (auto simp: in_set_conv_nth)
  moreover from probe_onto [OF sh this(1)] obtain n where "n < hsize h" "probe h k n = i" by blast
  ultimately have n: "n < hsize h" "stops h k n" by (auto simp: stops_def)
  define m where "m = (LEAST m. stops h k m)"
  have "stops h k m" "m \<le> n" using n(2) unfolding m_def by (auto intro: LeastI Least_le)
  moreover have "\<not> stops h k l" if "l < m" for l using that unfolding m_def by (rule not_less_Least)
  ultimately show ?thesis using n(1) by (intro exI [of _ m]) auto
qed

lemma stops_hit:
  assumes "layout h" and "m < hsize h" and "\<forall>l<m. \<not> stops h k l" and "stops h k m"
  shows "(\<exists>e. hash_abs h k = Some e \<and> table h ! probe h k m = Entry e) \<or>
    (hash_abs h k = None \<and> table h ! probe h k m = HASH_EMPTY)"
proof (cases "table h ! probe h k m = HASH_EMPTY")
  case False
  then obtain e where e: "table h ! probe h k m = Entry e" "equalf h k e"
    using assms(4) by (auto simp: stops_def)
  then have "hash_abs h k = Some e"
    using hash_abs_Some [OF assms(1), of k e] assms(1) probe_lt [of h k m] by (auto simp: layout_def)
  then show ?thesis using e by blast
next
  case True
  have "hash_abs h k = None"
  proof (rule ccontr)
    assume "hash_abs h k \<noteq> None"
    then obtain e i where e: "keyf h e = k" "i < hsize h" "table h ! i = Entry e"
      using hash_abs_Some [OF assms(1), of k] by auto
    then have "free_path h k i" using assms(1) unfolding layout_def by blast
    then obtain n where n: "n < hsize h" "probe h k n = i" "\<forall>l<n. table h ! probe h k l \<noteq> HASH_EMPTY"
      unfolding free_path_def by blast
    have "equalf h k e" using assms(1) e(1) by (simp add: layout_def)
    then have "stops h k n" using e n(2) by (auto simp: stops_def)
    then have "m \<le> n" using assms(3) by (meson not_le)
    then show False using True n(2,3) e(3) by (cases "m = n") auto
  qed
  then show ?thesis using True by blast
qed

lemma find_slot_cases:
  assumes "layout h" and "used (table h) < hsize h"
  obtains (found) e i c where "hash_abs h k = Some e" "i < hsize h" "table h ! i = Entry e"
      "find_slot_loop h k ins None (home h k) = Some (Some i, hits c h)"
  | (missing) c where "hash_abs h k = None" "\<not> ins"
      "find_slot_loop h k ins None (home h k) = Some (None, hits c h)"
  | (fresh) i c where "hash_abs h k = None" "ins" "i < hsize h" "free_path h k i" "table h ! i = HASH_EMPTY"
      "find_slot_loop h k ins None (home h k) = Some (Some i, (hits c h)\<lparr>nelements := nelements h + 1\<rparr>)"
  | (reused) i c where "hash_abs h k = None" "ins" "i < hsize h" "free_path h k i" "table h ! i = HASH_DELETED"
      "find_slot_loop h k ins None (home h k) =
       Some (Some i, (hits c h)\<lparr>table := (table h)[i := HASH_EMPTY], ndeleted := ndeleted h - 1\<rparr>)"
proof -
  have sh: "shape h" using assms(1) by (simp add: layout_def)
  from stops_somewhere [OF assms, of k] obtain m where
    m: "m < hsize h" "stops h k m" "\<forall>l<m. \<not> stops h k l" by blast
  have path: "free_path h k (probe h k l)" if "l \<le> m" for l
    using that m(1,3) unfolding free_path_def stops_def by (intro exI [of _ l]) auto
  have pre: "\<forall>l. 0 \<le> l \<and> l < 0 + m \<longrightarrow> \<not> stops h k l" using m(3) by simp
  from find_slot_loop_walk [OF sh pre, of None ins] obtain d where
    d: "d = None \<or> ins \<and> (\<exists>l<m. d = Some (probe h k l) \<and> table h ! probe h k l = HASH_DELETED)"
      "find_slot_loop h k ins None (home h k) = find_slot_loop (hits m h) k ins d (probe h k m)"
    using probe_0 [OF sh, of k] by auto
  have at: "table (hits m h) ! probe h k m = table h ! probe h k m" by simp
  have nd: "nelements (hits m h) = nelements h" "ndeleted (hits m h) = ndeleted h" by (simp_all add: hits_def)
  show ?thesis
  proof (cases "hash_abs h k")
    case (Some e)
    then have e: "table h ! probe h k m = Entry e" using stops_hit [OF assms(1) m(1,3,2)] by auto
    moreover have "equalf h k e" using m(2) e by (simp add: stops_def)
    ultimately have "find_slot_loop h k ins None (home h k) = Some (Some (probe h k m), hits m h)"
      unfolding d(2) by (subst find_slot_loop.simps) simp
    with Some e probe_lt [OF sh, of k m] show ?thesis by (intro found)
  next
    case None
    then have e: "table h ! probe h k m = HASH_EMPTY" using stops_hit [OF assms(1) m(1,3,2)] by auto
    show ?thesis
    proof (cases ins)
      case False
      then have "find_slot_loop h k ins None (home h k) = Some (None, hits m h)"
        unfolding d(2) using e by (subst find_slot_loop.simps) simp
      with None False show ?thesis by (intro missing)
    next
      case True
      show ?thesis
      proof (cases d)
        case dN: None
        then have "find_slot_loop h k ins None (home h k) =
            Some (Some (probe h k m), (hits m h)\<lparr>nelements := nelements h + 1\<rparr>)"
          unfolding d(2) using e True nd by (subst find_slot_loop.simps) simp
        with None True probe_lt [OF sh, of k m] path [of m] e show ?thesis by (intro fresh) auto
      next
        case (Some i)
        then obtain l where l: "l < m" "i = probe h k l" "table h ! i = HASH_DELETED" using d(1) by auto
        have "find_slot_loop h k ins None (home h k) =
            Some (Some i, (hits m h)\<lparr>table := (table h)[i := HASH_EMPTY], ndeleted := ndeleted h - 1\<rparr>)"
          unfolding d(2) using e True nd Some by (subst find_slot_loop.simps) simp
        with None True probe_lt [OF sh, of k l] path [of l] l show ?thesis by (intro reused) auto
      qed
    qed
  qed
qed

section \<open>Expansion\<close>

definition same_client :: "('k, 'e, 'w) hash \<Rightarrow> ('k, 'e, 'w) hash \<Rightarrow> bool" where
  "same_client h h' \<longleftrightarrow> hashf h' = hashf h \<and> keyf h' = keyf h \<and> equalf h' = equalf h \<and> deletef h' = deletef h"

lemma hash_abs_map_of: "hash_abs h = map_of (map (\<lambda>e. (keyf h e, e)) (entries (table h)))"
proof
  fix k
  have "find (\<lambda>e. keyf h e = k) es = map_of (map (\<lambda>e. (keyf h e, e)) es) k" for es
    by (induction es) auto
  then show "hash_abs h k = map_of (map (\<lambda>e. (keyf h e, e)) (entries (table h))) k"
    by (simp add: hash_abs_def)
qed

lemma distinct_entries:
  assumes "\<And>i j e f. i < length t \<Longrightarrow> j < length t \<Longrightarrow> t ! i = Entry e \<Longrightarrow> t ! j = Entry f \<Longrightarrow>
    K e = K f \<Longrightarrow> i = j"
  shows "distinct (map K (entries t))"
  using assms
proof (induction t)
  case (Cons x t)
  have "distinct (map K (entries t))"
    using Cons.IH Cons.prems [of "Suc i" "Suc j" for i j] by auto
  moreover have "K e \<notin> K ` set (entries t)" if "x = Entry e" for e
  proof
    assume "K e \<in> K ` set (entries t)"
    then obtain f j where "K e = K f" "j < length t" "t ! j = Entry f"
      by (auto simp: set_entries in_set_conv_nth)
    then show False using Cons.prems [of 0 "Suc j" e f] that by simp
  qed
  ultimately show ?case by (cases x) auto
qed simp

lemma layout_distinct: "layout h \<Longrightarrow> distinct (map (keyf h) (entries (table h)))"
  by (rule distinct_entries) (auto simp: layout_def shape_def)

lemma find_empty_loop_finds:
  assumes "layout h" and "used (table h) < hsize h" and "dead (table h) = 0" and "hash_abs h k = None"
  shows "\<exists>i. hash_find_empty h k = Some i \<and> i < hsize h \<and> table h ! i = HASH_EMPTY \<and> free_path h k i"
proof -
  have sh: "shape h" and len: "length (table h) = hsize h" using assms(1) by (auto simp: layout_def shape_def)
  from stops_somewhere [OF assms(1,2), of k] obtain m where
    m: "m < hsize h" "stops h k m" "\<forall>l<m. \<not> stops h k l" by blast
  have e: "table h ! probe h k m = HASH_EMPTY" using stops_hit [OF assms(1) m(1,3,2)] assms(4) by auto
  have "find_empty_loop h (probe h k l) = Some (probe h k m)" if "l \<le> m" for l
    using that
  proof (induction "m - l" arbitrary: l)
    case 0
    then show ?case using e by (subst find_empty_loop.simps) simp
  next
    case (Suc n)
    then have "table h ! probe h k l \<noteq> HASH_EMPTY" using m(3) by (auto simp: stops_def)
    moreover have "find_empty_loop h (probe h k (Suc l)) = Some (probe h k m)"
      using Suc.hyps(1) [of "Suc l"] Suc.hyps(2) by linarith
    ultimately show ?case
      using next_probe [OF sh] by (subst find_empty_loop.simps) (auto split: slot.split)
  qed
  from this [of 0] have "hash_find_empty h k = Some (probe h k m)"
    using probe_0 [OF sh, of k] by (simp add: hash_find_empty_def)
  moreover have "free_path h k (probe h k m)"
    using m(1,3) unfolding free_path_def stops_def by (intro exI [of _ m]) auto
  ultimately show ?thesis using e probe_lt [OF sh, of k m] by blast
qed

lemma counter_updates [simp]:
  "layout (h\<lparr>nelements := n\<rparr>) = layout h" "layout (h\<lparr>ndeleted := n\<rparr>) = layout h"
  "layout (h\<lparr>searches := w\<rparr>) = layout h" "layout (h\<lparr>expansions := w\<rparr>) = layout h"
  "layout (hits c h) = layout h"
  "hash_abs (h\<lparr>nelements := n\<rparr>) = hash_abs h" "hash_abs (h\<lparr>ndeleted := n\<rparr>) = hash_abs h"
  "hash_abs (h\<lparr>searches := w\<rparr>) = hash_abs h" "hash_abs (h\<lparr>expansions := w\<rparr>) = hash_abs h"
  "hash_abs (hits c h) = hash_abs h"
  by (simp_all add: layout_def shape_def free_path_def probe_def home_def hash_abs_def hits_def fun_eq_iff)

lemma hits_more [simp]:
  "nelements (hits c h) = nelements h" "ndeleted (hits c h) = ndeleted h" "keyf (hits c h) = keyf h"
  "deletef (hits c h) = deletef h" "hashf (hits c h) = hashf h"
  "free_path (hits c h) = free_path h" "home (h\<lparr>searches := w\<rparr>) k = home h k"
  "free_path (h\<lparr>searches := w\<rparr>) = free_path h"
  "(hits c h)\<lparr>table := t\<rparr> = hits c (h\<lparr>table := t\<rparr>)"
  by (auto simp: hits_def free_path_def probe_def home_def fun_eq_iff)

text \<open>A change of the table goes below the changes of the counters.\<close>

lemma table_below [simp]:
  "h\<lparr>searches := w, table := t\<rparr> = h\<lparr>table := t, searches := w\<rparr>"
  "h\<lparr>nelements := n, table := t\<rparr> = h\<lparr>table := t, nelements := n\<rparr>"
  "h\<lparr>ndeleted := n, table := t\<rparr> = h\<lparr>table := t, ndeleted := n\<rparr>"
  by simp_all

lemma entries_layout: "layout h \<Longrightarrow> nelements h = used (table h) \<Longrightarrow> ndeleted h = dead (table h) \<Longrightarrow>
  length (entries (table h)) = nelements h - ndeleted h"
  using used_dead [of "table h"] by simp

lemma expand_loop_places:
  assumes "layout h" and "dead (table h) = 0" and "nelements h = used (table h)"
    and "used (table h) + length (entries old) < hsize h" and "distinct (map (keyf h) (entries old))"
    and "\<forall>e\<in>set (entries old). hash_abs h (keyf h e) = None"
  shows "\<exists>h'. expand_loop old h = Some h' \<and> layout h' \<and> dead (table h') = 0 \<and>
    nelements h' = used (table h') \<and> ndeleted h' = ndeleted h \<and>
    used (table h') = used (table h) + length (entries old) \<and>
    hsize h' = hsize h \<and> same_client h h' \<and>
    hash_abs h' = map_of (map (\<lambda>e. (keyf h e, e)) (entries old)) ++ hash_abs h"
  using assms
proof (induction old h rule: expand_loop.induct)
  case (1 h)
  then show ?case by (simp add: same_client_def)
next
  case (2 e old h)
  have len: "length (table h) = hsize h" using 2(2) by (simp add: layout_def shape_def)
  from find_empty_loop_finds [OF 2(2) _ 2(3), of "keyf h e"] 2(5,7) obtain i where
    i: "hash_find_empty h (keyf h e) = Some i" "i < hsize h" "table h ! i = HASH_EMPTY"
      "free_path h (keyf h e) i" by auto
  let ?h = "h\<lparr>table := (table h)[i := Entry e], nelements := nelements h + 1\<rparr>"
  have key: "hash_abs h (keyf h e) = None" using 2(7) by simp
  have "\<forall>f. table h ! i \<noteq> Entry f" using i(3) by simp
  note pl = place [OF 2(2) i(2) this i(4) key]
  have abs: "hash_abs ?h = (hash_abs h)(keyf h e \<mapsto> e)" using pl(2) by simp
  have u: "used (table ?h) = used (table h) + 1"
    using used_update [of i "table h" "Entry e"] i(2,3) len by simp
  have d: "dead (table ?h) = 0"
    using dead_update [of i "table h" "Entry e"] i(2,3) len 2(3) by simp
  have fresh: "\<forall>f\<in>set (entries old). hash_abs ?h (keyf ?h f) = None"
    using 2(6,7) by (auto simp: pl(2) image_iff)
  have "\<exists>h'. expand_loop old ?h = Some h' \<and> layout h' \<and> dead (table h') = 0 \<and>
    nelements h' = used (table h') \<and> ndeleted h' = ndeleted ?h \<and>
    used (table h') = used (table ?h) + length (entries old) \<and>
    hsize h' = hsize ?h \<and> same_client ?h h' \<and>
    hash_abs h' = map_of (map (\<lambda>e. (keyf ?h e, e)) (entries old)) ++ hash_abs ?h"
    using 2(1) [OF i(1)] pl(1) d u fresh 2(4,5,6) by simp
  moreover have "map_of (map (\<lambda>e. (keyf h e, e)) (entries old)) ++ hash_abs ?h =
      map_of (map (\<lambda>e. (keyf h e, e)) (entries (Entry e # old))) ++ hash_abs h"
    using 2(6) key by (auto simp: pl(2) map_add_def fun_eq_iff map_of_eq_None_iff image_iff split: option.splits)
  ultimately show ?case using i(1) u by (auto simp: same_client_def fun_upd_def)
qed simp_all

lemma shift_count_gt: "n < 2 ^ shift_count n"
proof (induction n rule: shift_count.induct)
  case (1 n)
  then show ?case by (subst shift_count.simps) auto
qed

lemma hash_size_ok: "\<exists>k. hash_size n = 2 ^ k" "4 \<le> hash_size n" "n \<le> hash_size n"
proof -
  have "\<exists>k. (4 :: nat) = 2 ^ k" by (rule exI [of _ 2]) simp
  then show "\<exists>k. hash_size n = 2 ^ k" by (auto simp: hash_size_def Let_def)
  show "4 \<le> hash_size n" by (simp add: hash_size_def Let_def)
  show "n \<le> hash_size n" using shift_count_gt [of "n - 1"] by (auto simp: hash_size_def Let_def)
qed

lemma used_replicate [simp]: "used (replicate n HASH_EMPTY) = 0" "dead (replicate n HASH_EMPTY) = 0"
  "entries (replicate n HASH_EMPTY) = []"
  by (simp add: used_def, simp add: dead_def, induction n, simp_all)

lemma layout_fresh:
  assumes "\<forall>k e. equalf h k e \<longleftrightarrow> keyf h e = k"
  shows "layout (h\<lparr>hsize := hash_size n, hmask := hash_size n - 1,
    table := replicate (hash_size n) HASH_EMPTY, nelements := a, ndeleted := b\<rparr>)"
  using assms hash_size_ok [of n] by (auto simp: layout_def shape_def)

lemma hash_expand_ok:
  assumes "hash_inv h"
  shows "\<exists>h'. hash_expand h = Some h' \<and> hash_inv h' \<and> same_client h h' \<and> hash_abs h' = hash_abs h \<and>
    nelements h' + 1 < hsize h'"
proof -
  have l: "layout h" and n: "nelements h = used (table h)" "ndeleted h = dead (table h)"
    using assms by (auto simp: hash_inv_def)
  let ?live = "nelements h - ndeleted h" and ?es = "entries (table h)"
  let ?s = "hash_size (?live * 2)"
  let ?h = "h\<lparr>hsize := ?s, hmask := ?s - 1, table := replicate ?s HASH_EMPTY, nelements := 0, ndeleted := 0\<rparr>"
  have live: "length ?es = ?live" by (rule entries_layout [OF l n])
  have room: "?live + 1 < ?s" using hash_size_ok(2,3) [of "?live * 2"] by linarith
  have lay: "layout ?h" by (rule layout_fresh) (use l in \<open>simp add: layout_def\<close>)
  have none: "hash_abs ?h = Map.empty" by (simp add: hash_abs_map_of)
  have "\<exists>h'. expand_loop (table h) ?h = Some h' \<and> layout h' \<and> dead (table h') = 0 \<and>
    nelements h' = used (table h') \<and> ndeleted h' = ndeleted ?h \<and>
    used (table h') = used (table ?h) + length (entries (table h)) \<and>
    hsize h' = hsize ?h \<and> same_client ?h h' \<and>
    hash_abs h' = map_of (map (\<lambda>e. (keyf ?h e, e)) (entries (table h))) ++ hash_abs ?h"
    using lay room live layout_distinct [OF l] none by (intro expand_loop_places) simp_all
  then obtain h' where h': "expand_loop (table h) ?h = Some h'" "layout h'" "dead (table h') = 0"
    "nelements h' = used (table h')" "ndeleted h' = 0" "used (table h') = ?live" "hsize h' = ?s"
    "same_client ?h h'" "hash_abs h' = map_of (map (\<lambda>e. (keyf h e, e)) ?es)"
    using live none by auto
  have "hash_expand h = Some (h'\<lparr>expansions := expansions h' + 1\<rparr>)"
    using h'(1) by (simp add: hash_expand_def Let_def)
  then show ?thesis
    using h' room hash_abs_map_of [of h] by (auto simp: hash_inv_def same_client_def)
qed

section \<open>The operations\<close>

text \<open>The table \<open>hash_find_slot\<close> searches: expanded first, if it inserts into a full one.\<close>

lemma make_room:
  assumes "hash_inv h"
  shows "\<exists>h1. (if ins \<and> hsize h * 3 \<le> nelements h * 4 then hash_expand h else Some h) = Some h1 \<and>
    hash_inv h1 \<and> same_client h h1 \<and> hash_abs h1 = hash_abs h \<and> (ins \<longrightarrow> nelements h1 + 1 < hsize h1)"
proof (cases "ins \<and> hsize h * 3 \<le> nelements h * 4")
  case True
  then show ?thesis using hash_expand_ok [OF assms] by auto
next
  case False
  have "4 \<le> hsize h" using assms by (simp add: hash_inv_def layout_def shape_def)
  then have "nelements h + 1 < hsize h" if ins using False that by simp
  with assms False show ?thesis by (auto simp: same_client_def)
qed

lemma hash_lookup_ok:
  assumes "hash_inv h"
  shows "\<exists>h'. hash_lookup h k =
      Some (case hash_abs h k of None \<Rightarrow> HASH_EMPTY | Some e \<Rightarrow> Entry e, h') \<and>
    hash_inv h' \<and> same_client h h' \<and> hash_abs h' = hash_abs h"
proof -
  have l: "layout (h\<lparr>searches := searches h + 1\<rparr>)"
    "used (table (h\<lparr>searches := searches h + 1\<rparr>)) < hsize (h\<lparr>searches := searches h + 1\<rparr>)"
    using assms by (auto simp: hash_inv_def)
  have inv: "hash_inv (hits c (h\<lparr>searches := searches h + 1\<rparr>))"
    "same_client h (hits c (h\<lparr>searches := searches h + 1\<rparr>))" for c
    using assms by (simp_all add: hash_inv_def same_client_def)
  show ?thesis
    by (rule find_slot_cases [OF l, of k False])
      (use inv in \<open>auto simp: hash_lookup_def hash_find_slot_def\<close>)
qed

lemma hash_insert_ok:
  assumes "hash_inv h" and "keyf h e = k"
  shows "\<exists>h'. hash_insert h k e = Some (hash_abs h k = None, h') \<and> hash_inv h' \<and> same_client h h' \<and>
    hash_abs h' = (if hash_abs h k = None then (hash_abs h)(k \<mapsto> e) else hash_abs h)"
proof -
  from make_room [OF assms(1), of True] obtain h1 where
    h1: "(if True \<and> hsize h * 3 \<le> nelements h * 4 then hash_expand h else Some h) = Some h1"
      "hash_inv h1" "same_client h h1" "hash_abs h1 = hash_abs h" "nelements h1 + 1 < hsize h1" by auto
  let ?h = "h1\<lparr>searches := searches h1 + 1\<rparr>"
  have len: "length (table h1) = hsize h1" using h1(2) by (simp add: hash_inv_def layout_def shape_def)
  have l: "layout ?h" "used (table ?h) < hsize ?h" using h1(2) by (auto simp: hash_inv_def)
  have fs: "hash_find_slot h k True = find_slot_loop ?h k True None (home ?h k)"
    using h1(1) by (simp add: hash_find_slot_def)
  have k: "keyf ?h e = k" using assms(2) h1(3) by (simp add: same_client_def)
  show ?thesis
  proof (rule find_slot_cases [OF l, of k True], goal_cases)
    case (1 f i c)
    then show ?case
      using h1 fs by (auto simp: hash_insert_def hash_inv_def same_client_def)
  next
    case (2 c)
    then show ?case by simp
  next
    case (3 i c)
    have ne: "\<forall>f. table ?h ! i \<noteq> Entry f" using 3 by simp
    note pl = place [OF l(1) 3(3) ne, of e, unfolded k, OF 3(4,1)]
    have u: "used ((table h1)[i := Entry e]) = used (table h1) + 1"
      "dead ((table h1)[i := Entry e]) = dead (table h1)"
      using used_update [of i "table h1" "Entry e"] dead_update [of i "table h1" "Entry e"] 3 len by simp_all
    show ?case using 3 fs h1 pl u by (simp add: hash_insert_def hash_inv_def same_client_def)
  next
    case (4 i c)
    have ne: "\<forall>f. table ?h ! i \<noteq> Entry f" using 4 by simp
    note pl = place [OF l(1) 4(3) ne, of e, unfolded k, OF 4(4,1)]
    have u: "used ((table h1)[i := Entry e]) = used (table h1)"
      "dead ((table h1)[i := Entry e]) = dead (table h1) - 1"
      using used_update [of i "table h1" "Entry e"] dead_update [of i "table h1" "Entry e"] 4 len by simp_all
    show ?case using 4 fs h1 pl u len by (simp add: hash_insert_def hash_inv_def same_client_def)
  qed
qed

lemma hash_replace_ok:
  assumes "hash_inv h" and "\<And>f. datum = Entry f \<Longrightarrow> keyf h f = k" and "datum \<noteq> HASH_EMPTY"
  shows "\<exists>h'. hash_replace h k datum w = Some (hash_abs h k \<noteq> None, h',
      case hash_abs h k of None \<Rightarrow> w | Some e \<Rightarrow> deletef h e w) \<and>
    layout h' \<and> same_client h h' \<and> nelements h' = used (table h') \<and> nelements h' < hsize h' \<and>
    ndeleted h' + (if hash_abs h k \<noteq> None \<and> datum = HASH_DELETED then 1 else 0) = dead (table h') \<and>
    hash_abs h' = (case datum of Entry f \<Rightarrow> if hash_abs h k = None then hash_abs h else (hash_abs h)(k \<mapsto> f)
      | _ \<Rightarrow> (hash_abs h)(k := None))"
proof -
  let ?h = "h\<lparr>searches := searches h + 1\<rparr>"
  have len: "length (table h) = hsize h" using assms(1) by (simp add: hash_inv_def layout_def shape_def)
  have l: "layout ?h" "used (table ?h) < hsize ?h" using assms(1) by (auto simp: hash_inv_def)
  show ?thesis
  proof (rule find_slot_cases [OF l, of k False], goal_cases)
    case (1 e i c)
    have lay: "layout h" using assms(1) by (simp add: hash_inv_def)
    have e: "table h ! i = Entry e" "i < hsize h" "hash_abs h k = Some e" using 1 by simp_all
    then have ke: "keyf h e = k" using hash_abs_Some [OF lay] by simp
    have u: "used ((table h)[i := datum]) = used (table h)"
      "dead ((table h)[i := datum]) = dead (table h) + (if datum = HASH_DELETED then 1 else 0)"
      using used_update [of i "table h" datum] dead_update [of i "table h" datum] e len assms(3) by simp_all
    have fs: "hash_find_slot h k False = Some (Some i, hits c ?h)" using 1 by (simp add: hash_find_slot_def)
    show ?case
    proof (cases datum)
      case (Entry f)
      note rn = renew [OF lay e(2,1), of f, unfolded ke, OF assms(2) [OF Entry]]
      show ?thesis using rn u fs e assms(1) Entry
        by (simp add: hash_replace_def hash_inv_def same_client_def)
    next
      case HASH_DELETED
      note bu = bury [OF lay e(2,1), unfolded ke]
      show ?thesis using bu u fs e assms(1) HASH_DELETED
        by (simp add: hash_replace_def hash_inv_def same_client_def)
    qed (use assms(3) in simp)
  next
    case (2 c)
    then have "hash_find_slot h k False = Some (None, hits c ?h)" by (simp add: hash_find_slot_def)
    then show ?case using 2 assms(1)
      by (auto simp: hash_replace_def hash_inv_def same_client_def split: slot.split)
  qed simp_all
qed

lemma hash_delete_ok:
  assumes "hash_inv h"
  shows "\<exists>h'. hash_delete h k w = Some (hash_abs h k \<noteq> None, h',
      case hash_abs h k of None \<Rightarrow> w | Some e \<Rightarrow> deletef h e w) \<and>
    hash_inv h' \<and> same_client h h' \<and> hash_abs h' = (hash_abs h)(k := None)"
proof -
  from hash_replace_ok [OF assms, of HASH_DELETED k w] obtain h' where
    "hash_replace h k HASH_DELETED w = Some (hash_abs h k \<noteq> None, h',
        case hash_abs h k of None \<Rightarrow> w | Some e \<Rightarrow> deletef h e w)"
    "layout h'" "same_client h h'" "nelements h' = used (table h')" "nelements h' < hsize h'"
    "ndeleted h' + (if hash_abs h k \<noteq> None then 1 else 0) = dead (table h')"
    "hash_abs h' = (hash_abs h)(k := None)" by auto
  then show ?thesis
    by (cases "hash_abs h k") (auto simp: hash_delete_def hash_inv_def same_client_def)
qed

lemma hash_create_ok:
  assumes "\<And>k e. eq k e \<longleftrightarrow> key e = k"
  shows "hash_inv (hash_create n hf key eq del)" "hash_abs (hash_create n hf key eq del) = Map.empty"
    "keyf (hash_create n hf key eq del) = key"
  using assms hash_size_ok [of n]
  by (auto simp: hash_inv_def hash_create_def layout_def shape_def hash_abs_map_of)

section \<open>The table as a dictionary\<close>

definition hash_look :: "('k, 'e, 'w) hash \<times> 'w \<Rightarrow> 'k \<Rightarrow> ('e option \<times> ('k, 'e, 'w) hash \<times> 'w) option" where
  "hash_look = (\<lambda>(h, w) k. map_option
     (\<lambda>(r, h'). (case r of Entry e \<Rightarrow> Some e | _ \<Rightarrow> None, h', w)) (hash_lookup h k))"

definition hash_ins :: "('k, 'e, 'w) hash \<times> 'w \<Rightarrow> 'k \<Rightarrow> 'e \<Rightarrow> (bool \<times> ('k, 'e, 'w) hash \<times> 'w) option" where
  "hash_ins = (\<lambda>(h, w) k e. map_option (\<lambda>(r, h'). (r, h', w)) (hash_insert h k e))"

definition hash_del :: "('k, 'e, 'w) hash \<times> 'w \<Rightarrow> 'k \<Rightarrow> (bool \<times> ('k, 'e, 'w) hash \<times> 'w) option" where
  "hash_del = (\<lambda>(h, w) k. hash_delete h k w)"

interpretation ht: dictionary "\<lambda>(h, w). hash_inv h \<and> keyf h = key" "\<lambda>(h, w). hash_abs h"
    hash_look hash_ins hash_del "\<lambda>k e. key e = k"
  for key :: "'e \<Rightarrow> 'k"
proof (unfold_locales, goal_cases)
  case (1 s k)
  then show ?case using hash_lookup_ok [of "fst s" k]
    by (cases s; cases "hash_abs (fst s) k") (auto simp: hash_look_def same_client_def)
next
  case (2 s k e)
  then show ?case using hash_insert_ok [of "fst s" e k]
    by (cases s) (auto simp: hash_ins_def same_client_def)
next
  case (3 s k)
  then show ?case using hash_delete_ok [of "fst s" k "snd s"]
    by (cases s) (auto simp: hash_del_def same_client_def)
qed

text \<open>
  C13: a client of the hash table that starts from \<open>hash_create\<close> of any size and makes any sequence
  of lookups, insertions (of elements with the key they are inserted under) and deletions gets an
  answer to every call (no probing loop runs for ever, through all the expansions and tombstones),
  and the answers are those of a finite map.
\<close>

theorem hashtab_refines_map:
  assumes "\<And>k e. eq k e \<longleftrightarrow> key e = k" and "list_all (op_ok (\<lambda>k e. key e = k)) ops"
  shows "\<exists>h w'. dict_run hash_look hash_ins hash_del (hash_create n hf key eq del, w) ops =
      Some (fst (map_run Map.empty ops), h, w') \<and> hash_abs h = snd (map_run Map.empty ops)"
proof -
  let ?s = "(hash_create n hf key eq del, w)"
  have "case ?s of (h, w) \<Rightarrow> hash_inv h \<and> keyf h = key" using hash_create_ok [of eq key n hf del] assms(1) by simp
  from ht.run_refines [OF this assms(2)] hash_create_ok(2) [of eq key n hf del] assms(1) show ?thesis
    by auto
qed

theorem hashtab_refines_map_witness:
  "\<exists>h w'. dict_run hash_look hash_ins hash_del
     (hash_create 4 hash_string (id :: octets \<Rightarrow> octets) (\<lambda>k e. e = k) (\<lambda>e w. e # w), [])
     [Insert ''a'' ''a'', Insert ''b'' ''b'', Insert ''a'' ''a'', Delete ''a'', Lookup ''a'', Lookup ''b''] =
     Some ([Done True, Done True, Done False, Done True, Found None, Found (Some ''b'')], h, w')"
  using hashtab_refines_map [of "\<lambda>k e. e = k" id
     "[Insert ''a'' ''a'', Insert ''b'' ''b'', Insert ''a'' ''a'', Delete ''a'', Lookup ''a'', Lookup ''b'']"
     4 hash_string "\<lambda>e w. e # w" "[]"]
  by auto

lemma hash_count_card: "hash_inv h \<Longrightarrow> hash_count h = card (dom (hash_abs h))"
proof -
  assume h: "hash_inv h"
  then have "hash_count h = length (entries (table h))"
    by (simp add: hash_count_def hash_inv_def entries_layout)
  moreover have "card (dom (hash_abs h)) = card (set (map (keyf h) (entries (table h))))"
    by (simp add: hash_abs_map_of dom_map_of_conv_image_fst image_image)
  moreover have "\<dots> = length (entries (table h))"
    using layout_distinct [of h] h distinct_card by (fastforce simp: hash_inv_def)
  ultimately show ?thesis by simp
qed

lemma finite_hash_abs: "finite (dom (hash_abs h))"
  by (simp add: hash_abs_map_of finite_dom_map_of)

text \<open>
  \<open>hash_insert\<close> and \<open>hash_delete\<close> return on every table that satisfies the invariant and keep
  it; \<open>hash_count\<close>, which the code computes from two counters, is exactly one more after an
  insertion of a new key, one less after the deletion of a key that is there, and unchanged
  otherwise; a deletion calls the client's delete function on the element it removes and on no
  other.
\<close>

theorem hash_count_ops:
  assumes "hash_inv h"
  shows "(\<exists>h'. hash_insert h (keyf h e) e = Some (hash_abs h (keyf h e) = None, h') \<and> hash_inv h' \<and>
      hash_count h' = hash_count h + (if hash_abs h (keyf h e) = None then 1 else 0)) \<and>
    (\<exists>h'. hash_delete h k w = Some (hash_abs h k \<noteq> None, h', case hash_abs h k of None \<Rightarrow> w | Some f \<Rightarrow> deletef h f w) \<and>
      hash_inv h' \<and> hash_count h = hash_count h' + (if hash_abs h k = None then 0 else 1))"
proof
  from hash_insert_ok [OF assms refl, of e] obtain h' where
    "hash_insert h (keyf h e) e = Some (hash_abs h (keyf h e) = None, h')" "hash_inv h'"
    "hash_abs h' = (if hash_abs h (keyf h e) = None then (hash_abs h)(keyf h e \<mapsto> e) else hash_abs h)"
    by blast
  then show "\<exists>h'. hash_insert h (keyf h e) e = Some (hash_abs h (keyf h e) = None, h') \<and> hash_inv h' \<and>
      hash_count h' = hash_count h + (if hash_abs h (keyf h e) = None then 1 else 0)"
    using hash_count_card [OF assms] hash_count_card [of h'] finite_hash_abs [of h]
    by (auto simp: card_insert_if domIff)
next
  from hash_delete_ok [OF assms, of k w] obtain h' where
    "hash_delete h k w = Some (hash_abs h k \<noteq> None, h', case hash_abs h k of None \<Rightarrow> w | Some e \<Rightarrow> deletef h e w)"
    "hash_inv h'" "hash_abs h' = (hash_abs h)(k := None)" by blast
  moreover have "card (dom (hash_abs h)) = card (dom (hash_abs h) - {k}) + (if hash_abs h k = None then 0 else 1)"
    using finite_hash_abs [of h] card.remove [of "dom (hash_abs h)" k] by (auto simp: domIff)
  ultimately show "\<exists>h'. hash_delete h k w = Some (hash_abs h k \<noteq> None, h',
      case hash_abs h k of None \<Rightarrow> w | Some f \<Rightarrow> deletef h f w) \<and>
      hash_inv h' \<and> hash_count h = hash_count h' + (if hash_abs h k = None then 0 else 1)"
    using hash_count_card [OF assms] hash_count_card [of h'] by auto
qed

theorem hash_count_ops_witness:
  "\<exists>h'. hash_insert (hash_create 4 hash_string (id :: octets \<Rightarrow> octets) (\<lambda>k e. e = k) (\<lambda>e w. e # w)) ''a'' ''a'' =
     Some (True, h') \<and> hash_count h' = 1"
proof -
  let ?h = "hash_create 4 hash_string (id :: octets \<Rightarrow> octets) (\<lambda>k e. e = k) (\<lambda>e w. e # w)"
  have i: "hash_inv ?h" "hash_abs ?h = Map.empty" by (auto intro!: hash_create_ok)
  have "keyf ?h = id" "hash_count ?h = 0" by (simp_all add: hash_create_def hash_count_def)
  then show ?thesis using hash_count_ops [OF i(1), of "''a''" "''a''" "[]"] i(2) by auto
qed

text \<open>
  \<open>hash_traverse\<close> calls back once for every element of the map and for nothing else, and
  \<open>hash_free\<close> deletes every element once.
\<close>

theorem hash_traverse_once:
  assumes "hash_inv h"
  shows "\<exists>es. distinct es \<and> set es = ran (hash_abs h) \<and> length es = hash_count h \<and>
    (\<forall>f d. hash_traverse h f d = fold f es d) \<and> (\<forall>w. hash_free h w = fold (deletef h) es w)"
proof -
  have d: "distinct (map (keyf h) (entries (table h)))"
    using assms by (auto simp: hash_inv_def intro: layout_distinct)
  have "ran (hash_abs h) = set (entries (table h))"
    using d by (subst hash_abs_map_of, subst ran_distinct) (auto simp: comp_def image_image)
  moreover have "length (entries (table h)) = hash_count h"
    using assms by (simp add: hash_count_def hash_inv_def entries_layout)
  ultimately show ?thesis using d
    by (intro exI [of _ "entries (table h)"]) (auto simp: distinct_map hash_traverse_def hash_free_def)
qed

theorem hash_traverse_once_witness:
  "\<exists>es. distinct es \<and> set es = ran (hash_abs (hash_create 9 hash_string (id :: octets \<Rightarrow> octets) (\<lambda>k e. e = k) (\<lambda>e w. w))) \<and>
    length es = 0"
proof -
  have i: "hash_inv (hash_create 9 hash_string (id :: octets \<Rightarrow> octets) (\<lambda>k e. e = k) (\<lambda>e w. w))"
    by (auto intro!: hash_create_ok)
  show ?thesis using hash_traverse_once [OF i] by (auto simp: hash_create_def hash_count_def)
qed

end
