(* ===== verification/Tdx_cache.thy ===== *)
theory Tdx_cache
  imports Hashtab Hash
begin

text \<open>
  The cache of open overview data files (\<open>storage/tradindexed/tdx-cache.c\<close>), a client of the hash
  table. The table holds pointers to cache entries. An entry's hash never changes after it is
  made, so an element of the table is the pair of that hash and the entry's address; its mutable
  fields and the reference counts of the open groups are in the heap the operations thread through.
\<close>

section \<open>The heap and the cache\<close>

type_synonym entry_ptr = "HASH \<times> nat"

text \<open>
  \<open>entry_at\<close>: the allocated cache entries, as their \<open>data\<close> pointer and \<open>lastused\<close>; \<open>refcount\<close> of a
  \<open>struct group_data\<close>; \<open>closed\<close>: the calls of \<open>tdx_data_close\<close>, the latest first.
\<close>

record tdx_heap =
  entry_at :: "nat \<rightharpoonup> nat \<times> int"
  refcount :: "nat \<Rightarrow> int"
  closed :: "nat list"

record tdx_cache =
  hashtable :: "(HASH, entry_ptr, tdx_heap) hash"
  ccount :: nat
  cmax :: nat
  queries :: "64 word"
  chits :: "64 word"

text \<open>The octets of the hash that fit an \<open>unsigned long\<close>, little-endian.\<close>

definition entry_hash :: "HASH \<Rightarrow> 64 word" where
  "entry_hash h = of_nat (foldr (\<lambda>b v. ord b + 256 * v) (take 8 h) 0)"

definition entry_key :: "entry_ptr \<Rightarrow> HASH" where
  "entry_key e = fst e"

definition entry_equal :: "HASH \<Rightarrow> entry_ptr \<Rightarrow> bool" where
  "entry_equal k e \<longleftrightarrow> k = fst e"

definition entry_delete :: "entry_ptr \<Rightarrow> tdx_heap \<Rightarrow> tdx_heap" where
  "entry_delete e w =
     (case entry_at w (snd e) of
        None \<Rightarrow> w
      | Some (d, _) \<Rightarrow>
          let w1 = w\<lparr>refcount := (refcount w)(d := refcount w d - 1)\<rparr>;
              w2 = (if refcount w1 d = 0 then w1\<lparr>closed := d # closed w1\<rparr> else w1)
          in w2\<lparr>entry_at := (entry_at w2)(snd e := None)\<rparr>)"

definition entry_find_oldest :: "tdx_heap \<Rightarrow> entry_ptr \<Rightarrow> entry_ptr option \<Rightarrow> entry_ptr option" where
  "entry_find_oldest w entry oldest =
     (case oldest of
        None \<Rightarrow> Some entry
      | Some old \<Rightarrow>
          (case (entry_at w (snd entry), entry_at w (snd old)) of
             (Some (d, last1), Some (d', last2)) \<Rightarrow>
               if refcount w d > refcount w d' then oldest
               else if last1 > last2 then oldest
               else Some entry
           | _ \<Rightarrow> oldest))"

definition tdx_cache_create :: "nat \<Rightarrow> tdx_cache" where
  "tdx_cache_create sz =
     \<lparr>hashtable = hash_create (sz * 4 div 3) entry_hash entry_key entry_equal entry_delete,
      ccount = 0, cmax = sz, queries = 0, chits = 0\<rparr>"

text \<open>\<open>now\<close> is \<open>time(NULL)\<close>; the result is the group, its \<open>NULL\<close> being \<open>None\<close>, and the state.\<close>

definition tdx_cache_lookup ::
  "tdx_cache \<Rightarrow> tdx_heap \<Rightarrow> HASH \<Rightarrow> int \<Rightarrow> (nat option \<times> tdx_cache \<times> tdx_heap) option" where
  "tdx_cache_lookup cache w hash now =
     do { let c1 = cache\<lparr>queries := queries cache + 1\<rparr>;
          (entry, t) \<leftarrow> hash_lookup (hashtable c1) hash;
          let c2 = c1\<lparr>hashtable := t\<rparr>;
          Some (case entry of
                  Entry e \<Rightarrow>
                    (case entry_at w (snd e) of
                       Some (d, _) \<Rightarrow> (Some d, c2\<lparr>chits := chits c2 + 1\<rparr>,
                                       w\<lparr>entry_at := (entry_at w)(snd e \<mapsto> (d, now))\<rparr>)
                     | None \<Rightarrow> (None, c2, w))
                | _ \<Rightarrow> (None, c2, w)) }"

text \<open>
  The part of \<open>tdx_cache_insert\<close> that clears an entry out; \<open>False\<close> when it warns and returns.
\<close>

definition cache_evict :: "tdx_cache \<Rightarrow> tdx_heap \<Rightarrow> (bool \<times> tdx_cache \<times> tdx_heap) option" where
  "cache_evict cache w =
     (if ccount cache = cmax cache then
        (case hash_traverse (hashtable cache) (entry_find_oldest w) None of
           None \<Rightarrow> Some (False, cache, w)
         | Some oldest \<Rightarrow>
             do { (ok, t, w1) \<leftarrow> hash_delete (hashtable cache) (fst oldest) w;
                  if ok then Some (True, cache\<lparr>hashtable := t, ccount := ccount cache - 1\<rparr>, w1)
                  else Some (False, cache\<lparr>hashtable := t\<rparr>, w1) })
      else Some (True, cache, w))"

text \<open>\<open>new\<close> is the address that \<open>xmalloc\<close> returns for the new entry.\<close>

definition tdx_cache_insert ::
  "tdx_cache \<Rightarrow> tdx_heap \<Rightarrow> HASH \<Rightarrow> nat \<Rightarrow> int \<Rightarrow> nat \<Rightarrow> (tdx_cache \<times> tdx_heap) option" where
  "tdx_cache_insert cache w hash data now new =
     do { (ok, c1, w1) \<leftarrow> cache_evict cache w;
          if \<not> ok then Some (c1, w1)
          else do {
            let w2 = w1\<lparr>entry_at := (entry_at w1)(new \<mapsto> (data, now))\<rparr>;
            (ok, t) \<leftarrow> hash_insert (hashtable c1) hash (hash, new);
            let c2 = c1\<lparr>hashtable := t\<rparr>;
            if \<not> ok then Some (c2, w2\<lparr>entry_at := (entry_at w2)(new := None)\<rparr>)
            else Some (c2\<lparr>ccount := ccount c2 + 1\<rparr>,
                       w2\<lparr>refcount := (refcount w2)(data := refcount w2 data + 1)\<rparr>) } }"

definition tdx_cache_delete :: "tdx_cache \<Rightarrow> tdx_heap \<Rightarrow> HASH \<Rightarrow> (tdx_cache \<times> tdx_heap) option" where
  "tdx_cache_delete cache w hash =
     do { (ok, t, w1) \<leftarrow> hash_delete (hashtable cache) hash w;
          let c1 = cache\<lparr>hashtable := t\<rparr>;
          Some (if ok then c1\<lparr>ccount := ccount c1 - 1\<rparr> else c1, w1) }"

definition tdx_cache_free :: "tdx_cache \<Rightarrow> tdx_heap \<Rightarrow> tdx_heap" where
  "tdx_cache_free cache w = hash_free (hashtable cache) w"

section \<open>The invariant\<close>

definition cache_inv :: "tdx_cache \<Rightarrow> tdx_heap \<Rightarrow> bool" where
  "cache_inv c w \<longleftrightarrow> hash_inv (hashtable c) \<and> keyf (hashtable c) = fst \<and>
     deletef (hashtable c) = entry_delete \<and> ccount c = hash_count (hashtable c) \<and> ccount c \<le> cmax c \<and>
     (\<forall>k e. hash_abs (hashtable c) k = Some e \<longrightarrow> entry_at w (snd e) \<noteq> None) \<and>
     (\<forall>k l e f. hash_abs (hashtable c) k = Some e \<longrightarrow> hash_abs (hashtable c) l = Some f \<longrightarrow>
        snd e = snd f \<longrightarrow> k = l)"

text \<open>The groups the cache holds, by hash, and how many of its entries point to a group.\<close>

definition cache_abs :: "tdx_cache \<Rightarrow> tdx_heap \<Rightarrow> HASH \<Rightarrow> nat option" where
  "cache_abs c w k =
     (case hash_abs (hashtable c) k of None \<Rightarrow> None | Some e \<Rightarrow> map_option fst (entry_at w (snd e)))"

definition held :: "(HASH \<Rightarrow> nat option) \<Rightarrow> nat \<Rightarrow> nat" where
  "held m g = card {k. m k = Some g}"

definition extern_refs :: "tdx_cache \<Rightarrow> tdx_heap \<Rightarrow> nat \<Rightarrow> int" where
  "extern_refs c w g = refcount w g - int (held (cache_abs c w) g)"

lemma cache_abs_eqI:
  assumes "\<And>k. (case hash_abs (hashtable c) k of None \<Rightarrow> None | Some e \<Rightarrow> map_option fst (entry_at w (snd e))) = m k"
  shows "cache_abs c w = m"
  using assms by (simp add: cache_abs_def fun_eq_iff)

lemma cache_abs_dom: "cache_inv c w \<Longrightarrow> cache_abs c w k = None \<longleftrightarrow> hash_abs (hashtable c) k = None"
  by (auto simp: cache_abs_def cache_inv_def split: option.splits)

lemma held_finite: "cache_inv c w \<Longrightarrow> finite {k. cache_abs c w k = Some g}"
  by (rule finite_subset [OF _ finite_hash_abs [of "hashtable c"]]) (auto simp: cache_abs_def split: option.splits)

lemma held_upd:
  assumes "finite {k. m k = Some g}" and "m k = None"
  shows "held (m(k \<mapsto> d)) g = held m g + (if d = g then 1 else 0)"
proof -
  have "{j. (m(k \<mapsto> d)) j = Some g} = (if d = g then insert k {j. m j = Some g} else {j. m j = Some g})"
    using assms(2) by auto
  then show ?thesis using assms by (simp add: held_def)
qed

lemma held_del:
  assumes "finite {k. m k = Some g}" and "m k = Some d"
  shows "held m g = held (m(k := None)) g + (if d = g then 1 else 0)"
proof -
  have "finite {j. (m(k := None)) j = Some g}"
    by (rule finite_subset [OF _ assms(1)]) (auto split: if_splits)
  moreover have m: "(m(k := None))(k \<mapsto> d) = m" using assms(2) by (auto simp: fun_eq_iff)
  ultimately show ?thesis using held_upd [of "m(k := None)" g k d, unfolded m] by simp
qed

text \<open>Deleting an entry that is there.\<close>

lemma cache_hash_delete:
  assumes "cache_inv c w" and "hash_abs (hashtable c) k = Some e"
  shows "\<exists>t w'. hash_delete (hashtable c) k w = Some (True, t, w') \<and>
    cache_inv (c\<lparr>hashtable := t, ccount := ccount c - 1\<rparr>) w' \<and> 0 < ccount c \<and>
    cache_abs (c\<lparr>hashtable := t, ccount := ccount c - 1\<rparr>) w' = (cache_abs c w)(k := None) \<and>
    extern_refs (c\<lparr>hashtable := t, ccount := ccount c - 1\<rparr>) w' = extern_refs c w \<and>
    (\<forall>a. entry_at w a = None \<longrightarrow> entry_at w' a = None)"
proof -
  let ?h = "hashtable c"
  have inv: "hash_inv ?h" and del: "deletef ?h = entry_delete" and cnt: "ccount c = hash_count ?h"
    using assms(1) by (auto simp: cache_inv_def)
  from hash_delete_ok [OF inv, of k w] assms(2) del obtain t where
    t: "hash_delete ?h k w = Some (True, t, entry_delete e w)" "hash_inv t" "same_client ?h t"
      "hash_abs t = (hash_abs ?h)(k := None)" by auto
  obtain d u where d: "entry_at w (snd e) = Some (d, u)"
    using assms unfolding cache_inv_def by (metis not_None_eq prod.exhaust)
  let ?w = "entry_delete e w" and ?c = "c\<lparr>hashtable := t, ccount := ccount c - 1\<rparr>"
  have w': "entry_at ?w = (entry_at w)(snd e := None)" "refcount ?w = (refcount w)(d := refcount w d - 1)"
    using d by (auto simp: entry_delete_def Let_def)
  have "k \<in> dom (hash_abs ?h)" using assms(2) by (rule domI)
  from card.remove [OF finite_hash_abs this] have count: "hash_count ?h = hash_count t + 1"
    by (simp only: hash_count_card [OF inv] hash_count_card [OF t(2)] t(4) dom_fun_upd) simp
  have other: "snd f \<noteq> snd e" if "hash_abs ?h l = Some f" "l \<noteq> k" for l f
    using assms that unfolding cache_inv_def by blast
  have abs: "cache_abs ?c ?w = (cache_abs c w)(k := None)"
    using other by (intro cache_abs_eqI) (auto simp: t(4) w' cache_abs_def split: option.splits)
  have i: "cache_inv ?c ?w"
    using assms(1) t count cnt by (auto simp: cache_inv_def same_client_def w' dest: other)
  have k: "cache_abs c w k = Some d" using assms(2) d by (simp add: cache_abs_def)
  have "extern_refs ?c ?w g = extern_refs c w g" for g
    using held_del [OF held_finite [OF assms(1)] k, of g] by (auto simp: extern_refs_def abs [simplified] w'(2))
  then show ?thesis using t(1) i abs count cnt w'(1) by auto
qed

lemma fold_oldest_in:
  "fold (entry_find_oldest w) es o1 = Some e \<Longrightarrow> e \<in> set es \<or> o1 = Some e"
proof (induction es arbitrary: o1)
  case (Cons x es)
  have "entry_find_oldest w x o1 \<in> {Some x, o1}"
    by (auto simp: entry_find_oldest_def split: option.splits)
  with Cons show ?case by fastforce
qed simp

lemma fold_oldest_None: "fold (entry_find_oldest w) es o1 = None \<Longrightarrow> es = [] \<and> o1 = None"
proof (induction es arbitrary: o1)
  case (Cons x es)
  have "entry_find_oldest w x o1 \<noteq> None"
    by (auto simp: entry_find_oldest_def split: option.splits)
  with Cons.IH [of "entry_find_oldest w x o1"] Cons.prems show ?case by simp
qed simp

lemma entries_abs: "hash_inv h \<Longrightarrow> e \<in> set (entries (table h)) \<Longrightarrow> hash_abs h (keyf h e) = Some e"
  using hash_abs_Some [of h "keyf h e" e]
  by (auto simp: hash_inv_def set_entries in_set_conv_nth layout_def shape_def)

text \<open>
  Making room: a full cache loses one entry, unless its capacity is 0; a cache that is not full
  stays as it is.
\<close>

lemma cache_evict_ok:
  assumes "cache_inv c w"
  shows "\<exists>ok c' w' v. cache_evict c w = Some (ok, c', w') \<and> cache_inv c' w' \<and> cmax c' = cmax c \<and>
    (ok \<longleftrightarrow> 0 < cmax c) \<and> (ok \<longrightarrow> ccount c' < cmax c') \<and>
    (ccount c < cmax c \<or> \<not> ok \<longrightarrow> c' = c \<and> w' = w) \<and>
    (ccount c = cmax c \<and> ok \<longrightarrow> cache_abs c w v \<noteq> None \<and> cache_abs c' w' = (cache_abs c w)(v := None)) \<and>
    extern_refs c' w' = extern_refs c w \<and> (\<forall>a. entry_at w a = None \<longrightarrow> entry_at w' a = None)"
proof (cases "ccount c = cmax c")
  case False
  then have "ccount c < cmax c" using assms by (simp add: cache_inv_def)
  with False assms show ?thesis by (auto simp: cache_evict_def)
next
  case full: True
  let ?o = "fold (entry_find_oldest w) (entries (table (hashtable c))) None"
  have inv: "hash_inv (hashtable c)" and key: "keyf (hashtable c) = fst"
    and cnt: "ccount c = length (entries (table (hashtable c)))"
    using assms by (auto simp: cache_inv_def hash_count_def hash_inv_def entries_layout)
  show ?thesis
  proof (cases ?o)
    case None
    then have "cmax c = 0" using fold_oldest_None [OF None] cnt full by simp
    with None full assms show ?thesis by (auto simp: cache_evict_def hash_traverse_def)
  next
    case (Some e)
    then have e: "e \<in> set (entries (table (hashtable c)))" using fold_oldest_in [OF Some] by simp
    then have k: "hash_abs (hashtable c) (fst e) = Some e" using entries_abs [OF inv] key by simp
    from cache_hash_delete [OF assms k] obtain t w' where
      t: "hash_delete (hashtable c) (fst e) w = Some (True, t, w')"
        "cache_inv (c\<lparr>hashtable := t, ccount := ccount c - 1\<rparr>) w'" "0 < ccount c"
        "cache_abs (c\<lparr>hashtable := t, ccount := ccount c - 1\<rparr>) w' = (cache_abs c w)(fst e := None)"
        "extern_refs (c\<lparr>hashtable := t, ccount := ccount c - 1\<rparr>) w' = extern_refs c w"
        "\<forall>a. entry_at w a = None \<longrightarrow> entry_at w' a = None" by blast
    have "cache_evict c w = Some (True, c\<lparr>hashtable := t, ccount := ccount c - 1\<rparr>, w')"
      using Some full t(1) by (simp add: cache_evict_def hash_traverse_def)
    moreover have "cache_abs c w (fst e) \<noteq> None" using cache_abs_dom [OF assms] k by simp
    ultimately show ?thesis using t(2-6) full
      by (intro exI [of _ True] exI [of _ "c\<lparr>hashtable := t, ccount := ccount c - 1\<rparr>"] exI [of _ w']
          exI [of _ "fst e"]) simp
  qed
qed

lemma cache_add:
  assumes "cache_inv c w" and "entry_at w new = None" and "ccount c < cmax c"
  shows "\<exists>t. hash_insert (hashtable c) k (k, new) = Some (cache_abs c w k = None, t) \<and>
    (let c' = (if cache_abs c w k = None then c\<lparr>hashtable := t, ccount := ccount c + 1\<rparr> else c\<lparr>hashtable := t\<rparr>);
         w' = (if cache_abs c w k = None
               then w\<lparr>entry_at := (entry_at w)(new \<mapsto> (d, now)), refcount := (refcount w)(d := refcount w d + 1)\<rparr>
               else w)
     in cache_inv c' w' \<and> cache_abs c' w' = (if cache_abs c w k = None then (cache_abs c w)(k \<mapsto> d) else cache_abs c w) \<and>
        extern_refs c' w' = extern_refs c w)"
proof -
  let ?h = "hashtable c"
  have inv: "hash_inv ?h" and key: "keyf ?h (k, new) = k" using assms(1) by (auto simp: cache_inv_def)
  have dom: "cache_abs c w k = None \<longleftrightarrow> hash_abs ?h k = None" by (rule cache_abs_dom [OF assms(1)])
  from hash_insert_ok [OF inv key] obtain t where
    t: "hash_insert ?h k (k, new) = Some (hash_abs ?h k = None, t)" "hash_inv t" "same_client ?h t"
      "hash_abs t = (if hash_abs ?h k = None then (hash_abs ?h)(k \<mapsto> (k, new)) else hash_abs ?h)" by blast
  show ?thesis
  proof (cases "hash_abs ?h k = None")
    case False
    have same: "hash_abs t = hash_abs ?h" using t(4) unfolding if_not_P [OF False] .
    then have abs: "cache_abs (c\<lparr>hashtable := t\<rparr>) w = cache_abs c w" by (simp add: cache_abs_def fun_eq_iff)
    have "hash_count t = hash_count ?h" using hash_count_card [OF inv] hash_count_card [OF t(2)] same by simp
    then have "cache_inv (c\<lparr>hashtable := t\<rparr>) w"
      using assms(1) t(2,3) same unfolding cache_inv_def same_client_def by simp
    then show ?thesis using t(1) False dom abs by (auto simp: Let_def extern_refs_def)
  next
    case True
    let ?c = "c\<lparr>hashtable := t, ccount := ccount c + 1\<rparr>"
    let ?w = "w\<lparr>entry_at := (entry_at w)(new \<mapsto> (d, now)), refcount := (refcount w)(d := refcount w d + 1)\<rparr>"
    have other: "snd f \<noteq> new" if "hash_abs ?h l = Some f" for l f
      using assms(1,2) that unfolding cache_inv_def by metis
    have m: "hash_abs t = (hash_abs ?h)(k \<mapsto> (k, new))" using t(4) True by simp
    have abs: "cache_abs ?c ?w = (cache_abs c w)(k \<mapsto> d)"
      using other by (intro cache_abs_eqI) (auto simp: m cache_abs_def split: option.splits)
    have count: "hash_count t = hash_count ?h + 1"
      using hash_count_card [OF inv] hash_count_card [OF t(2)] m True finite_hash_abs [of ?h]
      by (simp add: card_insert_if domIff)
    have i: "cache_inv ?c ?w"
      using assms(1,3) t(2,3) count by (auto simp: cache_inv_def same_client_def m dest: other)
    have "cache_abs c w k = None" using True dom by simp
    from held_upd [OF held_finite [OF assms(1)] this, where d = d] have "extern_refs ?c ?w = extern_refs c w"
      by (auto simp: extern_refs_def abs [simplified] fun_eq_iff)
    then show ?thesis using t(1) True dom abs i by (auto simp: Let_def)
  qed
qed

text \<open>
  C23: \<open>tdx_cache_insert\<close> into a cache that satisfies its invariant returns and keeps it, whatever
  the hashes are: the cache never holds more than its capacity, what it holds afterwards is what it
  held, less one entry if it was full, with the new group unless its hash was still there; and
  the references to every group that the cache does not own are untouched, so that every increment
  of a reference count has its entry and every entry dropped gives its reference back.
\<close>

theorem tdx_cache_insert_spec:
  assumes "cache_inv c w" and "entry_at w new = None"
  shows "\<exists>c' w' m v. tdx_cache_insert c w k d now new = Some (c', w') \<and> cache_inv c' w' \<and>
    ccount c' \<le> cmax c' \<and> cmax c' = cmax c \<and> extern_refs c' w' = extern_refs c w \<and>
    (if ccount c < cmax c then m = cache_abs c w
     else if cmax c = 0 then m = cache_abs c w
     else cache_abs c w v \<noteq> None \<and> m = (cache_abs c w)(v := None)) \<and>
    cache_abs c' w' = (if 0 < cmax c \<and> m k = None then m(k \<mapsto> d) else m)"
proof -
  from cache_evict_ok [OF assms(1)] obtain ok c1 w1 v where
    e: "cache_evict c w = Some (ok, c1, w1)" "cache_inv c1 w1" "cmax c1 = cmax c" "ok \<longleftrightarrow> 0 < cmax c"
      "ok \<longrightarrow> ccount c1 < cmax c1" "ccount c < cmax c \<or> \<not> ok \<longrightarrow> c1 = c \<and> w1 = w"
      "ccount c = cmax c \<and> ok \<longrightarrow> cache_abs c w v \<noteq> None \<and> cache_abs c1 w1 = (cache_abs c w)(v := None)"
      "extern_refs c1 w1 = extern_refs c w" "\<forall>a. entry_at w a = None \<longrightarrow> entry_at w1 a = None"
    by (elim exE conjE) (rule that)
  have full: "\<not> ccount c < cmax c \<Longrightarrow> ccount c = cmax c" using assms(1) by (simp add: cache_inv_def)
  show ?thesis
  proof (cases ok)
    case False
    then show ?thesis using e assms(1)
      by (intro exI [of _ c] exI [of _ w] exI [of _ "cache_abs c w"]) (auto simp: tdx_cache_insert_def cache_inv_def)
  next
    case True
    have new: "entry_at w1 new = None" using e(9) assms(2) by blast
    then have undo: "(entry_at w1)(new := None) = entry_at w1" by (auto simp: fun_eq_iff)
    from cache_add [OF e(2) new, of k d now] e(5) True obtain t where
      t: "hash_insert (hashtable c1) k (k, new) = Some (cache_abs c1 w1 k = None, t)" and
      s: "let c' = (if cache_abs c1 w1 k = None then c1\<lparr>hashtable := t, ccount := ccount c1 + 1\<rparr> else c1\<lparr>hashtable := t\<rparr>);
         w' = (if cache_abs c1 w1 k = None
               then w1\<lparr>entry_at := (entry_at w1)(new \<mapsto> (d, now)), refcount := (refcount w1)(d := refcount w1 d + 1)\<rparr>
               else w1)
        in cache_inv c' w' \<and> cache_abs c' w' = (if cache_abs c1 w1 k = None then (cache_abs c1 w1)(k \<mapsto> d) else cache_abs c1 w1) \<and>
        extern_refs c' w' = extern_refs c1 w1" by blast
    let ?c = "if cache_abs c1 w1 k = None then c1\<lparr>hashtable := t, ccount := ccount c1 + 1\<rparr> else c1\<lparr>hashtable := t\<rparr>"
    let ?w = "if cache_abs c1 w1 k = None
               then w1\<lparr>entry_at := (entry_at w1)(new \<mapsto> (d, now)), refcount := (refcount w1)(d := refcount w1 d + 1)\<rparr>
               else w1"
    have r: "tdx_cache_insert c w k d now new = Some (?c, ?w)"
      using e(1) True t undo by (simp add: tdx_cache_insert_def Let_def)
    have i: "cache_inv ?c ?w" "extern_refs ?c ?w = extern_refs c w"
      "cache_abs ?c ?w = (if cache_abs c1 w1 k = None then (cache_abs c1 w1)(k \<mapsto> d) else cache_abs c1 w1)"
      using s e(8) by (simp_all only: Let_def)
    have "ccount ?c \<le> cmax ?c" "cmax ?c = cmax c" using i(1) e(3) by (auto simp: cache_inv_def split: if_splits)
    moreover have "if ccount c < cmax c then cache_abs c1 w1 = cache_abs c w
     else if cmax c = 0 then cache_abs c1 w1 = cache_abs c w
     else cache_abs c w v \<noteq> None \<and> cache_abs c1 w1 = (cache_abs c w)(v := None)"
      using e(4,6,7) True full by auto
    moreover have "cache_abs ?c ?w = (if 0 < cmax c \<and> cache_abs c1 w1 k = None then (cache_abs c1 w1)(k \<mapsto> d) else cache_abs c1 w1)"
      using i(3) e(4) True by simp
    ultimately show ?thesis using r i(1,2) by blast
  qed
qed

lemma create_inv:
  "cache_inv (tdx_cache_create n) w" "cache_abs (tdx_cache_create n) w = Map.empty"
proof -
  have eq: "entry_equal k e \<longleftrightarrow> entry_key e = k" for k e by (auto simp: entry_equal_def entry_key_def)
  have key: "entry_key = fst" by (simp add: fun_eq_iff entry_key_def)
  have i: "hash_inv (hashtable (tdx_cache_create n))" "hash_abs (hashtable (tdx_cache_create n)) = Map.empty"
    "keyf (hashtable (tdx_cache_create n)) = fst"
    using hash_create_ok [OF eq] by (simp_all add: tdx_cache_create_def key)
  show "cache_inv (tdx_cache_create n) w" "cache_abs (tdx_cache_create n) w = Map.empty"
  proof -
    have d: "deletef (hashtable (tdx_cache_create n)) = entry_delete" "ccount (tdx_cache_create n) = 0"
      "hash_count (hashtable (tdx_cache_create n)) = 0"
      by (simp_all add: tdx_cache_create_def hash_create_def hash_count_def)
    then show "cache_inv (tdx_cache_create n) w" "cache_abs (tdx_cache_create n) w = Map.empty"
      using i by (simp_all add: cache_inv_def cache_abs_def fun_eq_iff)
  qed
qed

theorem tdx_cache_insert_spec_witness:
  "\<exists>c' w'. tdx_cache_insert (tdx_cache_create 2) \<lparr>entry_at = Map.empty, refcount = \<lambda>_. 0, closed = []\<rparr>
     HashClear 7 100 1 = Some (c', w') \<and> cache_abs c' w' = [HashClear \<mapsto> 7]"
proof -
  let ?c = "tdx_cache_create 2" and ?w = "\<lparr>entry_at = Map.empty, refcount = \<lambda>_. 0, closed = []\<rparr>"
  have "ccount ?c = 0" "cmax ?c = 2" "entry_at ?w 1 = None" by (simp_all add: tdx_cache_create_def)
  then show ?thesis
    using tdx_cache_insert_spec [OF create_inv(1) [of 2 ?w], of 1 HashClear 7 100] create_inv(2) [of 2 ?w] by auto
qed

text \<open>
  \<open>tdx_cache_lookup\<close> returns the group the cache holds for the hash, or \<open>NULL\<close>, counts the
  query and the hit, and changes neither what is cached nor any reference count.
\<close>

theorem tdx_cache_lookup_spec:
  assumes "cache_inv c w"
  shows "\<exists>c' w'. tdx_cache_lookup c w k now = Some (cache_abs c w k, c', w') \<and> cache_inv c' w' \<and>
    cache_abs c' w' = cache_abs c w \<and> refcount w' = refcount w \<and> queries c' = queries c + 1 \<and>
    chits c' = (if cache_abs c w k = None then chits c else chits c + 1)"
proof -
  let ?h = "hashtable c"
  have inv: "hash_inv ?h" using assms by (simp add: cache_inv_def)
  from hash_lookup_ok [OF inv, of k] obtain t where
    t: "hash_lookup ?h k = Some (case hash_abs ?h k of None \<Rightarrow> HASH_EMPTY | Some e \<Rightarrow> Entry e, t)"
      "hash_inv t" "same_client ?h t" "hash_abs t = hash_abs ?h" by blast
  have count: "hash_count t = hash_count ?h" using hash_count_card [OF inv] hash_count_card [OF t(2)] t(4) by simp
  show ?thesis
  proof (cases "hash_abs ?h k")
    case None
    then show ?thesis using t assms count
      by (auto simp: tdx_cache_lookup_def cache_abs_def cache_inv_def same_client_def Let_def fun_eq_iff)
  next
    case (Some e)
    then obtain d u where d: "entry_at w (snd e) = Some (d, u)"
      using assms unfolding cache_inv_def by (metis not_None_eq prod.exhaust)
    show ?thesis using t assms count Some d
      by (auto simp: tdx_cache_lookup_def cache_abs_def cache_inv_def same_client_def Let_def fun_eq_iff
          split: option.splits)
  qed
qed

theorem tdx_cache_lookup_spec_witness:
  "\<exists>c' w'. tdx_cache_lookup (tdx_cache_create 2) \<lparr>entry_at = Map.empty, refcount = \<lambda>_. 0, closed = []\<rparr>
     HashClear 100 = Some (None, c', w')"
  using tdx_cache_lookup_spec [OF create_inv(1), of 2 "\<lparr>entry_at = Map.empty, refcount = \<lambda>_. 0, closed = []\<rparr>" HashClear 100]
    create_inv(2) by auto

text \<open>
  \<open>entry_find_oldest\<close> is described as finding the oldest entry with the smallest reference count,
  but it never moves to an entry that was used later: of one entry with three references and a
  later one with a single reference it keeps the first.
\<close>

lemma entry_find_oldest_keeps:
  "let w = \<lparr>entry_at = [1 \<mapsto> (10, 100), 2 \<mapsto> (20, 101)], refcount = (\<lambda>_. 0)(10 := 3, 20 := 1), closed = []\<rparr> in
   fold (entry_find_oldest w) [(HashClear, 1), (HashClear, 2)] None = Some (HashClear, 1)"
  by (simp add: entry_find_oldest_def)

end
