(* ===== verification/Token.thy ===== *)
theory Token
  imports Hash
begin

text \<open>
  Storage tokens and their text form (\<open>storage/interface.c\<close>), and serial-number comparison
  (\<open>lib/sequence.c\<close>). A \<open>TOKEN\<close> is its 18 octets: the type, the class and the 16 octets that
  belong to the storage method.
\<close>

type_synonym TOKEN = octets

definition TOKEN_SIZE :: nat where "TOKEN_SIZE = 18"

definition c_isxdigit :: "char \<Rightarrow> bool" where
  "c_isxdigit c \<longleftrightarrow> c_isdigit c \<or> (65 \<le> ord c \<and> ord c \<le> 70) \<or> (97 \<le> ord c \<and> ord c \<le> 102)"

text \<open>
  The text is a C string. \<open>strchr (text + 1, '@')\<close> is the first \<open>@\<close> from the second octet on; the
  loop runs up to it.
\<close>

definition IsToken :: "octets option \<Rightarrow> bool" where
  "IsToken text =
     (case text of
        None \<Rightarrow> False
      | Some s \<Rightarrow>
          if length s \<noteq> TOKEN_SIZE * 2 + 2 then False
          else if s ! 0 \<noteq> CHR ''@'' then False
          else if memchr s 1 (length s - 1) (CHR ''@'') \<noteq> Some (TOKEN_SIZE * 2 + 1) then False
          else list_all (\<lambda>c. c_isxdigit c \<and> c_toupper c = c) (takeWhile (\<lambda>c. c \<noteq> CHR ''@'') (drop 1 s)))"

definition TokenToText :: "TOKEN \<Rightarrow> octets" where
  "TokenToText token =
     CHR ''@'' # concat (map (\<lambda>b. [hexdigits ! (ord b div 16), hexdigits ! (ord b mod 16)]) token) @ ''@''"

definition hextodec :: "char \<Rightarrow> int" where
  "hextodec c = (if c_isdigit c then int (ord c) - 48 else int (ord (c_toupper c)) - 65 + 10)"

fun token_loop :: "nat \<Rightarrow> octets \<Rightarrow> octets" where
  "token_loop (Suc n) (a # b # p) = chr (nat ((hextodec a * 16 + hextodec b) mod 256)) # token_loop n p"
| "token_loop _ _ = []"

definition TextToToken :: "octets \<Rightarrow> TOKEN" where
  "TextToToken text =
     (if \<not> IsToken (Some text) then replicate TOKEN_SIZE NUL else token_loop TOKEN_SIZE (drop 1 text))"

text \<open>RFC 1982 on \<open>unsigned long\<close>; \<open>INT_MAX\<close> is the undefined result.\<close>

definition seq_lcompare :: "64 word \<Rightarrow> 64 word \<Rightarrow> int" where
  "seq_lcompare i1 i2 =
     (if i1 = i2 then 0
      else if (i1 < i2 \<and> i2 - i1 < 1 + - 1 div 2) \<or> (i1 > i2 \<and> i1 - i2 > 1 + - 1 div 2) then - 1
      else if (i1 < i2 \<and> i2 - i1 > 1 + - 1 div 2) \<or> (i1 > i2 \<and> i1 - i2 < 1 + - 1 div 2) then 1
      else 2147483647)"

section \<open>The text form of a token\<close>

definition upper_hex :: "char \<Rightarrow> bool" where
  "upper_hex c \<longleftrightarrow> c_isxdigit c \<and> c_toupper c = c"

lemma upper_hex_digit: "n < 16 \<Longrightarrow> upper_hex (hexdigits ! n) \<and> hextodec (hexdigits ! n) = int n"
proof -
  have "\<forall>n\<in>set [0..<16]. upper_hex (hexdigits ! n) \<and> hextodec (hexdigits ! n) = int n" by code_simp
  then show "n < 16 \<Longrightarrow> ?thesis" by simp
qed

lemma upper_hex_value:
  assumes "upper_hex c"
  shows "0 \<le> hextodec c \<and> hextodec c < 16 \<and> hexdigits ! nat (hextodec c) = c"
proof -
  have digits: "\<forall>n\<in>set [0..<10]. hexdigits ! n = chr (48 + n)"
    and letters: "\<forall>n\<in>set [0..<6]. hexdigits ! (10 + n) = chr (65 + n)" by code_simp+
  have "\<not> (97 \<le> ord c \<and> ord c \<le> 102)"
  proof
    assume "97 \<le> ord c \<and> ord c \<le> 102"
    then have "ord (c_toupper c) = ord c - 32" by (auto simp: c_toupper_def c_islower_def)
    moreover have "c_toupper c = c" using assms by (simp add: upper_hex_def)
    ultimately have "ord c = ord c - 32" by metis
    then show False using \<open>97 \<le> ord c \<and> ord c \<le> 102\<close> by linarith
  qed
  then consider "48 \<le> ord c" "ord c \<le> 57" | "65 \<le> ord c" "ord c \<le> 70"
    using assms by (auto simp: upper_hex_def c_isxdigit_def c_isdigit_def)
  then show ?thesis
  proof cases
    case 1
    then have "hextodec c = int (ord c) - 48" by (simp add: hextodec_def c_isdigit_def)
    moreover from this have "nat (hextodec c) = ord c - 48" by linarith
    moreover have "hexdigits ! (ord c - 48) = chr (48 + (ord c - 48))" using digits 1 by auto
    ultimately show ?thesis using 1 by simp
  next
    case 2
    then have "c_toupper c = c" by (simp add: c_toupper_def c_islower_def)
    with 2 have "hextodec c = int (ord c) - 55" by (simp add: hextodec_def c_isdigit_def)
    moreover from this 2 have "nat (hextodec c) = 10 + (ord c - 65)" by linarith
    moreover have "hexdigits ! (10 + (ord c - 65)) = chr (65 + (ord c - 65))"
      using bspec [OF letters, of "ord c - 65"] 2 by simp
    moreover have "chr (65 + (ord c - 65)) = c" using 2 by simp
    ultimately show ?thesis using 2 by simp
  qed
qed

lemma upper_hex_not_at: "upper_hex c \<Longrightarrow> c \<noteq> CHR ''@''"
  using upper_hex_value [of "CHR ''@''"] by (auto simp: upper_hex_def c_isxdigit_def c_isdigit_def ord_def)

text \<open>The grammar of the text form: \<open>@\<close>, 36 upper-case hexadecimal digits, \<open>@\<close>.\<close>

lemma IsToken_tests:
  "IsToken (Some s) \<longleftrightarrow> length s = 38 \<and> s ! 0 = CHR ''@'' \<and> memchr s 1 37 (CHR ''@'') = Some 37 \<and>
     list_all upper_hex (takeWhile (\<lambda>c. c \<noteq> CHR ''@'') (drop 1 s))"
  unfolding IsToken_def TOKEN_SIZE_def upper_hex_def by (cases "length s = 38") simp_all

lemma memchr_behind:
  "memchr (a # d @ z # r) 1 (length d + 1) z = Some (length d + 1) \<longleftrightarrow> z \<notin> set d"
proof -
  have at: "(a # d @ z # r) ! Suc i = d ! i" if "i < length d" for i
    using that by (simp add: nth_append)
  have "memchr (a # d @ z # r) 1 (length d + 1) z = Some (length d + 1) \<longleftrightarrow>
      (\<forall>m. 1 \<le> m \<and> m < length d + 1 \<longrightarrow> (a # d @ z # r) ! m \<noteq> z)"
    by (simp add: memchr_Some nth_append)
  also have "\<dots> \<longleftrightarrow> (\<forall>i<length d. (a # d @ z # r) ! Suc i \<noteq> z)"
  proof (intro iffI allI impI)
    fix m assume "\<forall>i<length d. (a # d @ z # r) ! Suc i \<noteq> z" "1 \<le> m \<and> m < length d + 1"
    then show "(a # d @ z # r) ! m \<noteq> z" by (cases m) simp_all
  next
    fix i assume "\<forall>m. 1 \<le> m \<and> m < length d + 1 \<longrightarrow> (a # d @ z # r) ! m \<noteq> z" "i < length d"
    then show "(a # d @ z # r) ! Suc i \<noteq> z" by (elim allE [of _ "Suc i"]) simp
  qed
  also have "\<dots> \<longleftrightarrow> z \<notin> set d" using at by (auto simp: in_set_conv_nth)
  finally show ?thesis .
qed

lemma IsToken_iff:
  "IsToken (Some s) \<longleftrightarrow> (\<exists>d. s = CHR ''@'' # d @ ''@'' \<and> length d = 36 \<and> list_all upper_hex d)"
proof
  assume t: "IsToken (Some s)"
  then have "length s = 38" by (simp add: IsToken_tests)
  then obtain a u where s: "s = a # u" "length u = 37" by (cases s) auto
  then obtain d z where d: "u = d @ [z]" "length d = 36" by (cases u rule: rev_cases) auto
  have z: "s ! 37 = z" "s ! 0 = a" using s d by (simp_all add: nth_append)
  have az: "a = CHR ''@''" "z = CHR ''@''" using t z by (auto simp: IsToken_tests memchr_Some)
  have "CHR ''@'' \<notin> set d" using t s d az memchr_behind [of a d z "[]"] by (simp add: IsToken_tests)
  then have "takeWhile (\<lambda>c. c \<noteq> CHR ''@'') (drop 1 s) = d"
    using s d az by (auto simp: takeWhile_tail takeWhile_eq_all_conv)
  then show "\<exists>d. s = CHR ''@'' # d @ ''@'' \<and> length d = 36 \<and> list_all upper_hex d"
    using s d az t by (auto simp: IsToken_tests)
next
  assume "\<exists>d. s = CHR ''@'' # d @ ''@'' \<and> length d = 36 \<and> list_all upper_hex d"
  then obtain d where d: "s = CHR ''@'' # d @ ''@''" "length d = 36" "list_all upper_hex d" by blast
  have na: "CHR ''@'' \<notin> set d" using d(3) upper_hex_not_at by (auto simp: list_all_iff)
  then have "takeWhile (\<lambda>c. c \<noteq> CHR ''@'') d = d" by (auto simp: takeWhile_eq_all_conv)
  then have "takeWhile (\<lambda>c. c \<noteq> CHR ''@'') (drop 1 s) = d"
    using d na by (simp add: takeWhile_tail)
  then show "IsToken (Some s)"
    using d na memchr_behind [of "CHR ''@''" d "CHR ''@''" "[]"] by (simp add: IsToken_tests)
qed

lemma token_loop_text:
  "length bs = n \<Longrightarrow>
   token_loop n (concat (map (\<lambda>b. [hexdigits ! (ord b div 16), hexdigits ! (ord b mod 16)]) bs) @ r) = bs"
proof (induction bs arbitrary: n)
  case (Cons b bs)
  have "ord b div 16 < 16" using ord_lt_256 [of b] by linarith
  then have "hextodec (hexdigits ! (ord b div 16)) = int (ord b div 16)"
    "hextodec (hexdigits ! (ord b mod 16)) = int (ord b mod 16)"
    using upper_hex_digit by auto
  moreover have "int (ord b div 16) * 16 + int (ord b mod 16) = int (ord b)"
    unfolding zdiv_int zmod_int by simp
  moreover have "int (ord b) mod 256 = int (ord b)" using ord_lt_256 [of b] by simp
  ultimately show ?case using Cons by (cases n) simp_all
qed simp

lemma text_token_loop:
  "length d = 2 * n \<Longrightarrow> list_all upper_hex d \<Longrightarrow>
   concat (map (\<lambda>b. [hexdigits ! (ord b div 16), hexdigits ! (ord b mod 16)]) (token_loop n (d @ r))) = d"
proof (induction n arbitrary: d)
  case (Suc n)
  then obtain a b e where d: "d = a # b # e" "length e = 2 * n"
    by (cases d; cases "tl d") auto
  have v: "0 \<le> hextodec a" "hextodec a < 16" "hexdigits ! nat (hextodec a) = a"
    "0 \<le> hextodec b" "hextodec b < 16" "hexdigits ! nat (hextodec b) = b"
    using Suc.prems(2) d(1) upper_hex_value by auto
  let ?v = "hextodec a * 16 + hextodec b"
  have "?v mod 256 = ?v" using v by simp
  moreover have "nat ?v mod 256 = nat ?v" using v by (simp add: nat_less_iff)
  moreover have "nat ?v = 16 * nat (hextodec a) + nat (hextodec b)" using v by linarith
  then have "nat ?v div 16 = nat (hextodec a)" "nat ?v mod 16 = nat (hextodec b)" using v by auto
  ultimately show ?case using Suc.IH [OF d(2)] Suc.prems(2) d(1) v by simp
qed simp

lemma TokenToText_token:
  assumes len: "length t = TOKEN_SIZE"
  shows "IsToken (Some (TokenToText t))" "TextToToken (TokenToText t) = t"
proof -
  let ?d = "concat (map (\<lambda>b. [hexdigits ! (ord b div 16), hexdigits ! (ord b mod 16)]) t)"
  have "length ?d = 2 * length t" by (induction t) auto
  moreover have "list_all upper_hex ?d"
  proof (induction t)
    case (Cons b bs)
    have "ord b div 16 < 16" using ord_lt_256 [of b] by linarith
    then show ?case using Cons upper_hex_digit by simp
  qed simp
  ultimately show i: "IsToken (Some (TokenToText t))"
    using len by (auto simp: IsToken_iff TokenToText_def TOKEN_SIZE_def)
  show "TextToToken (TokenToText t) = t"
    using i token_loop_text [OF len] by (simp add: TextToToken_def) (simp add: TokenToText_def)
qed

text \<open>
  C30: the text of a token is a token and reads back as it; and the text of what a valid text
  reads as is that text, so the two forms are in bijection.
\<close>

theorem token_text_roundtrip:
  "(length t = TOKEN_SIZE \<longrightarrow> IsToken (Some (TokenToText t)) \<and> TextToToken (TokenToText t) = t) \<and>
   (IsToken (Some s) \<longrightarrow> TokenToText (TextToToken s) = s)"
proof -
  have "TokenToText (TextToToken s) = s" if i: "IsToken (Some s)"
  proof -
  from i obtain d where d: "s = CHR ''@'' # d @ ''@''" "length d = 36" "list_all upper_hex d"
    by (auto simp: IsToken_iff)
  show "TokenToText (TextToToken s) = s"
    using i text_token_loop [of d 18 "''@''"] d by (simp add: TokenToText_def TextToToken_def TOKEN_SIZE_def)
  qed
  then show ?thesis using TokenToText_token by blast
qed

theorem token_text_roundtrip_witness:
  "TextToToken (TokenToText (replicate 18 (chr 171))) = replicate 18 (chr 171)"
  using token_text_roundtrip [of "replicate 18 (chr 171)" "[]"] by (simp add: TOKEN_SIZE_def)

lemma unat_diff_wrap: "unat (b - a) = (if a \<le> b then unat b - unat a else 2 ^ 64 + unat b - unat a)"
  for a b :: "64 word"
  by (simp add: unat_sub_if' word_le_nat_alt) linarith

text \<open>
  \<open>seq_lcompare\<close> is the serial-number comparison of RFC 1982: it depends only on the distance
  from the first number to the second modulo 2 to the 64, says less at a distance below half the
  space, greater above, and undefined exactly half the space apart.
\<close>

theorem seq_lcompare_rfc1982:
  "seq_lcompare a b =
     (let d = unat (b - a) in
      if d = 0 then 0 else if d < 2 ^ 63 then - 1 else if d > 2 ^ 63 then 1 else 2147483647)"
proof -
  have half: "unat (1 + - 1 div 2 :: 64 word) = 2 ^ 63" by simp
  have lt: "unat a < 2 ^ 64" "unat b < 2 ^ 64" using unsigned_less [of a] unsigned_less [of b] by simp_all
  have "a = b \<longleftrightarrow> unat a = unat b" by (rule word_unat_eq_iff)
  then show ?thesis
    using lt unfolding seq_lcompare_def Let_def word_less_nat_alt half unat_diff_wrap word_le_nat_alt
    by (cases "unat a" "unat b" rule: linorder_cases) (simp_all, (intro conjI impI; linarith))
qed

end
