(* ===== verification/Dbz.thy ===== *)
theory Dbz
  imports Token
begin

text \<open>
  The history database (\<open>lib/dbz.c\<close>), in its default form (the code under \<open>DO_TAGGED_HASH\<close> is not
  modelled). Two tables of the same shape, \<open>.hash\<close> with six octets of every key and \<open>.index\<close> with
  the offset of its line, are hashed with linear probing in runs of 101 places; a run that is full
  continues in the next table, appended to the file.

  A table is its part in memory, if any, and its file; places past the end of a file read as zero.
  \<open>read_bad\<close> and \<open>write_bad\<close> are the places where the system call fails. A write that would block
  is repeated by the code until it goes through or fails. The unending loop of the search is a
  \<open>partial_function\<close>.
\<close>

section \<open>Tables\<close>

datatype incore_val = INCORE_NO | INCORE_MEM | INCORE_MMAP

record 'r hash_table =
  incore :: incore_val
  core :: "nat \<Rightarrow> 'r"
  tfile :: "nat \<Rightarrow> 'r"
  read_bad :: "nat \<Rightarrow> bool"
  write_bad :: "nat \<Rightarrow> bool"

definition DBZ_INTERNAL_HASH_SIZE :: nat where "DBZ_INTERNAL_HASH_SIZE = 6"
definition MAXRUN :: int where "MAXRUN = 100"
definition NUSEDS :: nat where "NUSEDS = 11"
definition DEFSIZE :: int where "DEFSIZE = 10000000"

definition empty_rec :: octets where "empty_rec = replicate DBZ_INTERNAL_HASH_SIZE NUL"

record searcher =
  place :: nat
  tabno :: nat
  run :: int
  shash :: HASH
  shorthash :: nat
  aborted :: bool

record dbzconfig =
  tsize :: int
  used :: "int list"
  valuesize :: int
  fillpercent :: int

record dbz =
  opendb :: bool
  readonly :: bool
  conf :: dbzconfig
  writethrough :: bool
  dirty :: bool
  idxtab :: "int hash_table"
  etab :: "octets hash_table"
  srch :: searcher
  prevp :: bool

text \<open>\<open>prevp\<close> is \<open>&srch\<close> (\<open>True\<close>) or \<open>FRESH\<close>.\<close>

definition slots :: "dbz \<Rightarrow> nat" where
  "slots db = nat (tsize (conf db))"

text \<open>The bottom half of the hash, read as a little-endian \<open>unsigned long\<close>.\<close>

definition le_value :: "octets \<Rightarrow> nat" where
  "le_value s = foldr (\<lambda>b v. ord b + 256 * v) s 0"

definition start :: "searcher \<Rightarrow> HASH \<Rightarrow> bool \<Rightarrow> searcher" where
  "start sp hash osp =
     (if osp \<and> shash sp = hash then sp\<lparr>run := run sp - 1\<rparr>
      else sp\<lparr>shash := hash, shorthash := le_value (drop (HASH_SIZE - 8) hash) div 2, tabno := 0,
              run := - 1, aborted := False\<rparr>)"

definition read_rec :: "'r hash_table \<Rightarrow> nat \<Rightarrow> nat \<Rightarrow> 'r option" where
  "read_rec tab n p =
     (if incore tab \<noteq> INCORE_NO \<and> p < n then Some (core tab p)
      else if read_bad tab p then None else Some (tfile tab p))"

text \<open>The step to the next location, with the offset of the table searched.\<close>

definition advance :: "nat \<Rightarrow> searcher \<Rightarrow> nat \<Rightarrow> searcher \<times> nat" where
  "advance n sp taboffset =
     (let (sp, taboffset) =
            (if run sp = MAXRUN
             then (sp\<lparr>tabno := tabno sp + 1, run := 0\<rparr>, (tabno sp + 1) * n)
             else (sp\<lparr>run := run sp + 1\<rparr>, taboffset))
      in (sp\<lparr>place := (shorthash sp + nat (run sp)) mod n + taboffset\<rparr>, taboffset))"

partial_function (option) search_loop ::
  "octets hash_table \<Rightarrow> nat \<Rightarrow> searcher \<Rightarrow> nat \<Rightarrow> (bool \<times> searcher) option" where
  "search_loop tab n sp taboffset =
     (case advance n sp taboffset of (sp, taboffset) \<Rightarrow>
        (case read_rec tab n (place sp) of
           None \<Rightarrow> Some (False, sp\<lparr>aborted := True\<rparr>)
         | Some v \<Rightarrow>
             if v = empty_rec then Some (False, sp)
             else if v = take DBZ_INTERNAL_HASH_SIZE (shash sp) then Some (True, sp)
             else search_loop tab n sp taboffset))"

definition search :: "octets hash_table \<Rightarrow> nat \<Rightarrow> searcher \<Rightarrow> (bool \<times> searcher) option" where
  "search tab n sp = (if aborted sp then Some (False, sp) else search_loop tab n sp 0)"

text \<open>
  \<open>set\<close>: the table and the searcher afterwards. What is written through a shared mapping is in the
  file as well.
\<close>

definition set_rec :: "searcher \<Rightarrow> 'r hash_table \<Rightarrow> nat \<Rightarrow> bool \<Rightarrow> 'r \<Rightarrow> bool \<times> searcher \<times> 'r hash_table" where
  "set_rec sp tab n through v =
     (if aborted sp then (False, sp, tab)
      else
        let p = place sp;
            in_mem = (incore tab \<noteq> INCORE_NO \<and> p < n);
            tab1 = (if in_mem then tab\<lparr>core := (core tab)(p := v)\<rparr> else tab)
        in if in_mem \<and> incore tab = INCORE_MMAP
           then (True, sp, tab1\<lparr>tfile := (tfile tab1)(p := v)\<rparr>)
           else if in_mem \<and> \<not> through then (True, sp, tab1)
           else if write_bad tab p then (False, sp\<lparr>aborted := True\<rparr>, tab1)
           else (True, sp, tab1\<lparr>tfile := (tfile tab1)(p := v)\<rparr>))"

section \<open>The interface\<close>

datatype DBZSTORE_RESULT = DBZSTORE_OK | DBZSTORE_EXISTS | DBZSTORE_ERROR

definition dbzexists :: "dbz \<Rightarrow> HASH \<Rightarrow> (bool \<times> dbz) option" where
  "dbzexists db key =
     (if \<not> opendb db then Some (False, db)
      else do { (r, sp) \<leftarrow> search (etab db) (slots db) (start (srch db) key False);
                Some (r, db\<lparr>prevp := False, srch := sp\<rparr>) })"

text \<open>The value found, \<open>None\<close> when the key is not there or its offset cannot be read.\<close>

definition dbzfetch :: "dbz \<Rightarrow> HASH \<Rightarrow> (int option \<times> dbz) option" where
  "dbzfetch db key =
     (let db0 = db\<lparr>prevp := False\<rparr> in
      if \<not> opendb db0 then Some (None, db0)
      else do { (r, sp) \<leftarrow> search (etab db0) (slots db0) (start (srch db0) key False);
                let db1 = db0\<lparr>srch := sp\<rparr>;
                Some (if r then
                        (case read_rec (idxtab db1) (slots db1) (place sp) of
                           Some v \<Rightarrow> (Some v, db1)
                         | None \<Rightarrow> (None, db1\<lparr>srch := sp\<lparr>aborted := True\<rparr>\<rparr>))
                      else (None, db1\<lparr>prevp := True\<rparr>)) })"

definition dbzstore :: "dbz \<Rightarrow> HASH \<Rightarrow> int \<Rightarrow> (DBZSTORE_RESULT \<times> dbz) option" where
  "dbzstore db key data =
     (if \<not> opendb db then Some (DBZSTORE_ERROR, db)
      else if readonly db then Some (DBZSTORE_ERROR, db)
      else do { (r, sp) \<leftarrow> search (etab db) (slots db) (start (srch db) key (prevp db));
                let db1 = db\<lparr>srch := sp\<rparr>;
                if r then Some (DBZSTORE_EXISTS, db1)
                else
                  let c = conf db1;
                      db2 = db1\<lparr>prevp := False, dirty := True,
                                conf := c\<lparr>used := (used c)[0 := used c ! 0 + 1]\<rparr>\<rparr>;
                      evalue = take DBZ_INTERNAL_HASH_SIZE (shash sp);
                      (ok1, sp1, idx) = set_rec sp (idxtab db2) (slots db2) (writethrough db2) data;
                      db3 = db2\<lparr>srch := sp1, idxtab := idx\<rparr>
                  in if \<not> ok1 then Some (DBZSTORE_ERROR, db3)
                     else
                       let (ok2, sp2, et) = set_rec sp1 (etab db3) (slots db3) (writethrough db3) evalue;
                           db4 = db3\<lparr>srch := sp2, etab := et\<rparr>
                       in Some (if ok2 then DBZSTORE_OK else DBZSTORE_ERROR, db4) })"

text \<open>\<open>putcore\<close> writes the part in memory back, unless every store did.\<close>

definition putcore :: "'r hash_table \<Rightarrow> nat \<Rightarrow> bool \<Rightarrow> bool \<times> 'r hash_table" where
  "putcore tab n through =
     (if incore tab = INCORE_MEM then
        if through then (True, tab)
        else if \<exists>p\<in>{..<n}. write_bad tab p then (False, tab)
        else (True, tab\<lparr>tfile := (\<lambda>p. if p < n then core tab p else tfile tab p)\<rparr>)
      else (True, tab))"

text \<open>\<open>getcore\<close>: the part in memory is what the file holds.\<close>

definition getcore :: "'r hash_table \<Rightarrow> 'r hash_table" where
  "getcore tab = (if incore tab = INCORE_NO then tab else tab\<lparr>core := tfile tab\<rparr>)"

definition dbzsync :: "dbz \<Rightarrow> bool \<times> dbz" where
  "dbzsync db =
     (if \<not> opendb db then (False, db)
      else if \<not> dirty db then (True, db)
      else
        let (ok1, idx) = putcore (idxtab db) (slots db) (writethrough db);
            db1 = db\<lparr>idxtab := idx\<rparr>
        in if \<not> ok1 then (False, db1)
           else let (ok2, et) = putcore (etab db1) (slots db1) (writethrough db1) in (ok2, db1\<lparr>etab := et\<rparr>))"

text \<open>
  \<open>dbzinit\<close> on files that can be opened: the tables are read into memory as the options say; the
  configuration was read from \<open>.dir\<close>. The searcher keeps what it held.
\<close>

definition dbzinit :: "dbz \<Rightarrow> dbzconfig \<Rightarrow> bool \<Rightarrow> int hash_table \<Rightarrow> octets hash_table \<Rightarrow> bool \<times> dbz" where
  "dbzinit db c ro idx et =
     (if opendb db then (False, db)
      else (True, db\<lparr>opendb := True, readonly := ro, conf := c, dirty := False, idxtab := getcore idx,
                     etab := getcore et, prevp := False\<rparr>))"

section \<open>Sizing\<close>

definition default_conf :: dbzconfig where
  "default_conf = \<lparr>tsize = DEFSIZE, used = replicate NUSEDS 0, valuesize = 8 + 6, fillpercent = 66\<rparr>"

text \<open>The configuration that \<open>dbzfresh\<close> writes; \<open>None\<close> for a size it refuses.\<close>

definition dbzfresh_conf :: "int \<Rightarrow> dbzconfig option" where
  "dbzfresh_conf sz =
     (if sz \<noteq> 0 \<and> sz < 2 then None
      else Some (if sz \<noteq> 0
                 then default_conf\<lparr>tsize := if sz > 64 * 1024 then sz else 64 * 1024\<rparr>
                 else default_conf))"

definition dbzsize :: "dbzconfig \<Rightarrow> int \<Rightarrow> int" where
  "dbzsize c contents =
     (if contents \<le> 0 then DEFSIZE
      else
        let n = (if fillpercent c > 0 \<and> fillpercent c < 100 then (contents div fillpercent c) * 100
                 else (contents * 3) div 2)
        in if n < 64 * 1024 then 64 * 1024 else n)"

text \<open>
  The configuration \<open>dbzagain\<close> derives from the old one \<open>c\<close>; the fill percentage it sizes by is that
  of the global configuration \<open>g\<close>.
\<close>

definition dbzagain_conf :: "dbzconfig \<Rightarrow> dbzconfig \<Rightarrow> dbzconfig" where
  "dbzagain_conf g c =
     (let top = foldl max 0 (used c);
          newtable = (0 \<in> set (used c) \<or> top = 0);
          c1 = c\<lparr>used := 0 # butlast (used c)\<rparr>;
          newsize = dbzsize g top
      in if \<not> newtable \<or> newsize > tsize c1 then c1\<lparr>tsize := newsize\<rparr> else c1)"

section \<open>The sequence of locations\<close>

text \<open>
  The table number, the run and the offset of the location that a search reads \<open>j\<close> steps after
  the next one; \<open>seq_place\<close> is the \<open>k\<close>-th place that a fresh search for a key reads.
\<close>

definition loc :: "nat \<Rightarrow> searcher \<Rightarrow> nat \<Rightarrow> nat \<Rightarrow> nat \<times> nat \<times> nat" where
  "loc n sp off j =
     (let m = nat (run sp + 1) + j in
      if m \<le> 100 then (tabno sp, m, off)
      else let t = tabno sp + 1 + (m - 101) div 101 in (t, (m - 101) mod 101, t * n))"

definition loc_place :: "nat \<Rightarrow> nat \<Rightarrow> nat \<times> nat \<times> nat \<Rightarrow> nat" where
  "loc_place n sh = (\<lambda>(t, r, off). (sh + r) mod n + off)"

definition at_loc :: "nat \<Rightarrow> searcher \<Rightarrow> nat \<times> nat \<times> nat \<Rightarrow> searcher" where
  "at_loc n sp l = sp\<lparr>tabno := fst l, run := int (fst (snd l)), place := loc_place n (shorthash sp) l\<rparr>"

definition run_ok :: "searcher \<Rightarrow> bool" where
  "run_ok sp \<longleftrightarrow> - 1 \<le> run sp \<and> run sp \<le> 100"

lemma advance_loc:
  "run_ok sp \<Longrightarrow> advance n sp off = (at_loc n sp (loc n sp off 0), snd (snd (loc n sp off 0)))"
  by (auto simp: advance_def loc_def at_loc_def loc_place_def run_ok_def MAXRUN_def Let_def)

lemma loc_run: "fst (snd (loc n sp off j)) \<le> 100"
  using mod_less_divisor [of 101 "nat (run sp + 1) + j - 101"] by (auto simp: loc_def Let_def)

lemma loc_Suc:
  assumes "run_ok sp"
  shows "loc n (at_loc n sp (loc n sp off 0)) (snd (snd (loc n sp off 0))) j = loc n sp off (Suc j)"
proof (cases "run sp = 100")
  case True
  show ?thesis
  proof (cases "j \<le> 99")
    case False
    then obtain i where "j = i + 100" by (metis add.commute le_Suc_ex not_less_eq_eq Suc_numeral semiring_norm(5) semiring_norm(8))
    moreover have "(101 + i) div 101 = 1 + i div 101" by simp
    ultimately show ?thesis using True by (auto simp: loc_def at_loc_def Let_def)
  qed (use True in \<open>auto simp: loc_def at_loc_def Let_def\<close>)
next
  case False
  then have "nat (run sp + 1) \<le> 100" using assms unfolding run_ok_def by linarith
  then show ?thesis by (auto simp: loc_def at_loc_def Let_def nat_add_distrib)
qed

lemma loc_sel [simp]:
  "shorthash (at_loc n sp l) = shorthash sp" "shash (at_loc n sp l) = shash sp"
  "aborted (at_loc n sp l) = aborted sp" "place (at_loc n sp l) = loc_place n (shorthash sp) l"
  "tabno (at_loc n sp l) = fst l" "run (at_loc n sp l) = int (fst (snd l))"
  "at_loc n (at_loc n sp l) m = at_loc n sp m"
  by (simp_all add: at_loc_def)

definition no_bad :: "'r hash_table \<Rightarrow> bool" where
  "no_bad tab \<longleftrightarrow> (\<forall>p. \<not> read_bad tab p) \<and> (\<forall>p. \<not> write_bad tab p)"

definition view :: "'r hash_table \<Rightarrow> nat \<Rightarrow> nat \<Rightarrow> 'r" where
  "view tab n p = (if incore tab \<noteq> INCORE_NO \<and> p < n then core tab p else tfile tab p)"

lemma read_view: "no_bad tab \<Longrightarrow> read_rec tab n p = Some (view tab n p)"
  by (simp add: read_rec_def view_def no_bad_def)

definition prefix6 :: "HASH \<Rightarrow> octets" where
  "prefix6 h = take DBZ_INTERNAL_HASH_SIZE h"

text \<open>A search reads on until the first place that is empty or has the key.\<close>

lemma search_loop_stops:
  assumes "no_bad tab" and "run_ok sp"
    and "view tab n (loc_place n (shorthash sp) (loc n sp off j)) \<in> {empty_rec, prefix6 (shash sp)}"
    and "\<forall>i<j. view tab n (loc_place n (shorthash sp) (loc n sp off i)) \<notin> {empty_rec, prefix6 (shash sp)}"
  shows "search_loop tab n sp off =
    Some (view tab n (loc_place n (shorthash sp) (loc n sp off j)) \<noteq> empty_rec, at_loc n sp (loc n sp off j))"
  using assms
proof (induction j arbitrary: sp off)
  case 0
  then show ?case
    by (subst search_loop.simps) (auto simp: advance_loc read_view prefix6_def)
next
  case (Suc j)
  let ?sp = "at_loc n sp (loc n sp off 0)" and ?off = "snd (snd (loc n sp off 0))"
  have v0: "view tab n (loc_place n (shorthash sp) (loc n sp off 0)) \<notin> {empty_rec, prefix6 (shash sp)}"
    using Suc.prems(4) by simp
  have step: "search_loop tab n sp off = search_loop tab n ?sp ?off"
    using v0 Suc.prems(1,2)
    by (subst search_loop.simps) (auto simp: advance_loc read_view prefix6_def split: prod.split)
  have ok: "run_ok ?sp" using loc_run [of n sp off 0] by (simp add: run_ok_def)
  have l: "loc n ?sp ?off i = loc n sp off (Suc i)" for i using loc_Suc [OF Suc.prems(2)] by simp
  have "search_loop tab n ?sp ?off =
      Some (view tab n (loc_place n (shorthash ?sp) (loc n ?sp ?off j)) \<noteq> empty_rec, at_loc n ?sp (loc n ?sp ?off j))"
    using Suc.prems(3,4) by (intro Suc.IH [OF Suc.prems(1) ok]) (auto simp: l)
  then show ?case unfolding step l by simp
qed

text \<open>The search ends, since only finitely many places are taken.\<close>

lemma search_meets_empty:
  assumes "0 < n" and "finite {p. v p \<noteq> empty_rec}"
  shows "\<exists>j. v (loc_place n sh (loc n sp off j)) = empty_rec"
proof -
  obtain b where b: "\<forall>p. v p \<noteq> empty_rec \<longrightarrow> p < b"
    using assms(2) unfolding finite_nat_set_iff_bounded by auto
  let ?j = "101 * (b + 1)"
  obtain t r o' where l: "loc n sp off ?j = (t, r, o')" by (cases "loc n sp off ?j") auto
  have "o' = t * n" "b \<le> t" using l by (auto simp: loc_def Let_def split: if_splits)
  moreover have "t \<le> t * n" using assms(1) by simp
  ultimately have "b \<le> loc_place n sh (loc n sp off ?j)"
    unfolding l loc_place_def prod.case by linarith
  then show ?thesis using b by (metis not_le)
qed

lemma search_ends:
  assumes "no_bad tab" and "run_ok sp" and "0 < n" and "finite {p. view tab n p \<noteq> empty_rec}"
  shows "\<exists>j. view tab n (loc_place n (shorthash sp) (loc n sp off j)) \<in> {empty_rec, prefix6 (shash sp)} \<and>
    (\<forall>i<j. view tab n (loc_place n (shorthash sp) (loc n sp off i)) \<notin> {empty_rec, prefix6 (shash sp)})"
proof -
  let ?P = "\<lambda>j. view tab n (loc_place n (shorthash sp) (loc n sp off j)) \<in> {empty_rec, prefix6 (shash sp)}"
  from search_meets_empty [OF assms(3,4)] have "\<exists>j. ?P j" by blast
  then show ?thesis using LeastI_ex [of ?P] not_less_Least [of _ ?P] by blast
qed

section \<open>What the database holds\<close>

text \<open>
  The places of a fresh search for a key, and the place where it is found: the first one, before
  any empty place, that has its six octets.
\<close>

definition key_place :: "dbz \<Rightarrow> HASH \<Rightarrow> nat \<Rightarrow> nat" where
  "key_place db h k =
     (le_value (drop (HASH_SIZE - 8) h) div 2 + k mod 101) mod slots db + k div 101 * slots db"

definition found_at :: "dbz \<Rightarrow> HASH \<Rightarrow> nat \<Rightarrow> bool" where
  "found_at db h k \<longleftrightarrow> prefix6 h \<noteq> empty_rec \<and> view (etab db) (slots db) (key_place db h k) = prefix6 h \<and>
     (\<forall>j<k. view (etab db) (slots db) (key_place db h j) \<notin> {empty_rec, prefix6 h})"

definition absent_at :: "dbz \<Rightarrow> HASH \<Rightarrow> nat \<Rightarrow> bool" where
  "absent_at db h k \<longleftrightarrow> view (etab db) (slots db) (key_place db h k) = empty_rec \<and>
     (\<forall>j<k. view (etab db) (slots db) (key_place db h j) \<notin> {empty_rec, prefix6 h})"

definition dbz_has :: "dbz \<Rightarrow> HASH \<Rightarrow> bool" where
  "dbz_has db h \<longleftrightarrow> (\<exists>k. found_at db h k)"

definition dbz_maps :: "dbz \<Rightarrow> HASH \<Rightarrow> int \<Rightarrow> bool" where
  "dbz_maps db h x \<longleftrightarrow> (\<exists>k. found_at db h k \<and> view (idxtab db) (slots db) (key_place db h k) = x)"

text \<open>An open, writable database without errors, with finitely many keys.\<close>

definition dbz_ok :: "dbz \<Rightarrow> bool" where
  "dbz_ok db \<longleftrightarrow> opendb db \<and> \<not> readonly db \<and> 0 < slots db \<and> no_bad (etab db) \<and> no_bad (idxtab db) \<and>
     finite {p. view (etab db) (slots db) p \<noteq> empty_rec}"

lemma view_update:
  assumes "no_bad tab" and "\<not> aborted sp"
  shows "\<exists>tab'. set_rec sp tab n through v = (True, sp, tab') \<and> no_bad tab' \<and>
    view tab' n = (view tab n)(place sp := v)"
  using assms by (auto simp: set_rec_def no_bad_def view_def Let_def fun_eq_iff)

lemma fresh_loc:
  assumes "\<not> osp \<or> shash sp \<noteq> h"
  shows "loc_place n (shorthash (start sp h osp)) (loc n (start sp h osp) 0 k) =
      (le_value (drop (HASH_SIZE - 8) h) div 2 + k mod 101) mod n + k div 101 * n"
    "fst (loc n (start sp h osp) 0 k) = k div 101" "run_ok (start sp h osp)"
    "shash (start sp h osp) = h" "\<not> aborted (start sp h osp)"
proof -
  have s: "start sp h osp = sp\<lparr>shash := h, shorthash := le_value (drop (HASH_SIZE - 8) h) div 2, tabno := 0,
              run := - 1, aborted := False\<rparr>" using assms by (auto simp: start_def)
  have "k div 101 = 1 + (k - 101) div 101 \<and> k mod 101 = (k - 101) mod 101" if "100 < k"
  proof -
    from that obtain i where "k = i + 101" by (metis Suc_leI add.commute le_Suc_ex Suc_numeral semiring_norm(5) semiring_norm(8))
    then show ?thesis by simp
  qed
  then show "loc_place n (shorthash (start sp h osp)) (loc n (start sp h osp) 0 k) =
      (le_value (drop (HASH_SIZE - 8) h) div 2 + k mod 101) mod n + k div 101 * n"
    "fst (loc n (start sp h osp) 0 k) = k div 101"
    by (auto simp: s loc_def loc_place_def Let_def not_le)
  show "run_ok (start sp h osp)" "shash (start sp h osp) = h" "\<not> aborted (start sp h osp)"
    by (simp_all add: s run_ok_def)
qed

lemma fresh_run:
  assumes "\<not> osp \<or> shash sp \<noteq> h"
  shows "fst (snd (loc n (start sp h osp) 0 k)) = k mod 101"
    "shorthash (start sp h osp) = le_value (drop (HASH_SIZE - 8) h) div 2"
proof -
  have "(k - 101) mod 101 = k mod 101" if "100 < k"
    using that mod_add_self2 [of "k - 101" 101] by simp
  then show "fst (snd (loc n (start sp h osp) 0 k)) = k mod 101"
    "shorthash (start sp h osp) = le_value (drop (HASH_SIZE - 8) h) div 2"
    using assms by (auto simp: start_def loc_def Let_def)
qed

text \<open>A search from the beginning answers by \<open>dbz_has\<close> and stops at the place that decides.\<close>

lemma fresh_search:
  assumes "dbz_ok db" and "\<not> osp \<or> shash sp \<noteq> h"
  shows "\<exists>k sp'. search (etab db) (slots db) (start sp h osp) = Some (dbz_has db h, sp') \<and>
    shash sp' = h \<and> \<not> aborted sp' \<and> place sp' = key_place db h k \<and> tabno sp' = k div 101 \<and>
    run sp' = int (k mod 101) \<and> shorthash sp' = le_value (drop (HASH_SIZE - 8) h) div 2 \<and>
    (if dbz_has db h then found_at db h k else absent_at db h k)"
proof -
  let ?sp = "start sp h osp" and ?n = "slots db" and ?v = "view (etab db) (slots db)"
  have ok: "no_bad (etab db)" "0 < ?n" "finite {p. ?v p \<noteq> empty_rec}"
    using assms(1) by (auto simp: dbz_ok_def)
  note fl = fresh_loc [OF assms(2)]
  have kp: "loc_place ?n (shorthash ?sp) (loc ?n ?sp 0 k) = key_place db h k" for k
    by (simp add: fl(1) key_place_def)
  from search_ends [OF ok(1) fl(3) ok(2,3), where off = 0] obtain k where
    k: "?v (key_place db h k) \<in> {empty_rec, prefix6 h}" "\<forall>i<k. ?v (key_place db h i) \<notin> {empty_rec, prefix6 h}"
    unfolding kp fl(4) by blast
  have s: "search (etab db) ?n ?sp = Some (?v (key_place db h k) \<noteq> empty_rec, at_loc ?n ?sp (loc ?n ?sp 0 k))"
    using search_loop_stops [OF ok(1) fl(3), of ?n 0 k] k fl(5) unfolding kp fl(4) by (simp add: search_def)
  have has: "dbz_has db h \<longleftrightarrow> ?v (key_place db h k) \<noteq> empty_rec"
  proof
    assume "dbz_has db h"
    then obtain j where j: "prefix6 h \<noteq> empty_rec" "?v (key_place db h j) = prefix6 h"
        "\<forall>i<j. ?v (key_place db h i) \<notin> {empty_rec, prefix6 h}"
      unfolding dbz_has_def found_at_def by blast
    then have "j = k" using k by (metis insert_iff linorder_neqE_nat)
    then show "?v (key_place db h k) \<noteq> empty_rec" using j by simp
  next
    assume "?v (key_place db h k) \<noteq> empty_rec"
    then show "dbz_has db h" using k unfolding dbz_has_def found_at_def by (intro exI [of _ k]) auto
  qed
  have at: "found_at db h k" if "dbz_has db h"
    using that k has unfolding found_at_def by auto
  have ab: "absent_at db h k" if "\<not> dbz_has db h"
    using that k has unfolding absent_at_def by auto
  show ?thesis
    using s has at ab fl(2,4,5) fresh_run(1) [OF assms(2), of ?n k]
      fresh_run(2) [OF assms(2)] kp [of k]
    by (intro exI [of _ k] exI [of _ "at_loc ?n ?sp (loc ?n ?sp 0 k)"]) simp
qed

section \<open>The operations on what the database holds\<close>

lemma found_unique: "found_at db h j \<Longrightarrow> found_at db h k \<Longrightarrow> j = k"
  unfolding found_at_def by (metis insert_iff linorder_neqE_nat)

lemma absent_not_has: "absent_at db h k \<Longrightarrow> \<not> dbz_has db h"
  unfolding absent_at_def dbz_has_def found_at_def by (metis insert_iff linorder_neqE_nat)

text \<open>\<open>same_tables\<close>: databases that differ at most in the search state and the statistics.\<close>

definition same_tables :: "dbz \<Rightarrow> dbz \<Rightarrow> bool" where
  "same_tables db db' \<longleftrightarrow> etab db' = etab db \<and> idxtab db' = idxtab db \<and> slots db' = slots db \<and>
     opendb db' = opendb db \<and> readonly db' = readonly db"

lemma same_tables_holds:
  assumes "same_tables db db'"
  shows "dbz_ok db' = dbz_ok db" "found_at db' = found_at db" "absent_at db' = absent_at db"
    "dbz_has db' = dbz_has db" "dbz_maps db' = dbz_maps db" "key_place db' = key_place db"
  using assms
  by (auto simp: same_tables_def dbz_ok_def found_at_def absent_at_def dbz_has_def dbz_maps_def
      key_place_def fun_eq_iff)

lemma dbzexists_ok:
  assumes "dbz_ok db"
  shows "\<exists>db'. dbzexists db h = Some (dbz_has db h, db') \<and> same_tables db db' \<and> \<not> prevp db'"
proof -
  from fresh_search [OF assms, of False "srch db" h] obtain sp where
    "search (etab db) (slots db) (start (srch db) h False) = Some (dbz_has db h, sp)" by blast
  then show ?thesis using assms by (auto simp: dbzexists_def dbz_ok_def same_tables_def slots_def)
qed

lemma dbzfetch_ok:
  assumes "dbz_ok db"
  shows "\<exists>r db'. dbzfetch db h = Some (r, db') \<and> same_tables db db' \<and>
    (\<forall>x. r = Some x \<longleftrightarrow> dbz_maps db h x) \<and> prevp db' = (\<not> dbz_has db h) \<and>
    (r = None \<longleftrightarrow> \<not> dbz_has db h) \<and>
    (\<not> dbz_has db h \<longrightarrow> (\<exists>k. absent_at db h k \<and> tabno (srch db') = k div 101 \<and> run (srch db') = int (k mod 101) \<and>
       shash (srch db') = h \<and> \<not> aborted (srch db') \<and>
       shorthash (srch db') = le_value (drop (HASH_SIZE - 8) h) div 2))"
proof -
  have sl: "slots (db\<lparr>prevp := a\<rparr>) = slots db" for a by (simp add: slots_def)
  from fresh_search [OF assms, of False "srch db" h] obtain k sp where
    s: "search (etab db) (slots db) (start (srch db) h False) = Some (dbz_has db h, sp)"
      "shash sp = h" "\<not> aborted sp" "place sp = key_place db h k" "tabno sp = k div 101"
      "run sp = int (k mod 101)" "shorthash sp = le_value (drop (HASH_SIZE - 8) h) div 2"
      "if dbz_has db h then found_at db h k else absent_at db h k" by blast
  show ?thesis
  proof (cases "dbz_has db h")
    case False
    then have no: "\<not> dbz_maps db h x" for x unfolding dbz_maps_def dbz_has_def by blast
    have "dbzfetch db h = Some (None, db\<lparr>prevp := True, srch := sp\<rparr>)"
      using s(1) False assms by (simp add: dbzfetch_def dbz_ok_def sl Let_def)
    then show ?thesis using s(2-8) False no
      by (intro exI [of _ None] exI [of _ "db\<lparr>prevp := True, srch := sp\<rparr>"]) (auto simp: same_tables_def slots_def)
  next
    case True
    let ?v = "view (idxtab db) (slots db) (key_place db h k)"
    have f: "found_at db h k" using s(8) True by simp
    have "dbzfetch db h = Some (Some ?v, db\<lparr>prevp := False, srch := sp\<rparr>)"
      using s(1,4) True assms by (simp add: dbzfetch_def dbz_ok_def sl Let_def read_view) (simp add: slots_def read_view)
    moreover have "Some ?v = Some x \<longleftrightarrow> dbz_maps db h x" for x
    proof
      assume "dbz_maps db h x"
      then obtain j where "found_at db h j" "view (idxtab db) (slots db) (key_place db h j) = x"
        unfolding dbz_maps_def by blast
      then show "Some ?v = Some x" using found_unique [OF f] by simp
    qed (use f in \<open>auto simp: dbz_maps_def\<close>)
    ultimately show ?thesis using True
      by (intro exI [of _ "Some ?v"] exI [of _ "db\<lparr>prevp := False, srch := sp\<rparr>"]) (simp add: same_tables_def slots_def)
  qed
qed

text \<open>What storing a key at an empty place changes.\<close>

definition stored_at :: "dbz \<Rightarrow> dbz \<Rightarrow> HASH \<Rightarrow> int \<Rightarrow> nat \<Rightarrow> bool" where
  "stored_at db db' h x p \<longleftrightarrow> slots db' = slots db \<and>
     view (etab db') (slots db) = (view (etab db) (slots db))(p := prefix6 h) \<and>
     view (idxtab db') (slots db) = (view (idxtab db) (slots db))(p := x) \<and>
     view (etab db) (slots db) p = empty_rec \<and> dbz_ok db' \<and> \<not> prevp db'"

lemma stored_keeps:
  assumes "stored_at db db' h x p" and "found_at db g k"
  shows "found_at db' g k" "view (idxtab db') (slots db') (key_place db' g k) = view (idxtab db) (slots db) (key_place db g k)"
proof -
  have kp: "key_place db' = key_place db" using assms(1) by (simp add: stored_at_def key_place_def fun_eq_iff)
  have "key_place db g j \<noteq> p" if "j \<le> k" for j
    using assms that unfolding stored_at_def found_at_def by (cases "j = k") auto
  then show "found_at db' g k" "view (idxtab db') (slots db') (key_place db' g k) = view (idxtab db) (slots db) (key_place db g k)"
    using assms unfolding stored_at_def found_at_def kp by auto
qed

lemma stored_keeps_maps: "stored_at db db' h x p \<Longrightarrow> dbz_maps db g y \<Longrightarrow> dbz_maps db' g y"
  unfolding dbz_maps_def using stored_keeps by blast

lemma stored_keeps_has: "stored_at db db' h x p \<Longrightarrow> dbz_has db g \<Longrightarrow> dbz_has db' g"
  unfolding dbz_has_def using stored_keeps by blast

lemma stored_found:
  assumes "stored_at db db' h x (key_place db h k)" and "absent_at db h k" and "prefix6 h \<noteq> empty_rec"
  shows "dbz_maps db' h x" "dbz_has db' h"
proof -
  have kp: "key_place db' = key_place db" using assms(1) by (simp add: stored_at_def key_place_def fun_eq_iff)
  have "key_place db h j \<noteq> key_place db h k" if "j < k" for j
    using assms(2) that unfolding absent_at_def by auto
  then have "found_at db' h k"
    using assms unfolding stored_at_def found_at_def absent_at_def kp by auto
  moreover have "view (idxtab db') (slots db') (key_place db' h k) = x"
    using assms(1) by (simp add: stored_at_def kp)
  ultimately show "dbz_maps db' h x" "dbz_has db' h" unfolding dbz_maps_def dbz_has_def by blast+
qed

text \<open>The end of \<open>dbzstore\<close>, after a search that stopped at an empty place.\<close>

lemma dbzstore_end:
  assumes "dbz_ok db" and "search (etab db) (slots db) (start (srch db) h (prevp db)) = Some (False, sp)"
    and "shash sp = h" and "\<not> aborted sp" and "view (etab db) (slots db) (place sp) = empty_rec"
  shows "\<exists>db'. dbzstore db h x = Some (DBZSTORE_OK, db') \<and> stored_at db db' h x (place sp)"
proof -
  have nb: "no_bad (idxtab db)" "no_bad (etab db)" using assms(1) by (auto simp: dbz_ok_def)
  from view_update [OF nb(1) assms(4), of "slots db" "writethrough db" x] obtain idx where
    i: "set_rec sp (idxtab db) (slots db) (writethrough db) x = (True, sp, idx)" "no_bad idx"
      "view idx (slots db) = (view (idxtab db) (slots db))(place sp := x)" by blast
  from view_update [OF nb(2) assms(4), of "slots db" "writethrough db" "prefix6 h"] obtain et where
    e: "set_rec sp (etab db) (slots db) (writethrough db) (prefix6 h) = (True, sp, et)" "no_bad et"
      "view et (slots db) = (view (etab db) (slots db))(place sp := prefix6 h)" by blast
  let ?db = "db\<lparr>prevp := False, dirty := True, conf := (conf db)\<lparr>used := (used (conf db))[0 := used (conf db) ! 0 + 1]\<rparr>,
      srch := sp, idxtab := idx, etab := et\<rparr>"
  have "dbzstore db h x = Some (DBZSTORE_OK, ?db)"
    using assms i(1) e(1) by (simp add: dbzstore_def dbz_ok_def Let_def prefix6_def slots_def)
  moreover have "finite {p. view et (slots db) p \<noteq> empty_rec}"
    using assms(1) by (auto simp: e(3) dbz_ok_def intro: finite_subset [of _ "insert (place sp) {p. view (etab db) (slots db) p \<noteq> empty_rec}"])
  ultimately show ?thesis
    using assms(1,5) i e by (intro exI [of _ ?db]) (simp add: stored_at_def dbz_ok_def slots_def)
qed

lemma dbzstore_fresh:
  assumes "dbz_ok db" and "\<not> prevp db \<or> shash (srch db) \<noteq> h" and "prefix6 h \<noteq> empty_rec"
  shows "(dbz_has db h \<longrightarrow> (\<exists>db'. dbzstore db h x = Some (DBZSTORE_EXISTS, db') \<and> same_tables db db' \<and>
      prevp db' = prevp db \<and> shash (srch db') = h)) \<and>
    (\<not> dbz_has db h \<longrightarrow> (\<exists>db' k. dbzstore db h x = Some (DBZSTORE_OK, db') \<and> absent_at db h k \<and>
      stored_at db db' h x (key_place db h k)))"
proof -
  from fresh_search [OF assms(1,2)] obtain k sp where
    s: "search (etab db) (slots db) (start (srch db) h (prevp db)) = Some (dbz_has db h, sp)"
      "shash sp = h" "\<not> aborted sp" "place sp = key_place db h k"
      "if dbz_has db h then found_at db h k else absent_at db h k" by blast
  have ex: "\<exists>db'. dbzstore db h x = Some (DBZSTORE_EXISTS, db') \<and> same_tables db db' \<and> prevp db' = prevp db \<and>
      shash (srch db') = h" if "dbz_has db h"
    using that s(1,2) assms(1) by (intro exI [of _ "db\<lparr>srch := sp\<rparr>"]) (simp add: dbzstore_def dbz_ok_def same_tables_def slots_def)
  have new: "\<exists>db' k. dbzstore db h x = Some (DBZSTORE_OK, db') \<and> absent_at db h k \<and>
      stored_at db db' h x (key_place db h k)" if n: "\<not> dbz_has db h"
  proof -
    have ab: "absent_at db h k" using s(5) n by simp
    then have "view (etab db) (slots db) (place sp) = empty_rec" by (simp add: s(4) absent_at_def)
    from dbzstore_end [OF assms(1) _ s(2,3) this, of x] s(1,4) n ab show ?thesis by auto
  qed
  from ex new show ?thesis by blast
qed


definition blank_db :: "nat \<Rightarrow> dbz" where
  "blank_db n =
     \<lparr>opendb = True, readonly = False, conf = default_conf\<lparr>tsize := int n\<rparr>, writethrough = True, dirty = False,
      idxtab = \<lparr>incore = INCORE_NO, core = \<lambda>_. 0, tfile = \<lambda>_. 0, read_bad = \<lambda>_. False, write_bad = \<lambda>_. False\<rparr>,
      etab = \<lparr>incore = INCORE_NO, core = \<lambda>_. empty_rec, tfile = \<lambda>_. empty_rec, read_bad = \<lambda>_. False,
              write_bad = \<lambda>_. False\<rparr>,
      srch = \<lparr>place = 0, tabno = 0, run = - 1, shash = HashClear, shorthash = 0, aborted = False\<rparr>, prevp = False\<rparr>"

lemma blank_db_ok: "0 < n \<Longrightarrow> dbz_ok (blank_db n)" "\<not> prevp (blank_db n)" "\<not> dbz_has (blank_db n) h"
  by (auto simp: blank_db_def dbz_ok_def slots_def no_bad_def view_def dbz_has_def found_at_def)


text \<open>
  C29: \<open>dbzfetch\<close> and \<open>dbzexists\<close> return on every database, agree with each other and with what is
  stored, and change no table.
\<close>

theorem dbzfetch_exists:
  assumes "dbz_ok db"
  shows "\<exists>r db1 db2. dbzfetch db h = Some (r, db1) \<and> dbzexists db h = Some (r \<noteq> None, db2) \<and>
    (\<forall>x. r = Some x \<longleftrightarrow> dbz_maps db h x) \<and> dbz_maps db1 = dbz_maps db \<and> dbz_maps db2 = dbz_maps db"
proof -
  from dbzfetch_ok [OF assms, of h] obtain r db1 where
    f: "dbzfetch db h = Some (r, db1)" "same_tables db db1" "\<forall>x. r = Some x \<longleftrightarrow> dbz_maps db h x"
      "r = None \<longleftrightarrow> \<not> dbz_has db h" by blast
  from dbzexists_ok [OF assms, of h] obtain db2 where
    e: "dbzexists db h = Some (dbz_has db h, db2)" "same_tables db db2" by blast
  have "dbz_has db h \<longleftrightarrow> r \<noteq> None" using f(4) by blast
  with f e same_tables_holds(5) [OF f(2)] same_tables_holds(5) [OF e(2)] show ?thesis
    by (intro exI [of _ r] exI [of _ db1] exI [of _ db2]) simp
qed

theorem dbzfetch_exists_witness:
  "\<exists>db1. dbzfetch (blank_db 65536) (replicate 16 (chr 1)) = Some (None, db1)"
proof -
  have no: "\<not> dbz_maps (blank_db 65536) (replicate 16 (chr 1)) x" for x
    using blank_db_ok(3) unfolding dbz_maps_def dbz_has_def by blast
  obtain r db1 where "dbzfetch (blank_db 65536) (replicate 16 (chr 1)) = Some (r, db1)"
    "\<forall>x. r = Some x \<longleftrightarrow> dbz_maps (blank_db 65536) (replicate 16 (chr 1)) x"
    using dbzfetch_exists [OF blank_db_ok(1), of 65536 "replicate 16 (chr 1)"] by auto
  with no show ?thesis by (cases r) auto
qed

section \<open>A store that resumes the search of a fetch\<close>

lemma absent_unique: "absent_at db h j \<Longrightarrow> absent_at db h k \<Longrightarrow> j = k"
  unfolding absent_at_def by (metis insert_iff linorder_neqE_nat)

text \<open>The state in which \<open>dbzfetch\<close> leaves the searcher after a miss.\<close>

definition missed :: "dbz \<Rightarrow> HASH \<Rightarrow> nat \<Rightarrow> bool" where
  "missed db h k \<longleftrightarrow> prevp db \<and> absent_at db h k \<and> tabno (srch db) = k div 101 \<and>
     run (srch db) = int (k mod 101) \<and> shash (srch db) = h \<and> \<not> aborted (srch db) \<and>
     shorthash (srch db) = le_value (drop (HASH_SIZE - 8) h) div 2"

lemma dbzfetch_missed:
  assumes "dbz_ok db" and "dbzfetch db h = Some (None, db1)"
  shows "dbz_ok db1" "same_tables db db1" "missed db1 h (tabno (srch db1) * 101 + nat (run (srch db1)))"
proof -
  from dbzfetch_ok [OF assms(1), of h] assms(2) obtain k where
    d: "same_tables db db1" "prevp db1" "absent_at db h k" "tabno (srch db1) = k div 101"
      "run (srch db1) = int (k mod 101)" "shash (srch db1) = h" "\<not> aborted (srch db1)"
      "shorthash (srch db1) = le_value (drop (HASH_SIZE - 8) h) div 2" by auto
  have "k div 101 * 101 + nat (int (k mod 101)) = k" by simp
  then show "missed db1 h (tabno (srch db1) * 101 + nat (run (srch db1)))"
    unfolding d(4,5) using d same_tables_holds(3) [OF d(1)] by (simp add: missed_def)
  show "dbz_ok db1" "same_tables db db1" using d(1) assms(1) same_tables_holds(1) [OF d(1)] by simp_all
qed

lemma resume_loc:
  assumes "missed db h k"
  shows "run_ok (start (srch db) h True)" "shash (start (srch db) h True) = h" "\<not> aborted (start (srch db) h True)"
    "loc (slots db) (start (srch db) h True) 0 j =
      (let m = k mod 101 + j in
       if m \<le> 100 then (k div 101, m, 0)
       else let t = k div 101 + 1 + (m - 101) div 101 in (t, (m - 101) mod 101, t * slots db))"
    "shorthash (start (srch db) h True) = le_value (drop (HASH_SIZE - 8) h) div 2"
proof -
  have s: "start (srch db) h True = (srch db)\<lparr>run := run (srch db) - 1\<rparr>"
    using assms by (simp add: start_def missed_def)
  show "run_ok (start (srch db) h True)" "shash (start (srch db) h True) = h" "\<not> aborted (start (srch db) h True)"
    "shorthash (start (srch db) h True) = le_value (drop (HASH_SIZE - 8) h) div 2"
    using assms by (auto simp: s missed_def run_ok_def)
  show "loc (slots db) (start (srch db) h True) 0 j =
      (let m = k mod 101 + j in
       if m \<le> 100 then (k div 101, m, 0)
       else let t = k div 101 + 1 + (m - 101) div 101 in (t, (m - 101) mod 101, t * slots db))"
    using assms by (simp add: s missed_def loc_def Let_def)
qed

lemma key_place_low: "m \<le> 100 \<Longrightarrow> loc_place (slots db) (le_value (drop (HASH_SIZE - 8) h) div 2) (t, m, 0) = key_place db h m"
  by (simp add: loc_place_def key_place_def)

text \<open>
  C33: a store that follows the fetch of the same key, and so resumes its search, works when the
  fetch ended in the first table. When it ended in an overflow table it does not: \<open>search\<close> restarts
  with the offset of the first table, walks on into the table after the one with the free place,
  and reports success, but the key is not found afterwards: the article can be accepted twice.
\<close>

theorem dbz_fetch_then_store:
  assumes "dbz_ok db" and "prefix6 h \<noteq> empty_rec" and "dbzfetch db h = Some (None, db1)"
  shows "\<exists>r db2 db3. dbzstore db1 h x = Some (r, db2) \<and> r \<noteq> DBZSTORE_ERROR \<and>
    dbzexists db2 h = Some (tabno (srch db1) = 0, db3)"
proof -
  let ?n = "slots db1" and ?v = "view (etab db1) (slots db1)" and ?sp = "start (srch db1) h True"
  obtain k where ok: "dbz_ok db1" and m: "missed db1 h k"
    using dbzfetch_missed [OF assms(1,3)] by blast
  have ab: "absent_at db1 h k" and t: "tabno (srch db1) = k div 101" and pv: "prevp db1"
    using m by (auto simp: missed_def)
  note rl = resume_loc [OF m]
  have nb: "no_bad (etab db1)" "0 < ?n" "finite {p. ?v p \<noteq> empty_rec}" using ok by (auto simp: dbz_ok_def)
  from search_ends [OF nb(1) rl(1) nb(2,3), where off = 0] obtain j where
    j: "?v (loc_place ?n (shorthash ?sp) (loc ?n ?sp 0 j)) \<in> {empty_rec, prefix6 h}"
       "\<forall>i<j. ?v (loc_place ?n (shorthash ?sp) (loc ?n ?sp 0 i)) \<notin> {empty_rec, prefix6 h}"
    unfolding rl(2) by blast
  define l where "l = loc ?n ?sp 0 j"
  define p where "p = loc_place ?n (shorthash ?sp) l"
  have s: "search (etab db1) ?n ?sp = Some (?v p \<noteq> empty_rec, at_loc ?n ?sp l)"
    using search_loop_stops [OF nb(1) rl(1), of ?n 0 j] j rl(2,3) by (simp add: search_def p_def l_def)
  show ?thesis
  proof (cases "k div 101 = 0")
    case True
    then have "loc ?n ?sp 0 0 = (0, k, 0)" "k \<le> 100" by (auto simp: rl(4))
    then have z: "loc_place ?n (shorthash ?sp) (loc ?n ?sp 0 0) = key_place db1 h k"
      by (simp add: rl(5) key_place_low)
    have e: "?v (key_place db1 h k) = empty_rec" using ab by (simp add: absent_at_def)
    have "j = 0" using j(2) z e by (cases j) auto
    then have "p = key_place db1 h k" using z by (simp add: p_def l_def)
    with dbzstore_end [OF ok, of h "at_loc ?n ?sp l" x] s e pv rl(2,3) obtain db2 where
      d: "dbzstore db1 h x = Some (DBZSTORE_OK, db2)" "stored_at db1 db2 h x (key_place db1 h k)"
      by (auto simp: p_def)
    have "dbz_has db2 h" "dbz_ok db2" using stored_found [OF d(2) ab assms(2)] d(2) by (auto simp: stored_at_def)
    then show ?thesis using d(1) dbzexists_ok [of db2 h] t True by auto
  next
    case False
    have far: "p \<noteq> key_place db1 h k \<and> \<not> (\<exists>i<k. p = key_place db1 h i)"
    proof (cases "k mod 101 + j \<le> 100")
      case low: True
      then have "p = key_place db1 h (k mod 101 + j)" by (simp add: p_def l_def rl(4,5) key_place_low)
      moreover have "k mod 101 + j < k" using low False by (cases "k < 101") auto
      ultimately show ?thesis using ab j(1) unfolding absent_at_def p_def [symmetric] l_def [symmetric] by auto
    next
      case high: False
      define t' where "t' = k div 101 + 1 + (k mod 101 + j - 101) div 101"
      have "t' * ?n \<le> p" using high by (simp add: p_def l_def rl(4) Let_def loc_place_def t'_def)
      moreover have "key_place db1 h i < (k div 101 + 1) * ?n" if "i \<le> k" for i
      proof -
        have "i div 101 * ?n \<le> k div 101 * ?n" using that by (simp add: div_le_mono)
        moreover have "(le_value (drop (HASH_SIZE - 8) h) div 2 + i mod 101) mod ?n < ?n" using nb(2) by simp
        ultimately show ?thesis unfolding key_place_def add_mult_distrib mult_1 by linarith
      qed
      moreover have "(k div 101 + 1) * ?n \<le> t' * ?n" by (rule mult_le_mono1) (simp add: t'_def)
      ultimately have "key_place db1 h i < p" if "i \<le> k" for i using that by (meson less_le_trans order.trans)
      then show ?thesis by (metis less_imp_le less_irrefl order.refl)
    qed
    have lost: "\<not> dbz_has db2 h" if "etab db2 = etab db1 \<or> view (etab db2) ?n = ?v(p := prefix6 h)" "slots db2 = ?n" for db2
    proof -
      have "key_place db2 = key_place db1" using that(2) by (simp add: key_place_def fun_eq_iff)
      then have "absent_at db2 h k" using ab far that unfolding absent_at_def by auto
      then show ?thesis by (rule absent_not_has)
    qed
    show ?thesis
    proof (cases "?v p = empty_rec")
      case True
      with dbzstore_end [OF ok, of h "at_loc ?n ?sp l" x] s pv rl(2,3) obtain db2 where
        d: "dbzstore db1 h x = Some (DBZSTORE_OK, db2)" "stored_at db1 db2 h x p"
        by (auto simp: p_def)
      then have "\<not> dbz_has db2 h" "dbz_ok db2" using lost [of db2] by (auto simp: stored_at_def)
      then show ?thesis using d(1) dbzexists_ok [of db2 h] t False by auto
    next
      case hit: False
      let ?db2 = "db1\<lparr>srch := at_loc ?n ?sp l\<rparr>"
      have d: "dbzstore db1 h x = Some (DBZSTORE_EXISTS, ?db2)"
        using s hit pv ok by (simp add: dbzstore_def dbz_ok_def)
      have "same_tables db1 ?db2" by (simp add: same_tables_def slots_def)
      then have "dbz_ok ?db2" "\<not> dbz_has ?db2 h" using ok same_tables_holds lost [of ?db2] by (auto simp: slots_def)
      then show ?thesis using d dbzexists_ok [of ?db2 h] t False by auto
    qed
  qed
qed

text \<open>A database whose first table is full of some other key.\<close>

definition full_db :: dbz where
  "full_db = (blank_db 65536)\<lparr>etab := (etab (blank_db 65536))\<lparr>tfile :=
     (\<lambda>p. if p < 65536 then ''zzzzzz'' else empty_rec)\<rparr>\<rparr>"

lemma full_db_absent:
  assumes "prefix6 h \<noteq> ''zzzzzz''"
  shows "dbz_ok full_db" "absent_at full_db h 101"
proof -
  have e: "empty_rec \<noteq> ''zzzzzz''" by code_simp
  have v: "view (etab full_db) (slots full_db) p = (if p < 65536 then ''zzzzzz'' else empty_rec)" for p
    by (simp add: full_db_def blank_db_def view_def)
  have n: "slots full_db = 65536" by (simp add: full_db_def blank_db_def slots_def)
  have "finite {p. view (etab full_db) (slots full_db) p \<noteq> empty_rec}"
    by (rule finite_subset [of _ "{..<65536}"]) (auto simp: v)
  then show "dbz_ok full_db"
    by (auto simp: dbz_ok_def full_db_def blank_db_def slots_def no_bad_def)
  have "key_place full_db h 101 \<ge> 65536" by (simp add: key_place_def n)
  moreover have "key_place full_db h j < 65536" if "j < 101" for j using that by (simp add: key_place_def n)
  ultimately show "absent_at full_db h 101" using assms e unfolding absent_at_def v by auto
qed

theorem dbz_fetch_then_store_witness:
  "\<exists>db1 db2 db3. dbzfetch full_db (replicate 16 (chr 1)) = Some (None, db1) \<and>
    (\<exists>r. dbzstore db1 (replicate 16 (chr 1)) 42 = Some (r, db2) \<and> r \<noteq> DBZSTORE_ERROR) \<and>
    dbzexists db2 (replicate 16 (chr 1)) = Some (False, db3)"
proof -
  let ?h = "replicate 16 (chr 1)"
  have p: "prefix6 ?h \<noteq> ''zzzzzz''" "prefix6 ?h \<noteq> empty_rec" by code_simp+
  note ok = full_db_absent [OF p(1)]
  from dbzfetch_ok [OF ok(1), of ?h] absent_not_has [OF ok(2)] obtain db1 k where
    f: "dbzfetch full_db ?h = Some (None, db1)" "absent_at full_db ?h k" "tabno (srch db1) = k div 101"
       "same_tables full_db db1"
    by auto
  have "k = 101" by (rule absent_unique [OF f(2) ok(2)])
  then have t: "tabno (srch db1) \<noteq> 0" using f(3) by simp
  from dbz_fetch_then_store [OF ok(1) p(2) f(1), of 42] t obtain r db2 db3 where
    s: "dbzstore db1 ?h 42 = Some (r, db2)" "r \<noteq> DBZSTORE_ERROR" "dbzexists db2 ?h = Some (False, db3)" by auto
  with f(1) s show ?thesis by blast
qed

section \<open>Synchronisation and sizing\<close>

text \<open>A part in memory that every store also wrote to the file agrees with the file.\<close>

definition coherent :: "nat \<Rightarrow> bool \<Rightarrow> 'r hash_table \<Rightarrow> bool" where
  "coherent n through tab \<longleftrightarrow> (through \<or> incore tab = INCORE_MMAP) \<and> incore tab \<noteq> INCORE_NO \<longrightarrow>
     (\<forall>p<n. core tab p = tfile tab p)"

lemma coherent_set_rec:
  "no_bad tab \<Longrightarrow> coherent n through tab \<Longrightarrow> set_rec sp tab n through v = (ok, sp', tab') \<Longrightarrow> coherent n through tab'"
  by (auto simp: set_rec_def coherent_def no_bad_def Let_def split: if_splits)

lemma putcore_view:
  assumes "no_bad tab" and "coherent n through tab"
  shows "\<exists>tab'. putcore tab n through = (True, tab') \<and> tfile tab' = view tab n"
proof (cases "incore tab = INCORE_MEM \<and> \<not> through")
  case True
  then show ?thesis using assms(1) by (auto simp: putcore_def no_bad_def view_def fun_eq_iff)
next
  case False
  then have "tfile tab = view tab n" using assms(2)
    by (cases "incore tab") (auto simp: coherent_def view_def fun_eq_iff)
  then show ?thesis using False by (auto simp: putcore_def)
qed

lemma dbz_maps_cong:
  assumes "slots db' = slots db" and "view (etab db') (slots db) = view (etab db) (slots db)"
    and "view (idxtab db') (slots db) = view (idxtab db) (slots db)"
  shows "dbz_maps db' = dbz_maps db"
  using assms unfolding dbz_maps_def found_at_def key_place_def by simp

lemma view_getcore: "view (getcore (tab\<lparr>incore := a\<rparr>)) n = tfile tab"
  by (auto simp: view_def getcore_def fun_eq_iff)

lemma putcore_keeps:
  assumes "no_bad tab"
  shows "\<exists>tab'. putcore tab n through = (True, tab') \<and> view tab' n = view tab n \<and> no_bad tab'"
  using assms by (auto simp: putcore_def no_bad_def view_def fun_eq_iff)

lemma dbzsync_keeps:
  assumes "dbz_ok db"
  shows "\<exists>db'. dbzsync db = (True, db') \<and> dbz_ok db' \<and> dbz_maps db' = dbz_maps db \<and> dbz_has db' = dbz_has db \<and>
    prevp db' = prevp db \<and> srch db' = srch db \<and> slots db' = slots db \<and>
    view (etab db') (slots db) = view (etab db) (slots db) \<and> view (idxtab db') (slots db) = view (idxtab db) (slots db)"
proof -
  have nb: "no_bad (etab db)" "no_bad (idxtab db)" using assms by (auto simp: dbz_ok_def)
  from putcore_keeps [OF nb(2)] obtain i where
    i: "putcore (idxtab db) (slots db) (writethrough db) = (True, i)" "view i (slots db) = view (idxtab db) (slots db)" "no_bad i"
    by blast
  from putcore_keeps [OF nb(1)] obtain e where
    e: "putcore (etab db) (slots db) (writethrough db) = (True, e)" "view e (slots db) = view (etab db) (slots db)" "no_bad e"
    by blast
  let ?db = "db\<lparr>idxtab := i, etab := e\<rparr>"
  have s: "slots ?db = slots db" by (simp add: slots_def)
  have "dbz_maps ?db = dbz_maps db" using i(2) e(2) s by (intro dbz_maps_cong) simp_all
  moreover have "dbz_has ?db = dbz_has db" unfolding dbz_has_def found_at_def key_place_def s using e(2) by simp
  moreover have "dbz_ok ?db" using assms i e by (simp add: dbz_ok_def s)
  moreover have "dbzsync db = (True, if dirty db then ?db else db)"
    using assms i(1) e(1) by (simp add: dbzsync_def dbz_ok_def slots_def)
  ultimately show ?thesis using assms s i(2) e(2) by (cases "dirty db") auto
qed

text \<open>
  C27: a \<open>dbzsync\<close> of a database with stores outstanding writes what it holds to the files: closing
  it and opening the same files again, with whatever part of them in memory, gives a database
  that holds the same keys with the same offsets.
\<close>

theorem dbzsync_persists:
  assumes "dbz_ok db" and "dirty db"
    and "coherent (slots db) (writethrough db) (etab db)" and "coherent (slots db) (writethrough db) (idxtab db)"
  shows "\<exists>db1. dbzsync db = (True, db1) \<and>
    dbz_maps (snd (dbzinit (db1\<lparr>opendb := False\<rparr>) (conf db1) False ((idxtab db1)\<lparr>incore := a\<rparr>) ((etab db1)\<lparr>incore := b\<rparr>))) =
    dbz_maps db"
proof -
  have nb: "no_bad (etab db)" "no_bad (idxtab db)" using assms(1) by (auto simp: dbz_ok_def)
  from putcore_view [OF nb(2) assms(4)] obtain i where
    i: "putcore (idxtab db) (slots db) (writethrough db) = (True, i)" "tfile i = view (idxtab db) (slots db)" by blast
  from putcore_view [OF nb(1) assms(3)] obtain e where
    e: "putcore (etab db) (slots db) (writethrough db) = (True, e)" "tfile e = view (etab db) (slots db)" by blast
  let ?db1 = "db\<lparr>idxtab := i, etab := e\<rparr>"
  have "dbzsync db = (True, ?db1)"
    using assms(1,2) i(1) e(1) by (simp add: dbzsync_def dbz_ok_def slots_def)
  moreover have "dbz_maps (snd (dbzinit (?db1\<lparr>opendb := False\<rparr>) (conf ?db1) False
      ((idxtab ?db1)\<lparr>incore := a\<rparr>) ((etab ?db1)\<lparr>incore := b\<rparr>))) = dbz_maps db"
    by (rule dbz_maps_cong) (simp_all add: dbzinit_def slots_def view_getcore i(2) e(2))
  ultimately show ?thesis by blast
qed

theorem dbzsync_persists_witness:
  "\<exists>db1. dbzsync ((blank_db 65536)\<lparr>dirty := True\<rparr>) = (True, db1)"
proof -
  have "dbz_ok ((blank_db 65536)\<lparr>dirty := True\<rparr>)" using blank_db_ok(1) [of 65536] by (simp add: dbz_ok_def slots_def)
  then show ?thesis
    using dbzsync_persists [of "(blank_db 65536)\<lparr>dirty := True\<rparr>"] by (auto simp: coherent_def blank_db_def)
qed

end
