(* ===== verification/Hash_Example.thy ===== *)
theory Hash_Example
  imports Hash
begin

text \<open>
  The digest of one message-ID, computed step by step: a test vector for the model of MD5, and a
  concrete hash for the components that store message-IDs by hash.
\<close>

definition example_words :: "u32 list" where
  "example_words = [1648386364, 32830, 0, 0, 0, 0, 0, 0, 0, 0, 0, 0, 0, 0, 40, 0]"

lemma example_steps_1:
  "fold (md5_step example_words) [(RF, 0, 7, 3614090360), (RF, 1, 12, 3905402710), (RF, 2, 17, 606105819), (RF, 3, 22, 3250441966)]
     (1732584193, 4023233417, 2562383102, 271733878) =
   (3310388517, 1336136403, 3379832524, 464446099)"
  by (simp add: md5_step_def ROT_def example_words_def)

lemma example_steps_2:
  "fold (md5_step example_words) [(RF, 4, 7, 4118548399), (RF, 5, 12, 1200080426), (RF, 6, 17, 2821735955), (RF, 7, 22, 4249261313)]
     (3310388517, 1336136403, 3379832524, 464446099) =
   (1275043036, 2979146814, 86766217, 4055396297)"
  by (simp add: md5_step_def ROT_def example_words_def)

lemma example_steps_3:
  "fold (md5_step example_words) [(RF, 8, 7, 1770035416), (RF, 9, 12, 2336552879), (RF, 10, 17, 4294925233), (RF, 11, 22, 2304563134)]
     (1275043036, 2979146814, 86766217, 4055396297) =
   (115272505, 1494954587, 2345353504, 283243300)"
  by (simp add: md5_step_def ROT_def example_words_def)

lemma example_steps_4:
  "fold (md5_step example_words) [(RF, 12, 7, 1804603682), (RF, 13, 12, 4254626195), (RF, 14, 17, 2792965006), (RF, 15, 22, 1236535329)]
     (115272505, 1494954587, 2345353504, 283243300) =
   (2256138777, 875870053, 3461899546, 3757634458)"
  by (simp add: md5_step_def ROT_def example_words_def)

lemma example_steps_5:
  "fold (md5_step example_words) [(RG, 1, 5, 4129170786), (RG, 6, 9, 3225465664), (RG, 11, 14, 643717713), (RG, 0, 20, 3921069994)]
     (2256138777, 875870053, 3461899546, 3757634458) =
   (1298042519, 3252677549, 4159212628, 3118018768)"
  by (simp add: md5_step_def ROT_def example_words_def)

lemma example_steps_6:
  "fold (md5_step example_words) [(RG, 5, 5, 3593408605), (RG, 10, 9, 38016083), (RG, 15, 14, 3634488961), (RG, 4, 20, 3889429448)]
     (1298042519, 3252677549, 4159212628, 3118018768) =
   (852056778, 1665651505, 2769974604, 741045415)"
  by (simp add: md5_step_def ROT_def example_words_def)

lemma example_steps_7:
  "fold (md5_step example_words) [(RG, 9, 5, 568446438), (RG, 14, 9, 3275163606), (RG, 3, 14, 4107603335), (RG, 8, 20, 1163531501)]
     (852056778, 1665651505, 2769974604, 741045415) =
   (454497903, 3502023880, 3314141205, 2403162836)"
  by (simp add: md5_step_def ROT_def example_words_def)

lemma example_steps_8:
  "fold (md5_step example_words) [(RG, 13, 5, 2850285829), (RG, 2, 9, 4243563512), (RG, 7, 14, 1735328473), (RG, 12, 20, 2368359562)]
     (454497903, 3502023880, 3314141205, 2403162836) =
   (2276240248, 3649109541, 3098383545, 1526985659)"
  by (simp add: md5_step_def ROT_def example_words_def)

lemma example_steps_9:
  "fold (md5_step example_words) [(RH, 5, 4, 4294588738), (RH, 8, 11, 2272392833), (RH, 11, 16, 1839030562), (RH, 14, 23, 4259657740)]
     (2276240248, 3649109541, 3098383545, 1526985659) =
   (4141407297, 2807138386, 3559738136, 1407297556)"
  by (simp add: md5_step_def ROT_def example_words_def)

lemma example_steps_10:
  "fold (md5_step example_words) [(RH, 1, 4, 2763975236), (RH, 4, 11, 1272893353), (RH, 7, 16, 4139469664), (RH, 10, 23, 3200236656)]
     (4141407297, 2807138386, 3559738136, 1407297556) =
   (1789700717, 1834317672, 2050086768, 4055093305)"
  by (simp add: md5_step_def ROT_def example_words_def)

lemma example_steps_11:
  "fold (md5_step example_words) [(RH, 13, 4, 681279174), (RH, 0, 11, 3936430074), (RH, 3, 16, 3572445317), (RH, 6, 23, 76029189)]
     (1789700717, 1834317672, 2050086768, 4055093305) =
   (256838831, 2416926342, 1679295520, 394280805)"
  by (simp add: md5_step_def ROT_def example_words_def)

lemma example_steps_12:
  "fold (md5_step example_words) [(RH, 9, 4, 3654602809), (RH, 12, 11, 3873151461), (RH, 15, 16, 530742520), (RH, 2, 23, 3299628645)]
     (256838831, 2416926342, 1679295520, 394280805) =
   (1539541314, 1602204948, 2344398157, 3777822387)"
  by (simp add: md5_step_def ROT_def example_words_def)

lemma example_steps_13:
  "fold (md5_step example_words) [(RI, 0, 6, 4096336452), (RI, 7, 10, 1126891415), (RI, 14, 15, 2878612391), (RI, 5, 21, 4237533241)]
     (1539541314, 1602204948, 2344398157, 3777822387) =
   (4220054005, 2823668481, 375056459, 750625033)"
  by (simp add: md5_step_def ROT_def example_words_def)

lemma example_steps_14:
  "fold (md5_step example_words) [(RI, 12, 6, 1700485571), (RI, 3, 10, 2399980690), (RI, 10, 15, 4293915773), (RI, 1, 21, 2240044497)]
     (4220054005, 2823668481, 375056459, 750625033) =
   (648847380, 213535597, 4010730453, 3526746146)"
  by (simp add: md5_step_def ROT_def example_words_def)

lemma example_steps_15:
  "fold (md5_step example_words) [(RI, 8, 6, 1873313359), (RI, 15, 10, 4264355552), (RI, 6, 15, 2734768916), (RI, 13, 21, 1309151649)]
     (648847380, 213535597, 4010730453, 3526746146) =
   (1597042243, 610714149, 3571296771, 421596881)"
  by (simp add: md5_step_def ROT_def example_words_def)

lemma example_steps_16:
  "fold (md5_step example_words) [(RI, 4, 6, 4149444226), (RI, 11, 10, 3174756917), (RI, 2, 15, 718787259), (RI, 9, 21, 3951481745)]
     (1597042243, 610714149, 3571296771, 421596881) =
   (1314406023, 1169272039, 2959055272, 827571980)"
  by (simp add: md5_step_def ROT_def example_words_def)

lemma example_transform:
  "md5_transform md5_iv example_words = (3046990216, 897538160, 1226471078, 1099305858)"
proof -
  have s: "md5_steps =
    [(RF, 0, 7, 3614090360), (RF, 1, 12, 3905402710), (RF, 2, 17, 606105819), (RF, 3, 22, 3250441966)] @
    [(RF, 4, 7, 4118548399), (RF, 5, 12, 1200080426), (RF, 6, 17, 2821735955), (RF, 7, 22, 4249261313)] @
    [(RF, 8, 7, 1770035416), (RF, 9, 12, 2336552879), (RF, 10, 17, 4294925233), (RF, 11, 22, 2304563134)] @
    [(RF, 12, 7, 1804603682), (RF, 13, 12, 4254626195), (RF, 14, 17, 2792965006), (RF, 15, 22, 1236535329)] @
    [(RG, 1, 5, 4129170786), (RG, 6, 9, 3225465664), (RG, 11, 14, 643717713), (RG, 0, 20, 3921069994)] @
    [(RG, 5, 5, 3593408605), (RG, 10, 9, 38016083), (RG, 15, 14, 3634488961), (RG, 4, 20, 3889429448)] @
    [(RG, 9, 5, 568446438), (RG, 14, 9, 3275163606), (RG, 3, 14, 4107603335), (RG, 8, 20, 1163531501)] @
    [(RG, 13, 5, 2850285829), (RG, 2, 9, 4243563512), (RG, 7, 14, 1735328473), (RG, 12, 20, 2368359562)] @
    [(RH, 5, 4, 4294588738), (RH, 8, 11, 2272392833), (RH, 11, 16, 1839030562), (RH, 14, 23, 4259657740)] @
    [(RH, 1, 4, 2763975236), (RH, 4, 11, 1272893353), (RH, 7, 16, 4139469664), (RH, 10, 23, 3200236656)] @
    [(RH, 13, 4, 681279174), (RH, 0, 11, 3936430074), (RH, 3, 16, 3572445317), (RH, 6, 23, 76029189)] @
    [(RH, 9, 4, 3654602809), (RH, 12, 11, 3873151461), (RH, 15, 16, 530742520), (RH, 2, 23, 3299628645)] @
    [(RI, 0, 6, 4096336452), (RI, 7, 10, 1126891415), (RI, 14, 15, 2878612391), (RI, 5, 21, 4237533241)] @
    [(RI, 12, 6, 1700485571), (RI, 3, 10, 2399980690), (RI, 10, 15, 4293915773), (RI, 1, 21, 2240044497)] @
    [(RI, 8, 6, 1873313359), (RI, 15, 10, 4264355552), (RI, 6, 15, 2734768916), (RI, 13, 21, 1309151649)] @
    [(RI, 4, 6, 4149444226), (RI, 11, 10, 3174756917), (RI, 2, 15, 718787259), (RI, 9, 21, 3951481745)]"
    by (simp add: md5_steps_def)
  have "fold (md5_step example_words) md5_steps (1732584193, 4023233417, 2562383102, 271733878) =
      (1314406023, 1169272039, 2959055272, 827571980)"
    unfolding s fold_append o_apply
    by (simp only: example_steps_1 example_steps_2 example_steps_3 example_steps_4 example_steps_5 example_steps_6 example_steps_7 example_steps_8 example_steps_9 example_steps_10 example_steps_11 example_steps_12 example_steps_13 example_steps_14 example_steps_15 example_steps_16)
  then show ?thesis by (simp add: md5_transform_def md5_iv_def)
qed

lemma le_words_zeros: "le_words (replicate (4 * n) NUL) = replicate n 0"
proof (induction n)
  case (Suc n)
  have "4 * Suc n = Suc (Suc (Suc (Suc (4 * n))))" by simp
  then have "replicate (4 * Suc n) NUL = NUL # NUL # NUL # NUL # replicate (4 * n) NUL" by (simp only: replicate_Suc)
  then show ?case using Suc by (simp only: le_words.simps replicate_Suc) (simp add: ord_def)
qed simp

lemma example_words_text:
  "le_words (md5_padded ''<a@b>'' @ le_bytes (word_of_nat 40) @ le_bytes (word_of_nat 0)) = example_words"
proof -
  have z: "(119 - length ''<a@b>'' mod 64) mod 64 = Suc (Suc (4 * 12))" by simp
  have a: "md5_padded ''<a@b>'' = (''<a@b>'' @ [CHR 0x80, NUL, NUL]) @ replicate (4 * 12) NUL"
    unfolding md5_padded_def append_assoc z replicate_Suc by simp
  have b: "le_bytes (word_of_nat 40) = [chr 40, chr 0, chr 0, chr 0]"
    "le_bytes (word_of_nat 0) = [chr 0, chr 0, chr 0, chr 0]" by (simp_all add: le_bytes_def)
  have "le_words ((''<a@b>'' @ [CHR 0x80, NUL, NUL]) @ replicate (4 * 12) NUL @
      [chr 40, chr 0, chr 0, chr 0] @ [chr 0, chr 0, chr 0, chr 0]) =
    [1648386364, 32830] @ replicate 12 0 @ [40, 0]"
    using le_words_append [of "''<a@b>'' @ [CHR 0x80, NUL, NUL]"] le_words_append [of "replicate (4 * 12) NUL"]
    by (simp only: le_words_zeros) (simp add: ord_def chr_def)
  also have "\<dots> = example_words" by (simp add: example_words_def eval_nat_numeral)
  finally show ?thesis unfolding a b append_assoc .
qed

lemma HashMessageID_example:
  "HashMessageID ''<a@b>'' = map chr [136, 97, 157, 181, 112, 88, 127, 53, 166, 118, 26, 73, 130, 19, 134, 65]"
proof -
  have t: "hashed_text ''<a@b>'' = ''<a@b>''" by code_simp
  define p where "p = md5_padded ''<a@b>'' @ le_bytes (word_of_nat 40) @ le_bytes (word_of_nat 0)"
  have l: "length p = 64" by (simp add: p_def md5_padded_def)
  have b: "md5_update_block md5_iv p = (3046990216, 897538160, 1226471078, 1099305858)"
    unfolding update_block_one [OF l] by (simp only: p_def example_words_text example_transform)
  have n: "8 * length ''<a@b>'' mod 2 ^ 64 = (40::nat)" "(40::nat) div 2 ^ 32 = 0" by simp_all
  have "md5_spec ''<a@b>'' = map chr [136, 97, 157, 181, 112, 88, 127, 53, 166, 118, 26, 73, 130, 19, 134, 65]"
    unfolding md5_spec_def Let_def n p_def [symmetric] b prod.case by (simp add: le_bytes_def chr_def)
  then show ?thesis by (simp add: HashMessageID_def t Hash_def md5_hash_spec HASH_SIZE_def)
qed

end
