(* ===== verification/Hisv6.thy ===== *)
theory Hisv6
  imports Dbz Hash_Example
begin

text \<open>
  The history file format and its operations (\<open>history/hisv6/hisv6.c\<close>) over the \<open>dbz\<close> database: the
  text of a history line, writing, looking up and replacing entries. The model is of a handle
  that owns the database and whose \<open>statinterval\<close> is 0, so that \<open>hisv6_checkfiles\<close> does nothing and
  the files are not reopened. A write to the text file can fail after some octets (\<open>wfail\<close>), and
  the seek that undoes it can fail as well.
\<close>

section \<open>The history line\<close>

definition HISV6_MAXLINE :: nat where "HISV6_MAXLINE = 137"
definition HISV6_MINLINE :: nat where "HISV6_MINLINE = 37"
definition HISV6_FIELDSEP :: char where "HISV6_FIELDSEP = TAB"
definition HISV6_NOEXP :: char where "HISV6_NOEXP = CHR ''-''"
definition HISV6_SUBFIELDSEP :: char where "HISV6_SUBFIELDSEP = CHR ''~''"

definition ULONG_MAX :: nat where "ULONG_MAX = 2 ^ 64 - 1"

text \<open>The conversions between \<open>time_t\<close> and \<open>unsigned long\<close>.\<close>

definition to_ulong :: "int \<Rightarrow> nat" where
  "to_ulong t = nat (t mod 2 ^ 64)"

definition to_time :: "nat \<Rightarrow> int" where
  "to_time l = (if l < 2 ^ 63 then int l else int l - 2 ^ 64)"

text \<open>\<open>strtoul (p, &end, 10)\<close>: the value, and the octets from \<open>end\<close> on.\<close>

definition strtoul :: "octets \<Rightarrow> nat \<times> octets" where
  "strtoul p =
     (let q = dropWhile c_isspace p;
          neg = (deref q = CHR ''-'');
          r = (if deref q = CHR ''-'' \<or> deref q = CHR ''+'' then tl q else q);
          ds = takeWhile c_isdigit r; e = dropWhile c_isdigit r
      in if ds = [] then (0, p)
         else if ULONG_MAX < dec_value ds then (ULONG_MAX, e)
         else (if neg then (2 ^ 64 - dec_value ds) mod 2 ^ 64 else dec_value ds, e))"

datatype split_error = No_hash | No_bracket | No_separator | Arrived_range | Expires_range | Posted_range

text \<open>
  What \<open>hisv6_splitline\<close> stores: the bits of its result for the fields that were there, and the
  fields. A field that is not there is 0 (the token is not touched: \<open>None\<close>).
\<close>

record history_line =
  have_expires :: bool
  have_posted :: bool
  lhash :: HASH
  larrived :: int
  lposted :: int
  lexpires :: int
  ltoken :: "TOKEN option"

text \<open>The subfields behind the arrival time: \<open>expires\<close>, \<open>posted\<close> and the rest.\<close>

definition split_posted :: "octets \<Rightarrow> split_error + (bool \<times> int \<times> octets)" where
  "split_posted p =
     (if deref p \<noteq> HISV6_SUBFIELDSEP then Inr (False, 0, p)
      else let (l, e) = strtoul (tl p) in
        if l = ULONG_MAX then Inl Posted_range else Inr (True, to_time l, e))"

definition split_expires :: "octets \<Rightarrow> split_error + (bool \<times> int \<times> octets)" where
  "split_expires p =
     (if deref p = HISV6_NOEXP then Inr (False, 0, tl p)
      else let (l, e) = strtoul p in
        if l = ULONG_MAX then Inl Expires_range else Inr (True, to_time l, e))"

definition split_times :: "octets \<Rightarrow> split_error + (bool \<times> int \<times> bool \<times> int \<times> octets)" where
  "split_times p =
     (if deref p \<noteq> HISV6_SUBFIELDSEP then Inr (False, 0, False, 0, p)
      else case split_expires (tl p) of
        Inl e \<Rightarrow> Inl e
      | Inr (he, ex, q) \<Rightarrow>
          (case split_posted q of
             Inl e \<Rightarrow> Inl e
           | Inr (hp, po, r) \<Rightarrow> Inr (he, ex, hp, po, r)))"

text \<open>
  The line is a C string; \<open>p += 32\<close> steps over the hash without looking, which is \<open>None\<close> when it
  leaves the string.
\<close>

definition hisv6_splitline :: "octets \<Rightarrow> (split_error + history_line) option" where
  "hisv6_splitline line =
     (if deref line \<noteq> CHR ''['' then Some (Inl No_hash)
      else
        let p = tl line; hash = TextToHash p in
        if length p < 32 then None
        else
          let p = drop 32 p in
          if deref p \<noteq> CHR '']'' then Some (Inl No_bracket)
          else if deref (tl p) \<noteq> HISV6_FIELDSEP then Some (Inl No_separator)
          else
            let (l, p) = strtoul (tl (tl p)) in
            if l = ULONG_MAX then Some (Inl Arrived_range)
            else Some (case split_times p of
              Inl e \<Rightarrow> Inl e
            | Inr (he, ex, hp, po, p) \<Rightarrow>
                if deref p \<noteq> HISV6_FIELDSEP \<and> p \<noteq> [] then Inl No_separator
                else
                  let p = (if deref p = HISV6_FIELDSEP then tl p else p) in
                  Inr \<lparr>have_expires = he, have_posted = hp, lhash = hash, larrived = to_time l, lposted = po,
                       lexpires = ex, ltoken = (if IsToken (Some p) then Some (TextToToken p) else None)\<rparr>))"

text \<open>\<open>None\<close> is the result 0: the line does not fit.\<close>

definition hisv6_formatline :: "HASH \<Rightarrow> int \<Rightarrow> int \<Rightarrow> int \<Rightarrow> TOKEN option \<Rightarrow> octets option" where
  "hisv6_formatline hash arrived posted expires token =
     (let hashtext = HashToText hash;
          start = ''['' @ hashtext @ '']'' @ [HISV6_FIELDSEP] @ dec_nat (to_ulong arrived) @ [HISV6_SUBFIELDSEP];
          s = (case token of
                 None \<Rightarrow>
                   if posted \<le> 0 then start @ [HISV6_NOEXP, LF]
                   else start @ [HISV6_NOEXP, HISV6_SUBFIELDSEP] @ dec_nat (to_ulong posted) @ [LF]
               | Some t \<Rightarrow>
                   if expires \<le> 0
                   then start @ [HISV6_NOEXP, HISV6_SUBFIELDSEP] @ dec_nat (to_ulong posted) @ [HISV6_FIELDSEP] @
                        TokenToText t @ [LF]
                   else start @ dec_nat (to_ulong expires) @ [HISV6_SUBFIELDSEP] @ dec_nat (to_ulong posted) @
                        [HISV6_FIELDSEP] @ TokenToText t @ [LF])
      in if HISV6_MAXLINE \<le> length s then None else Some s)"

section \<open>The history files\<close>

record hisv6 =
  hfile :: octets
  hoffset :: nat
  rdwr :: bool
  synccount :: nat
  hdirty :: nat
  hdb :: dbz
  wfail :: "nat option"
  seekfail :: bool

text \<open>Octets written to a file at an offset; a gap before them reads as zero.\<close>

definition write_at :: "octets \<Rightarrow> nat \<Rightarrow> octets \<Rightarrow> octets" where
  "write_at f off s = take off (f @ replicate (off - length f) NUL) @ s @ drop (off + length s) f"

definition hisv6_sync :: "hisv6 \<Rightarrow> bool \<times> hisv6" where
  "hisv6_sync h =
     (if \<not> rdwr h then (True, h)
      else if hdirty h = 0 then (True, h)
      else let (ok, db) = dbzsync (hdb h) in
        (ok, if ok then h\<lparr>hdb := db, hdirty := 0\<rparr> else h\<lparr>hdb := db\<rparr>))"

text \<open>The line of a hash, without its LF, and its offset.\<close>

definition hisv6_fetchline :: "hisv6 \<Rightarrow> HASH \<Rightarrow> ((octets \<times> nat) option \<times> hisv6) option" where
  "hisv6_fetchline h hash =
     do { (r, db) \<leftarrow> dbzfetch (hdb h) hash;
          let h1 = h\<lparr>hdb := db\<rparr>;
          Some (case r of
                  None \<Rightarrow> (None, h1)
                | Some off \<Rightarrow>
                    let buf = (if off < 0 then [] else take HISV6_MAXLINE (drop (nat off) (hfile h1))) in
                    if length buf < HISV6_MINLINE then (None, h1)
                    else
                      let s = takeWhile (\<lambda>c. c \<noteq> NUL) buf in
                      if LF \<in> set s then (Some (takeWhile (\<lambda>c. c \<noteq> LF) s, nat off), h1) else (None, h1)) }"

definition hisv6_lookup :: "hisv6 \<Rightarrow> octets \<Rightarrow> (history_line option \<times> hisv6) option" where
  "hisv6_lookup h key =
     do { (r, h1) \<leftarrow> hisv6_fetchline h (HashMessageID key);
          case r of
            None \<Rightarrow> Some (None, h1)
          | Some (line, off) \<Rightarrow>
              do { v \<leftarrow> hisv6_splitline line;
                   Some (case v of
                           Inl e \<Rightarrow> (None, h1)
                         | Inr l \<Rightarrow> (if ltoken l = None then None else Some l, h1)) } }"

definition hisv6_check :: "hisv6 \<Rightarrow> octets \<Rightarrow> (bool \<times> hisv6) option" where
  "hisv6_check h key =
     do { (r, db) \<leftarrow> dbzexists (hdb h) (HashMessageID key); Some (r, h\<lparr>hdb := db\<rparr>) }"

definition hisv6_writedbz :: "hisv6 \<Rightarrow> HASH \<Rightarrow> nat \<Rightarrow> (bool \<times> hisv6) option" where
  "hisv6_writedbz h hash off =
     do { (s, db) \<leftarrow> dbzstore (hdb h) hash (int off);
          Some (let h1 = h\<lparr>hdb := db\<rparr>; r = (s \<noteq> DBZSTORE_ERROR);
                    h2 = (if r \<and> synccount h1 \<noteq> 0 then h1\<lparr>hdirty := hdirty h1 + 1\<rparr> else h1)
                in if r \<and> synccount h2 \<noteq> 0 \<and> synccount h2 \<le> hdirty h2 then hisv6_sync h2 else (r, h2)) }"

definition hisv6_writeline ::
  "hisv6 \<Rightarrow> HASH \<Rightarrow> int \<Rightarrow> int \<Rightarrow> int \<Rightarrow> TOKEN option \<Rightarrow> (bool \<times> hisv6) option" where
  "hisv6_writeline h hash arrived posted expires token =
     (if \<not> rdwr h then Some (False, h)
      else case hisv6_formatline hash arrived posted expires token of
        None \<Rightarrow> Some (False, h)
      | Some line \<Rightarrow>
          (case wfail h of
             Some i \<Rightarrow>
               let h1 = h\<lparr>hfile := write_at (hfile h) (hoffset h) (take i line)\<rparr> in
               Some (False, if seekfail h1 then h1\<lparr>hoffset := hoffset h1 + min i (length line)\<rparr> else h1)
           | None \<Rightarrow>
               let h1 = h\<lparr>hfile := write_at (hfile h) (hoffset h) line\<rparr> in
               do { (r, h2) \<leftarrow> hisv6_writedbz h1 hash (hoffset h1);
                    Some (r, h2\<lparr>hoffset := hoffset h2 + length line\<rparr>) }))"

definition hisv6_write :: "hisv6 \<Rightarrow> octets \<Rightarrow> int \<Rightarrow> int \<Rightarrow> int \<Rightarrow> TOKEN option \<Rightarrow> (bool \<times> hisv6) option" where
  "hisv6_write h key arrived posted expires token =
     hisv6_writeline h (HashMessageID key) arrived posted expires token"

definition hisv6_remember :: "hisv6 \<Rightarrow> octets \<Rightarrow> int \<Rightarrow> int \<Rightarrow> (bool \<times> hisv6) option" where
  "hisv6_remember h key arrived posted = hisv6_writeline h (HashMessageID key) arrived posted 0 None"

text \<open>The new line in the place of the old one, filled up with spaces.\<close>

definition hisv6_replace :: "hisv6 \<Rightarrow> octets \<Rightarrow> int \<Rightarrow> int \<Rightarrow> int \<Rightarrow> TOKEN option \<Rightarrow> (bool \<times> hisv6) option" where
  "hisv6_replace h key arrived posted expires token =
     (if \<not> rdwr h then Some (False, h)
      else do {
        (r, h1) \<leftarrow> hisv6_fetchline h (HashMessageID key);
        Some (case r of
                None \<Rightarrow> (False, h1)
              | Some (old, off) \<Rightarrow>
                  (case hisv6_formatline (HashMessageID key) arrived posted expires token of
                     None \<Rightarrow> (False, h1)
                   | Some s \<Rightarrow>
                       let new = (if last s = LF then butlast s else s) in
                       if length old < length new then (False, h1)
                       else
                         let out = new @ replicate (length old - length new) SP in
                         case wfail h1 of
                           Some i \<Rightarrow> (False, h1\<lparr>hfile := write_at (hfile h1) off (take i out)\<rparr>)
                         | None \<Rightarrow> (True, h1\<lparr>hfile := write_at (hfile h1) off out\<rparr>))) })"

section \<open>Traversal and expiry\<close>

text \<open>
  What the callback of \<open>hisv6_traverse\<close> does with an entry when history is expired into the new
  file \<open>new\<close>. \<open>keep\<close> is the client's decision on an entry with a token, which may change it.
\<close>

definition hisv6_expirecb ::
  "int \<Rightarrow> (int \<Rightarrow> int \<Rightarrow> int \<Rightarrow> TOKEN \<Rightarrow> bool \<times> TOKEN) \<Rightarrow> hisv6 \<Rightarrow> history_line \<Rightarrow> (bool \<times> hisv6) option" where
  "hisv6_expirecb threshold keep new l =
     do { (dup, db) \<leftarrow> dbzexists (hdb new) (lhash l);
          let new1 = new\<lparr>hdb := db\<rparr> in
          if dup then Some (True, new1)
          else
            let (t, ex) = (case ltoken l of
                             None \<Rightarrow> (None, lexpires l)
                           | Some tok \<Rightarrow>
                               (case keep (larrived l) (lposted l) (lexpires l) tok of
                                  (True, tok') \<Rightarrow> (Some tok', lexpires l)
                                | (False, _) \<Rightarrow> (None, 0)))
            in if t \<noteq> None \<or> threshold \<le> lposted l \<or> (lposted l \<le> 0 \<and> threshold \<le> larrived l)
               then hisv6_writeline new1 (lhash l) (larrived l) (lposted l) ex t
               else Some (True, new1) }"

text \<open>
  The loop of \<open>hisv6_traverse\<close> over the lines of the file (as \<open>QIOread\<close> returns them), with its
  variable \<open>r\<close>; \<open>ignore\<close> lets it go on over malformed lines, if \<open>r\<close> is true.
\<close>

fun traverse_loop ::
  "('c \<Rightarrow> history_line \<Rightarrow> (bool \<times> 'c) option) \<Rightarrow> bool \<Rightarrow> octets list \<Rightarrow> bool \<Rightarrow> 'c \<Rightarrow> (bool \<times> 'c) option" where
  "traverse_loop callback ignore [] r c = Some (r, c)"
| "traverse_loop callback ignore (p # ps) r c =
     do { v \<leftarrow> hisv6_splitline p;
          (r1, c1) \<leftarrow> (case v of
                         Inr l \<Rightarrow> callback c l
                       | Inl e \<Rightarrow> Some (if ignore then r else False, c));
          if \<not> r1 then Some (False, c1) else traverse_loop callback ignore ps r1 c1 }"

definition hisv6_traverse ::
  "('c \<Rightarrow> history_line \<Rightarrow> (bool \<times> 'c) option) \<Rightarrow> bool \<Rightarrow> octets list \<Rightarrow> 'c \<Rightarrow> (bool \<times> 'c) option" where
  "hisv6_traverse callback ignore lines c = traverse_loop callback ignore lines False c"

section \<open>The line round trip\<close>

lemma digit_plain: "c_isdigit c \<Longrightarrow> \<not> c_isspace c \<and> c \<noteq> CHR ''-'' \<and> c \<noteq> CHR ''+'' \<and> c \<noteq> LF \<and> c \<noteq> NUL"
  by (auto simp: c_isdigit_def c_isspace_def ord_def)

lemma strtoul_dec_nat:
  assumes "n \<le> ULONG_MAX" and "\<not> c_isdigit (deref r)"
  shows "strtoul (dec_nat n @ r) = (n, r)"
proof -
  obtain c ds where ds: "dec_nat n = c # ds" using dec_nat_neq_Nil [of n] by (cases "dec_nat n") auto
  have c: "c_isdigit c" using dec_nat_digits [of n] ds by simp
  have s: "dropWhile c_isspace (dec_nat n @ r) = dec_nat n @ r" "deref (dec_nat n @ r) = c"
    using ds digit_plain [OF c] by simp_all
  have r: "takeWhile c_isdigit r = []" "dropWhile c_isdigit r = r" using assms(2) by (cases r; simp)+
  have a: "\<forall>x\<in>set (dec_nat n). c_isdigit x" using dec_nat_digits [of n] by (simp add: list_all_iff)
  have t: "takeWhile c_isdigit (dec_nat n @ r) = dec_nat n" "dropWhile c_isdigit (dec_nat n @ r) = r"
    using a r by (simp_all add: takeWhile_append2 dropWhile_append2)
  show ?thesis
    unfolding strtoul_def Let_def s using digit_plain [OF c] assms(1) dec_nat_neq_Nil [of n]
    by (simp add: t dec_value_dec_nat)
qed

lemma time_bits:
  assumes "- (2 ^ 63) \<le> t" and "t < 2 ^ 63"
  shows "to_time (to_ulong t) = t" "to_ulong t \<le> ULONG_MAX" "to_ulong t = ULONG_MAX \<longleftrightarrow> t = - 1"
proof -
  have m: "t mod 2 ^ 64 = (if 0 \<le> t then t else t + 2 ^ 64)"
  proof (cases "0 \<le> t")
    case True
    then show ?thesis using assms by simp
  next
    case False
    then have "(t + 2 ^ 64) mod 2 ^ 64 = t + 2 ^ 64" using assms by (intro mod_pos_pos_trivial) simp_all
    moreover have "(t + 2 ^ 64) mod 2 ^ 64 = t mod 2 ^ 64" by (rule mod_add_self2)
    ultimately show ?thesis using False by simp
  qed
  show "to_time (to_ulong t) = t" "to_ulong t \<le> ULONG_MAX" "to_ulong t = ULONG_MAX \<longleftrightarrow> t = - 1"
    unfolding to_ulong_def m using assms by (auto simp: to_time_def ULONG_MAX_def nat_less_iff)
qed

text \<open>The entry that a line stands for.\<close>

definition entry_of :: "HASH \<Rightarrow> int \<Rightarrow> int \<Rightarrow> int \<Rightarrow> TOKEN option \<Rightarrow> history_line" where
  "entry_of hash arrived posted expires token =
     \<lparr>have_expires = (token \<noteq> None \<and> 0 < expires), have_posted = (token \<noteq> None \<or> 0 < posted),
      lhash = hash, larrived = arrived, lposted = (if token \<noteq> None \<or> 0 < posted then posted else 0),
      lexpires = (if token \<noteq> None \<and> 0 < expires then expires else 0), ltoken = token\<rparr>"

definition is_time :: "int \<Rightarrow> bool" where
  "is_time t \<longleftrightarrow> - (2 ^ 63) \<le> t \<and> t < 2 ^ 63 \<and> t \<noteq> - 1"

lemma sep_simps [simp]:
  "\<not> c_isdigit HISV6_FIELDSEP" "\<not> c_isdigit HISV6_SUBFIELDSEP" "\<not> c_isdigit HISV6_NOEXP"
  "HISV6_FIELDSEP \<noteq> HISV6_SUBFIELDSEP" "HISV6_SUBFIELDSEP \<noteq> HISV6_FIELDSEP" "HISV6_FIELDSEP \<noteq> HISV6_NOEXP"
  "HISV6_SUBFIELDSEP \<noteq> HISV6_NOEXP" "HISV6_NOEXP \<noteq> HISV6_SUBFIELDSEP" "NUL \<noteq> HISV6_SUBFIELDSEP"
  "HISV6_FIELDSEP \<noteq> LF" "HISV6_SUBFIELDSEP \<noteq> LF" "HISV6_NOEXP \<noteq> LF"
  "HISV6_FIELDSEP \<noteq> NUL" "HISV6_SUBFIELDSEP \<noteq> NUL" "HISV6_NOEXP \<noteq> NUL"
  by (simp_all add: HISV6_FIELDSEP_def HISV6_SUBFIELDSEP_def HISV6_NOEXP_def c_isdigit_def ord_def)

lemma not_digit_NUL [simp]: "\<not> c_isdigit NUL"
  by (simp add: c_isdigit_def ord_def)

lemma strtoul_time:
  assumes "is_time t" and "\<not> c_isdigit (deref r)"
  shows "strtoul (dec_nat (to_ulong t) @ r) = (to_ulong t, r)" "to_ulong t \<noteq> ULONG_MAX" "to_time (to_ulong t) = t"
  using strtoul_dec_nat [of "to_ulong t" r] time_bits [of t] assms by (auto simp: is_time_def)

text \<open>The parts of a line: what is behind the arrival time, and the octets between.\<close>

definition line_rest :: "int \<Rightarrow> int \<Rightarrow> TOKEN option \<Rightarrow> octets" where
  "line_rest posted expires tok =
     (case tok of
        None \<Rightarrow> if posted \<le> 0 then [HISV6_NOEXP] else [HISV6_NOEXP, HISV6_SUBFIELDSEP] @ dec_nat (to_ulong posted)
      | Some t \<Rightarrow>
          (if expires \<le> 0 then [HISV6_NOEXP] else dec_nat (to_ulong expires)) @ [HISV6_SUBFIELDSEP] @
          dec_nat (to_ulong posted) @ [HISV6_FIELDSEP] @ TokenToText t)"

definition line_text :: "HASH \<Rightarrow> int \<Rightarrow> int \<Rightarrow> int \<Rightarrow> TOKEN option \<Rightarrow> octets" where
  "line_text hash arrived posted expires tok =
     ''['' @ hex_text hash @ '']'' @ [HISV6_FIELDSEP] @ dec_nat (to_ulong arrived) @ [HISV6_SUBFIELDSEP] @
     line_rest posted expires tok"

lemma formatline_line:
  assumes "length hash = HASH_SIZE"
  shows "hisv6_formatline hash arrived posted expires tok =
    (if length (line_text hash arrived posted expires tok) < 136 then Some (line_text hash arrived posted expires tok @ [LF])
     else None)"
  using HashToText_hex [OF assms]
  by (auto simp: hisv6_formatline_def line_text_def line_rest_def Let_def HISV6_MAXLINE_def split: option.split)

definition plain :: "octets \<Rightarrow> bool" where
  "plain s \<longleftrightarrow> LF \<notin> set s \<and> NUL \<notin> set s"

lemma plain_simps [simp]:
  "plain []" "plain (c # s) \<longleftrightarrow> c \<noteq> LF \<and> c \<noteq> NUL \<and> plain s" "plain (a @ b) \<longleftrightarrow> plain a \<and> plain b"
  by (auto simp: plain_def)

lemma plain_dec_nat [simp]: "plain (dec_nat n)"
  using dec_nat_digits [of n] digit_plain by (auto simp: plain_def list_all_iff)

lemma hexdigit_plain: "n < 16 \<Longrightarrow> hexdigits ! n \<noteq> LF \<and> hexdigits ! n \<noteq> NUL"
proof -
  have "\<forall>n\<in>set [0..<16]. hexdigits ! n \<noteq> LF \<and> hexdigits ! n \<noteq> NUL" by code_simp
  then show "n < 16 \<Longrightarrow> ?thesis" by simp
qed

lemma plain_hex_text [simp]: "plain (hex_text bs)"
proof (induction bs)
  case (Cons b bs)
  have "ord b div 16 < 16" using ord_lt_256 [of b] by linarith
  then show ?case using Cons hexdigit_plain [of "ord b div 16"] hexdigit_plain [of "ord b mod 16"]
    by (simp add: hex_text_def)
qed (simp add: hex_text_def)

lemma TokenToText_hex: "TokenToText t = CHR ''@'' # hex_text t @ ''@''"
  by (simp add: TokenToText_def hex_text_def)

lemma plain_line: "plain (line_text hash arrived posted expires tok)"
  by (auto simp: line_text_def line_rest_def TokenToText_hex split: option.split)

lemma dec_nat_time_length: "is_time t \<Longrightarrow> length (dec_nat (to_ulong t)) \<le> (if 0 \<le> t then 19 else 20)"
  using time_bits(2) [of t] dec_nat_length [of "to_ulong t" 20] dec_nat_length [of "to_ulong t" 19]
  by (auto simp: is_time_def ULONG_MAX_def to_ulong_def nat_less_iff)

lemma formatline_fits:
  assumes "length hash = HASH_SIZE" and "\<forall>t. tok = Some t \<longrightarrow> length t = TOKEN_SIZE"
    and "is_time arrived" "is_time posted" "is_time expires" and "0 \<le> arrived" "0 \<le> posted"
  shows "hisv6_formatline hash arrived posted expires tok =
    Some (line_text hash arrived posted expires tok @ [LF])"
proof -
  have "length (dec_nat (to_ulong arrived)) \<le> 19" "length (dec_nat (to_ulong posted)) \<le> 19"
    "0 \<le> expires \<Longrightarrow> length (dec_nat (to_ulong expires)) \<le> 19"
    using assms(3-7) dec_nat_time_length by fastforce+
  then have "length (line_text hash arrived posted expires tok) < 136"
    using assms(1,2) by (auto simp: line_text_def line_rest_def TokenToText_hex HASH_SIZE_def TOKEN_SIZE_def split: option.split)
  then show ?thesis by (simp add: formatline_line [OF assms(1)])
qed

lemma split_times_rest:
  assumes "is_time posted" "is_time expires" and "\<forall>t. tok = Some t \<longrightarrow> length t = TOKEN_SIZE"
  shows "split_times (HISV6_SUBFIELDSEP # line_rest posted expires tok) =
    Inr (tok \<noteq> None \<and> 0 < expires, if tok \<noteq> None \<and> 0 < expires then expires else 0,
         tok \<noteq> None \<or> 0 < posted, if tok \<noteq> None \<or> 0 < posted then posted else 0,
         case tok of None \<Rightarrow> [] | Some t \<Rightarrow> HISV6_FIELDSEP # TokenToText t)"
proof -
  have noexp: "deref (dec_nat n @ r) \<noteq> HISV6_NOEXP" for n r
    using dec_nat_neq_Nil [of n] dec_nat_digits [of n] by (cases "dec_nat n") auto
  note st = strtoul_time [OF assms(1)] strtoul_time [OF assms(2)]
  note sd = split_times_def split_expires_def split_posted_def line_rest_def
  show ?thesis
  proof (cases tok)
    case None
    then show ?thesis using st(1) [of "[]"] st(2,3) [of "[]"] by (simp add: sd)
  next
    case (Some t)
    let ?r = "HISV6_FIELDSEP # TokenToText t"
    have p: "strtoul (dec_nat (to_ulong posted) @ ?r) = (to_ulong posted, ?r)" by (rule st(1)) simp
    have e: "strtoul (dec_nat (to_ulong expires) @ HISV6_SUBFIELDSEP # dec_nat (to_ulong posted) @ ?r) =
        (to_ulong expires, HISV6_SUBFIELDSEP # dec_nat (to_ulong posted) @ ?r)" by (rule st(4)) simp
    show ?thesis using Some p e st(2,3) [of "[]"] st(5,6) [of "[]"] noexp by (simp add: sd)
  qed
qed

lemma splitline_line:
  assumes "length hash = HASH_SIZE" and "\<forall>t. tok = Some t \<longrightarrow> length t = TOKEN_SIZE"
    and "is_time arrived" "is_time posted" "is_time expires"
  shows "hisv6_splitline (line_text hash arrived posted expires tok) =
    Some (Inr (entry_of hash arrived posted expires tok))"
proof -
  let ?r = "HISV6_SUBFIELDSEP # line_rest posted expires tok"
  let ?q = "dec_nat (to_ulong arrived) @ ?r"
  have a: "strtoul ?q = (to_ulong arrived, ?r)" by (rule strtoul_time(1) [OF assms(3)]) simp
  have l: "line_text hash arrived posted expires tok = CHR ''['' # hex_text hash @ CHR '']'' # HISV6_FIELDSEP # ?q"
    by (simp add: line_text_def)
  have d: "drop 32 (hex_text hash @ CHR '']'' # HISV6_FIELDSEP # ?q) = CHR '']'' # HISV6_FIELDSEP # ?q"
    using assms(1) by (simp add: HASH_SIZE_def)
  note ts = split_times_rest [OF assms(4,5,2)]
  note nt = strtoul_time(2,3) [OF assms(3), of "[]"]
  have e: "\<not> IsToken (Some [])" by (simp add: IsToken_def TOKEN_SIZE_def)
  have h: "TextToHash (hex_text hash @ CHR '']'' # HISV6_FIELDSEP # ?q) = hash" by (rule TextToHash_hex [OF assms(1)])
  have "length (hex_text hash @ CHR '']'' # HISV6_FIELDSEP # ?q) \<ge> 32" using assms(1) by (simp add: HASH_SIZE_def)
  then have s: "hisv6_splitline (line_text hash arrived posted expires tok) =
      (case split_times ?r of
         Inl e \<Rightarrow> Some (Inl e)
       | Inr (he, ex, hp, po, p) \<Rightarrow> Some
           (if deref p \<noteq> HISV6_FIELDSEP \<and> p \<noteq> [] then Inl No_separator
            else let p = (if deref p = HISV6_FIELDSEP then tl p else p) in
              Inr \<lparr>have_expires = he, have_posted = hp, lhash = hash, larrived = arrived, lposted = po,
                   lexpires = ex, ltoken = (if IsToken (Some p) then Some (TextToToken p) else None)\<rparr>))"
    using nt unfolding hisv6_splitline_def l Let_def list.sel deref_simps h d a prod.case
    by (auto split: sum.split)
  show ?thesis
  proof (cases tok)
    case None
    then show ?thesis unfolding s ts entry_of_def using e by simp
  next
    case (Some t)
    then have "length t = TOKEN_SIZE" using assms(2) by simp
    then show ?thesis unfolding s ts entry_of_def using Some TokenToText_token [of t] by simp
  qed
qed

text \<open>
  C31: a history line reads back as what was written. For every hash, token or none, and times that
  \<open>hisv6_formatline\<close> writes, the line is one line, without NUL, which \<open>hisv6_splitline\<close> takes apart
  into the same fields (a line without a token keeps no expiry time, and a posting time only if it
  is positive); and with times that are not negative the line always fits. The only time that
  cannot be read back is \<open>- 1\<close>, whose text is that of the error value of \<open>strtoul\<close>.
\<close>

theorem hisv6_line_roundtrip:
  assumes "length hash = HASH_SIZE" and "\<forall>t. tok = Some t \<longrightarrow> length t = TOKEN_SIZE"
    and "is_time arrived" "is_time posted" "is_time expires"
  shows "(\<forall>s. hisv6_formatline hash arrived posted expires tok = Some s \<longrightarrow>
      (\<exists>line. s = line @ [LF] \<and> LF \<notin> set line \<and> NUL \<notin> set line \<and>
        hisv6_splitline line = Some (Inr (entry_of hash arrived posted expires tok)))) \<and>
    (0 \<le> arrived \<longrightarrow> 0 \<le> posted \<longrightarrow> hisv6_formatline hash arrived posted expires tok \<noteq> None)"
proof (intro conjI allI impI)
  fix s assume "hisv6_formatline hash arrived posted expires tok = Some s"
  then have "s = line_text hash arrived posted expires tok @ [LF]"
    by (simp add: formatline_line [OF assms(1)] split: if_splits)
  then show "\<exists>line. s = line @ [LF] \<and> LF \<notin> set line \<and> NUL \<notin> set line \<and>
      hisv6_splitline line = Some (Inr (entry_of hash arrived posted expires tok))"
    using plain_line [unfolded plain_def] splitline_line [OF assms] by blast
qed (simp add: formatline_fits [OF assms])

theorem hisv6_line_roundtrip_witness:
  "\<exists>s. hisv6_formatline (replicate 16 (chr 1)) 1000 900 2000 (Some (replicate 18 (chr 2))) = Some s \<and>
    hisv6_splitline (butlast s) =
      Some (Inr (entry_of (replicate 16 (chr 1)) 1000 900 2000 (Some (replicate 18 (chr 2)))))"
proof -
  let ?f = "hisv6_formatline (replicate 16 (chr 1)) 1000 900 2000 (Some (replicate 18 (chr 2)))"
  note r = hisv6_line_roundtrip [of "replicate 16 (chr 1)" "Some (replicate 18 (chr 2))" 1000 900 2000]
  have n: "?f \<noteq> None" and "\<forall>s. ?f = Some s \<longrightarrow> (\<exists>line. s = line @ [LF] \<and>
      hisv6_splitline line = Some (Inr (entry_of (replicate 16 (chr 1)) 1000 900 2000 (Some (replicate 18 (chr 2))))))"
    using r by (auto simp: HASH_SIZE_def TOKEN_SIZE_def is_time_def)
  then obtain s line where "?f = Some s" "s = line @ [LF]"
    "hisv6_splitline line = Some (Inr (entry_of (replicate 16 (chr 1)) 1000 900 2000 (Some (replicate 18 (chr 2)))))"
    by blast
  then show ?thesis by (intro exI [of _ s]) simp
qed

section \<open>Storing and finding entries\<close>

text \<open>
  \<open>his_line h hash line off\<close>: the database knows the hash, and the line stands at its offset,
  below the end of what has been written.
\<close>

definition his_line :: "hisv6 \<Rightarrow> HASH \<Rightarrow> octets \<Rightarrow> nat \<Rightarrow> bool" where
  "his_line h hash line off \<longleftrightarrow> dbz_maps (hdb h) hash (int off) \<and> off + length line + 1 \<le> hoffset h \<and>
     take (length line + 1) (drop off (hfile h)) = line @ [LF] \<and> plain line \<and>
     HISV6_MINLINE \<le> length line + 1 \<and> length line + 1 \<le> HISV6_MAXLINE"

definition his_ok :: "hisv6 \<Rightarrow> bool" where
  "his_ok h \<longleftrightarrow> dbz_ok (hdb h) \<and> rdwr h \<and> hoffset h \<le> length (hfile h) \<and> \<not> prevp (hdb h)"

text \<open>Every place in use leads to a line in the part of the file that has been written.\<close>

definition line_at :: "octets \<Rightarrow> nat \<Rightarrow> int \<Rightarrow> bool" where
  "line_at f lim x \<longleftrightarrow> 0 \<le> x \<and> (\<exists>n. HISV6_MINLINE \<le> n + 1 \<and> n + 1 \<le> HISV6_MAXLINE \<and> nat x + n + 1 \<le> lim \<and>
     f ! (nat x + n) = LF \<and> (\<forall>i<n. f ! (nat x + i) \<noteq> LF \<and> f ! (nat x + i) \<noteq> NUL))"

text \<open>Reading does not change the files, the settings or what the database holds.\<close>

definition his_same :: "hisv6 \<Rightarrow> hisv6 \<Rightarrow> bool" where
  "his_same h h' \<longleftrightarrow> h' = h\<lparr>hdb := hdb h'\<rparr> \<and> same_tables (hdb h) (hdb h')"

lemma his_same_holds:
  assumes "his_same h h'"
  shows "his_line h' = his_line h" "dbz_has (hdb h') = dbz_has (hdb h)" "dbz_ok (hdb h') = dbz_ok (hdb h)"
    "hfile h' = hfile h" "hoffset h' = hoffset h" "rdwr h' = rdwr h" "wfail h' = wfail h"
    "synccount h' = synccount h"
proof -
  have s: "same_tables (hdb h) (hdb h')" "h' = h\<lparr>hdb := hdb h'\<rparr>" using assms by (auto simp: his_same_def)
  have f: "hfile (h\<lparr>hdb := d\<rparr>) = hfile h" "hoffset (h\<lparr>hdb := d\<rparr>) = hoffset h" "rdwr (h\<lparr>hdb := d\<rparr>) = rdwr h"
    "wfail (h\<lparr>hdb := d\<rparr>) = wfail h" "synccount (h\<lparr>hdb := d\<rparr>) = synccount h" for d by simp_all
  show e: "hfile h' = hfile h" "hoffset h' = hoffset h" "rdwr h' = rdwr h" "wfail h' = wfail h"
    "synccount h' = synccount h"
    using f [of "hdb h'"] s(2) by simp_all
  show "dbz_has (hdb h') = dbz_has (hdb h)" "dbz_ok (hdb h') = dbz_ok (hdb h)" using same_tables_holds [OF s(1)] by simp_all
  show "his_line h' = his_line h"
    unfolding his_line_def e same_tables_holds(5) [OF s(1)] ..
qed

lemma takeWhile_line:
  assumes "take (length l + 1) s = l @ [LF]" and "plain l" and "length l + 1 \<le> n"
  shows "LF \<in> set (takeWhile (\<lambda>c. c \<noteq> NUL) (take n s)) \<and>
    takeWhile (\<lambda>c. c \<noteq> LF) (takeWhile (\<lambda>c. c \<noteq> NUL) (take n s)) = l \<and> length l + 1 \<le> length s"
proof -
  have s: "s = (l @ [LF]) @ drop (length l + 1) s" using assms(1) by (metis append_take_drop_id)
  have "take n s = take n ((l @ [LF]) @ drop (length l + 1) s)" using s by simp
  also have "\<dots> = l @ LF # take (n - (length l + 1)) (drop (length l + 1) s)"
    unfolding take_append [of n "l @ [LF]"] using assms(3) by simp
  finally obtain r where r: "take n s = l @ LF # r" by blast
  have "takeWhile (\<lambda>c. c \<noteq> NUL) (take n s) = l @ LF # takeWhile (\<lambda>c. c \<noteq> NUL) r"
    using assms(2) unfolding r plain_def by (subst takeWhile_append2) auto
  moreover have "takeWhile (\<lambda>c. c \<noteq> LF) (l @ LF # x) = l" for x
    using assms(2) unfolding plain_def by (subst takeWhile_append2) auto
  moreover have "length l + 1 \<le> length s" using arg_cong [OF s, of length] by simp
  ultimately show ?thesis by simp
qed

lemma fetchline_spec:
  assumes "dbz_ok (hdb h)"
  shows "\<exists>r h'. hisv6_fetchline h hash = Some (r, h') \<and> his_same h h' \<and> prevp (hdb h') = (\<not> dbz_has (hdb h) hash) \<and>
    (\<not> dbz_has (hdb h) hash \<longrightarrow> r = None) \<and> (\<forall>l off. his_line h hash l off \<longrightarrow> r = Some (l, off))"
proof -
  from dbzfetch_ok [OF assms, of hash] obtain r db where
    d: "dbzfetch (hdb h) hash = Some (r, db)" "same_tables (hdb h) db" "\<forall>x. r = Some x \<longleftrightarrow> dbz_maps (hdb h) hash x"
      "prevp db = (\<not> dbz_has (hdb h) hash)" "r = None \<longleftrightarrow> \<not> dbz_has (hdb h) hash" by blast
  let ?h = "h\<lparr>hdb := db\<rparr>"
  have same: "his_same h ?h" using d(2) by (simp add: his_same_def)
  show ?thesis
  proof (cases "\<exists>l off. his_line h hash l off")
    case True
    then obtain l off where l: "his_line h hash l off" by blast
    then have r: "r = Some (int off)" using d(3) by (simp add: his_line_def)
    let ?buf = "take HISV6_MAXLINE (drop off (hfile h))"
    from l have b: "LF \<in> set (takeWhile (\<lambda>c. c \<noteq> NUL) ?buf)"
      "takeWhile (\<lambda>c. c \<noteq> LF) (takeWhile (\<lambda>c. c \<noteq> NUL) ?buf) = l" "length l + 1 \<le> length (drop off (hfile h))"
      using takeWhile_line [of l "drop off (hfile h)" HISV6_MAXLINE] by (auto simp: his_line_def)
    have "HISV6_MINLINE \<le> length l + 1" "length l + 1 \<le> HISV6_MAXLINE" using l by (auto simp: his_line_def)
    then have "\<not> length ?buf < HISV6_MINLINE"
      using b(3) by (simp add: min_def HISV6_MAXLINE_def HISV6_MINLINE_def)
    then have f: "hisv6_fetchline h hash = Some (Some (l, off), ?h)"
      using d(1) r b(1,2) by (simp add: hisv6_fetchline_def Let_def)
    have "x = l \<and> y = off" if "his_line h hash x y" for x y
    proof -
      from that have "dbz_maps (hdb h) hash (int y)" by (simp add: his_line_def)
      then have "r = Some (int y)" using d(3) by blast
      then have y: "y = off" using r by simp
      from that have "takeWhile (\<lambda>c. c \<noteq> LF) (takeWhile (\<lambda>c. c \<noteq> NUL) ?buf) = x"
        using takeWhile_line [of x "drop off (hfile h)" HISV6_MAXLINE] y by (auto simp: his_line_def)
      then show ?thesis using b(2) y by simp
    qed
    then show ?thesis using f same d(4,5) r by (intro exI [of _ "Some (l, off)"] exI [of _ ?h]) auto
  next
    case False
    have "\<exists>q. hisv6_fetchline h hash = Some (q, ?h) \<and> (r = None \<longrightarrow> q = None)"
      using d(1) by (cases r) (auto simp: hisv6_fetchline_def Let_def)
    then obtain q where "hisv6_fetchline h hash = Some (q, ?h)" "r = None \<longrightarrow> q = None" by blast
    then show ?thesis using False same d(4,5) by (intro exI [of _ q] exI [of _ ?h]) auto
  qed
qed

text \<open>
  The key whose search the next store would resume: after a fetch that missed, or a store of a key
  that was there. \<open>full_at db off\<close>: every place in use has a line offset with the property.
\<close>

definition pending :: "dbz \<Rightarrow> HASH set" where
  "pending db = (if prevp db then {shash (srch db)} else {})"

definition full_at :: "(int \<Rightarrow> bool) \<Rightarrow> dbz \<Rightarrow> bool" where
  "full_at P db \<longleftrightarrow> (\<forall>p. view (etab db) (slots db) p \<noteq> empty_rec \<longrightarrow> P (view (idxtab db) (slots db) p))"

lemma full_at_same: "same_tables db db' \<Longrightarrow> full_at P db' = full_at P db"
  by (simp add: full_at_def same_tables_def)

lemma full_at_stored: "stored_at db db' h x p \<Longrightarrow> full_at P db \<Longrightarrow> P x \<Longrightarrow> full_at P db'"
  by (auto simp: full_at_def stored_at_def)

lemma full_at_maps: "full_at P db \<Longrightarrow> dbz_maps db h x \<Longrightarrow> P x"
  unfolding dbz_maps_def found_at_def full_at_def by metis

lemma dbzstore_spec:
  assumes "dbz_ok db" and "hash \<notin> pending db" and "prefix6 hash \<noteq> empty_rec"
  shows "\<exists>s db'. dbzstore db hash x = Some (s, db') \<and> s \<noteq> DBZSTORE_ERROR \<and> dbz_ok db' \<and> pending db' \<subseteq> {hash} \<and>
    (\<not> prevp db \<longrightarrow> \<not> prevp db') \<and> dbz_has db' hash \<and> (\<not> dbz_has db hash \<longrightarrow> dbz_maps db' hash x) \<and>
    (\<forall>g y. dbz_maps db g y \<longrightarrow> dbz_maps db' g y) \<and> (\<forall>g. dbz_has db g \<longrightarrow> dbz_has db' g) \<and>
    (\<forall>P. full_at P db \<longrightarrow> P x \<longrightarrow> full_at P db')"
proof -
  have np: "\<not> prevp db \<or> shash (srch db) \<noteq> hash" using assms(2) by (auto simp: pending_def split: if_splits)
  show ?thesis
  proof (cases "dbz_has db hash")
    case True
    then obtain db' where d: "dbzstore db hash x = Some (DBZSTORE_EXISTS, db')" "same_tables db db'"
        "prevp db' = prevp db" "shash (srch db') = hash"
      using dbzstore_fresh [OF assms(1) np assms(3), of x] by blast
    with same_tables_holds [OF d(2)] True assms(1) full_at_same [OF d(2)] show ?thesis
      by (intro exI [of _ DBZSTORE_EXISTS] exI [of _ db']) (simp add: pending_def)
  next
    case False
    then obtain db' k where d: "dbzstore db hash x = Some (DBZSTORE_OK, db')" "absent_at db hash k"
        "stored_at db db' hash x (key_place db hash k)"
      using dbzstore_fresh [OF assms(1) np assms(3), of x] by blast
    have "dbz_ok db'" "\<not> prevp db'" using d(3) by (auto simp: stored_at_def)
    with d(1) stored_found [OF d(3,2) assms(3)] stored_keeps_maps [OF d(3)] stored_keeps_has [OF d(3)]
      full_at_stored [OF d(3)] show ?thesis
      by (intro exI [of _ DBZSTORE_OK] exI [of _ db']) (simp add: pending_def)
  qed
qed

lemma writedbz_spec:
  assumes "dbz_ok (hdb h)" and "hash \<notin> pending (hdb h)" and "prefix6 hash \<noteq> empty_rec"
  shows "\<exists>h'. hisv6_writedbz h hash off = Some (True, h') \<and> h' = h\<lparr>hdb := hdb h', hdirty := hdirty h'\<rparr> \<and>
    dbz_ok (hdb h') \<and> pending (hdb h') \<subseteq> {hash} \<and> (\<not> prevp (hdb h) \<longrightarrow> \<not> prevp (hdb h')) \<and> dbz_has (hdb h') hash \<and>
    (\<not> dbz_has (hdb h) hash \<longrightarrow> dbz_maps (hdb h') hash (int off)) \<and>
    (\<forall>g y. dbz_maps (hdb h) g y \<longrightarrow> dbz_maps (hdb h') g y) \<and> (\<forall>g. dbz_has (hdb h) g \<longrightarrow> dbz_has (hdb h') g) \<and>
    (\<forall>P. full_at P (hdb h) \<longrightarrow> P (int off) \<longrightarrow> full_at P (hdb h'))"
proof -
  from dbzstore_spec [OF assms, of "int off"] obtain s db where
    d: "dbzstore (hdb h) hash (int off) = Some (s, db)" "s \<noteq> DBZSTORE_ERROR" "dbz_ok db" "pending db \<subseteq> {hash}"
      "\<not> prevp (hdb h) \<longrightarrow> \<not> prevp db" "dbz_has db hash" "\<not> dbz_has (hdb h) hash \<longrightarrow> dbz_maps db hash (int off)"
      "\<forall>g y. dbz_maps (hdb h) g y \<longrightarrow> dbz_maps db g y" "\<forall>g. dbz_has (hdb h) g \<longrightarrow> dbz_has db g"
      "\<forall>P. full_at P (hdb h) \<longrightarrow> P (int off) \<longrightarrow> full_at P db"
    by (elim exE conjE) (rule that)
  let ?h = "if synccount h \<noteq> 0 then h\<lparr>hdb := db, hdirty := hdirty h + 1\<rparr> else h\<lparr>hdb := db\<rparr>"
  from dbzsync_keeps [OF d(3)] obtain db' where
    y: "dbzsync db = (True, db')" "dbz_ok db'" "dbz_maps db' = dbz_maps db" "dbz_has db' = dbz_has db" "prevp db' = prevp db"
      "srch db' = srch db" "slots db' = slots db" "view (etab db') (slots db) = view (etab db) (slots db)"
      "view (idxtab db') (slots db) = view (idxtab db) (slots db)"
    by blast
  have y': "pending db' = pending db" "full_at P db' = full_at P db" for P
    using y(5-9) by (simp_all add: pending_def full_at_def)
  show ?thesis
  proof (cases "synccount h \<noteq> 0 \<and> synccount h \<le> hdirty h + 1 \<and> rdwr h")
    case True
    then have "hisv6_writedbz h hash off = Some (True, h\<lparr>hdb := db', hdirty := 0\<rparr>)"
      using d(1,2) y(1) by (simp add: hisv6_writedbz_def hisv6_sync_def Let_def)
    then show ?thesis using d y(2-5) y' by (intro exI [of _ "h\<lparr>hdb := db', hdirty := 0\<rparr>"]) simp
  next
    case False
    then have "hisv6_writedbz h hash off = Some (True, ?h)"
      using d(1,2) by (auto simp: hisv6_writedbz_def hisv6_sync_def Let_def)
    then show ?thesis using d by (intro exI [of _ ?h]) simp
  qed
qed

text \<open>Writing at the end leaves what is below in place.\<close>

lemma write_at_end:
  assumes "off \<le> length f"
  shows "take off (write_at f off s) = take off f" "off + length s \<le> length (write_at f off s)"
    "take (length s) (drop off (write_at f off s)) = s"
  using assms by (auto simp: write_at_def)

lemma his_line_kept:
  assumes "his_line h g l p" and "\<forall>g y. dbz_maps (hdb h) g y \<longrightarrow> dbz_maps (hdb h') g y"
    and "take (hoffset h) (hfile h') = take (hoffset h) (hfile h)" and "hoffset h \<le> hoffset h'"
  shows "his_line h' g l p"
proof -
  have p: "p + length l + 1 \<le> hoffset h" using assms(1) by (simp add: his_line_def)
  have t: "take n (drop p f) = take n (drop p (take (hoffset h) f))" if "p + n \<le> hoffset h" for n f
    using that by (simp add: drop_take min_def)
  have "take (length l + 1) (drop p (hfile h')) = take (length l + 1) (drop p (hfile h))"
    using t [of "length l + 1" "hfile h'"] t [of "length l + 1" "hfile h"] p unfolding assms(3) by simp
  then show ?thesis using assms(1,2,4) p unfolding his_line_def by auto
qed

text \<open>The invariant of a history open for writing, whatever search is pending.\<close>

definition his_lines :: "hisv6 \<Rightarrow> bool" where
  "his_lines h \<longleftrightarrow> full_at (line_at (hfile h) (hoffset h)) (hdb h)"

definition his_inv :: "hisv6 \<Rightarrow> bool" where
  "his_inv h \<longleftrightarrow> dbz_ok (hdb h) \<and> rdwr h \<and> hoffset h \<le> length (hfile h) \<and> his_lines h"

lemma line_at_take:
  assumes "line_at f lim x" and "take lim f' = take lim f" and "lim \<le> lim'"
  shows "line_at f' lim' x"
proof -
  obtain n where n: "0 \<le> x" "HISV6_MINLINE \<le> n + 1" "n + 1 \<le> HISV6_MAXLINE" "nat x + n + 1 \<le> lim"
      "f ! (nat x + n) = LF" "\<forall>i<n. f ! (nat x + i) \<noteq> LF \<and> f ! (nat x + i) \<noteq> NUL"
    using assms(1) unfolding line_at_def by blast
  have e: "f' ! i = f ! i" if "i < lim" for i using arg_cong [OF assms(2), of "\<lambda>l. l ! i"] that by simp
  have "f' ! (nat x + n) = LF" "\<forall>i<n. f' ! (nat x + i) \<noteq> LF \<and> f' ! (nat x + i) \<noteq> NUL"
    using n(4-6) e by simp_all
  then show ?thesis using n(1-4) assms(3) unfolding line_at_def by (intro conjI exI [of _ n]) simp_all
qed

lemma line_at_line:
  assumes "plain l" and "take (length l + 1) (drop off f) = l @ [LF]" and "off + length l + 1 \<le> lim"
    and "HISV6_MINLINE \<le> length l + 1" and "length l + 1 \<le> HISV6_MAXLINE" and "lim \<le> length f"
  shows "line_at f lim (int off)"
proof -
  have e: "f ! (off + i) = (l @ [LF]) ! i" if "i \<le> length l" for i
    using that assms(3,6) arg_cong [OF assms(2), of "\<lambda>s. s ! i"] by simp
  have "l ! i \<noteq> LF \<and> l ! i \<noteq> NUL" if "i < length l" for i
    using assms(1) that unfolding plain_def by (metis nth_mem)
  then have "f ! (off + length l) = LF" "\<forall>i<length l. f ! (off + i) \<noteq> LF \<and> f ! (off + i) \<noteq> NUL"
    using e by (simp_all add: nth_append)
  then show ?thesis using assms(3-5) unfolding line_at_def nat_int by (intro conjI exI [of _ "length l"]) simp_all
qed

lemma line_text_length:
  assumes "hisv6_formatline hash arrived posted expires tok = Some s" and "length hash = HASH_SIZE"
  shows "s = line_text hash arrived posted expires tok @ [LF]"
    "HISV6_MINLINE \<le> length (line_text hash arrived posted expires tok) + 1"
    "length (line_text hash arrived posted expires tok) + 1 \<le> HISV6_MAXLINE"
  using assms formatline_line [OF assms(2), of arrived posted expires tok]
  by (auto simp: line_text_def HISV6_MINLINE_def HISV6_MAXLINE_def HASH_SIZE_def split: if_splits)

text \<open>Writing a line, in the part of the state that matters to the entries.\<close>

definition writes :: "hisv6 \<Rightarrow> HASH \<Rightarrow> hisv6 \<Rightarrow> bool" where
  "writes h hash h' \<longleftrightarrow> dbz_ok (hdb h') \<and> rdwr h' \<and> hoffset h' \<le> length (hfile h') \<and> wfail h' = wfail h \<and>
     pending (hdb h') \<subseteq> {hash} \<union> pending (hdb h) \<and> (\<not> prevp (hdb h) \<longrightarrow> \<not> prevp (hdb h')) \<and>
     (his_lines h \<longrightarrow> his_lines h') \<and> (\<forall>g l p. his_line h g l p \<longrightarrow> his_line h' g l p) \<and>
     (\<forall>g. dbz_has (hdb h) g \<longrightarrow> dbz_has (hdb h') g)"

lemma writeline_writes:
  assumes "dbz_ok (hdb h)" and "rdwr h" and "hoffset h \<le> length (hfile h)" and "hash \<notin> pending (hdb h)"
    and "prefix6 hash \<noteq> empty_rec" and "length hash = HASH_SIZE"
  shows "\<exists>r h'. hisv6_writeline h hash arrived posted expires tok = Some (r, h') \<and> writes h hash h' \<and>
    r = (wfail h = None \<and> hisv6_formatline hash arrived posted expires tok \<noteq> None) \<and> (\<not> r \<longrightarrow> hdb h' = hdb h) \<and>
    (r \<longrightarrow> dbz_has (hdb h') hash \<and>
      (\<not> dbz_has (hdb h) hash \<longrightarrow> his_line h' hash (line_text hash arrived posted expires tok) (hoffset h)))"
proof (cases "hisv6_formatline hash arrived posted expires tok")
  case None
  then have "hisv6_writeline h hash arrived posted expires tok = Some (False, h)"
    using assms(2) by (simp add: hisv6_writeline_def)
  then show ?thesis using None assms(1-3) by (intro exI [of _ False] exI [of _ h]) (auto simp: writes_def)
next
  case (Some line)
  let ?l = "line_text hash arrived posted expires tok"
  note ll = line_text_length [OF Some assms(6)]
  then have f: "hisv6_formatline hash arrived posted expires tok = Some (?l @ [LF])" using Some by simp
  show ?thesis
  proof (cases "wfail h")
    case (Some i)
    define part where "part = take i (?l @ [LF])"
    define h' where "h' = (let h1 = h\<lparr>hfile := write_at (hfile h) (hoffset h) part\<rparr> in
      if seekfail h then h1\<lparr>hoffset := hoffset h + length part\<rparr> else h1)"
    note w = write_at_end [OF assms(3), of part]
    have e: "hisv6_writeline h hash arrived posted expires tok = Some (False, h')"
      using f Some assms(2) by (simp add: hisv6_writeline_def h'_def Let_def part_def min.commute)
    have h': "hdb h' = hdb h" "wfail h' = wfail h" "rdwr h' = rdwr h" "hoffset h' \<le> length (hfile h')"
      "hoffset h \<le> hoffset h'" "hfile h' = write_at (hfile h) (hoffset h) part"
      using assms(3) w(2) by (auto simp: h'_def Let_def)
    have keep: "his_line h' g l p" if "his_line h g l p" for g l p
      by (rule his_line_kept [OF that]) (use w(1) h' in auto)
    have "line_at (hfile h) (hoffset h) x \<Longrightarrow> line_at (hfile h') (hoffset h') x" for x
      by (rule line_at_take [of "hfile h" "hoffset h"]) (use w(1) h' in auto)
    then have "his_lines h \<longrightarrow> his_lines h'" using h'(1) by (auto simp: his_lines_def full_at_def)
    then have "writes h hash h'" using assms(1,2) keep h' by (auto simp: writes_def)
    then show ?thesis using e Some h'(1) by (intro exI [of _ False] exI [of _ h']) simp
  next
    case None
    let ?h1 = "h\<lparr>hfile := write_at (hfile h) (hoffset h) (?l @ [LF])\<rparr>"
    note w = write_at_end [OF assms(3), of "?l @ [LF]"]
    from writedbz_spec [of ?h1 hash "hoffset h"] assms(1,4,5) obtain h2 where
      d: "hisv6_writedbz ?h1 hash (hoffset h) = Some (True, h2)" "h2 = ?h1\<lparr>hdb := hdb h2, hdirty := hdirty h2\<rparr>"
        "dbz_ok (hdb h2)" "pending (hdb h2) \<subseteq> {hash}" "\<not> prevp (hdb h) \<longrightarrow> \<not> prevp (hdb h2)" "dbz_has (hdb h2) hash"
        "\<not> dbz_has (hdb h) hash \<longrightarrow> dbz_maps (hdb h2) hash (int (hoffset h))"
        "\<forall>g y. dbz_maps (hdb h) g y \<longrightarrow> dbz_maps (hdb h2) g y" "\<forall>g. dbz_has (hdb h) g \<longrightarrow> dbz_has (hdb h2) g"
        "\<forall>P. full_at P (hdb h) \<longrightarrow> P (int (hoffset h)) \<longrightarrow> full_at P (hdb h2)"
      by auto
    have "hfile (h\<lparr>hfile := a, hdb := b, hdirty := c\<rparr>) = a" "hoffset (h\<lparr>hfile := a, hdb := b, hdirty := c\<rparr>) = hoffset h"
      "rdwr (h\<lparr>hfile := a, hdb := b, hdirty := c\<rparr>) = rdwr h" "wfail (h\<lparr>hfile := a, hdb := b, hdirty := c\<rparr>) = wfail h"
      for a b c by simp_all
    then have s: "hfile h2 = write_at (hfile h) (hoffset h) (?l @ [LF])" "hoffset h2 = hoffset h" "rdwr h2 = rdwr h"
      "wfail h2 = wfail h" using d(2) by metis+
    let ?h = "h2\<lparr>hoffset := hoffset h + length ?l + 1\<rparr>"
    have e: "hisv6_writeline h hash arrived posted expires tok = Some (True, ?h)"
      using f None assms(2) d(1) s(2) by (simp add: hisv6_writeline_def Let_def)
    have keep: "his_line ?h g l p" if "his_line h g l p" for g l p
      by (rule his_line_kept [OF that]) (use w(1) d(8) s in auto)
    have new: "his_line ?h hash ?l (hoffset h)" if "\<not> dbz_has (hdb h) hash"
      using w(3) d(7) that ll(2,3) plain_line s(1) by (simp add: his_line_def)
    have "line_at (hfile ?h) (hoffset ?h) (int (hoffset h))"
      using w(2,3) ll(2,3) s(1) by (intro line_at_line [OF plain_line]) simp_all
    moreover have "line_at (hfile h) (hoffset h) x \<Longrightarrow> line_at (hfile ?h) (hoffset ?h) x" for x
      by (rule line_at_take [of "hfile h" "hoffset h"]) (use w(1) s in auto)
    then have "his_lines h \<Longrightarrow> full_at (line_at (hfile ?h) (hoffset ?h)) (hdb h)"
      unfolding his_lines_def full_at_def by blast
    ultimately have "his_lines h \<Longrightarrow> his_lines ?h" using d(10) by (simp add: his_lines_def)
    then have "writes h hash ?h" using assms(2) w(2) keep d s by (auto simp: writes_def)
    then show ?thesis using e None f d(6) new by (intro exI [of _ True] exI [of _ ?h]) simp
  qed
qed

lemma writeline_spec:
  assumes "his_ok h" and "prefix6 hash \<noteq> empty_rec" and "length hash = HASH_SIZE"
    and "hisv6_formatline hash arrived posted expires tok \<noteq> None"
  shows "\<exists>r h'. hisv6_writeline h hash arrived posted expires tok = Some (r, h') \<and> his_ok h' \<and>
    r = (wfail h = None) \<and> wfail h' = wfail h \<and>
    (r \<longrightarrow> dbz_has (hdb h') hash \<and>
      (\<not> dbz_has (hdb h) hash \<longrightarrow> his_line h' hash (line_text hash arrived posted expires tok) (hoffset h))) \<and>
    (\<forall>g l p. his_line h g l p \<longrightarrow> his_line h' g l p) \<and> (\<forall>g. dbz_has (hdb h) g \<longrightarrow> dbz_has (hdb h') g)"
proof -
  have ok: "dbz_ok (hdb h)" "rdwr h" "hoffset h \<le> length (hfile h)" "hash \<notin> pending (hdb h)" "\<not> prevp (hdb h)"
    using assms(1) by (auto simp: his_ok_def pending_def)
  from writeline_writes [OF ok(1-4) assms(2,3), of arrived posted expires tok] assms(4) ok(5) show ?thesis
    by (auto simp: writes_def his_ok_def)
qed

lemma HashMessageID_length [simp]: "length (HashMessageID key) = HASH_SIZE"
  by (simp add: HashMessageID_def)

text \<open>Looking up a message-ID whose line is in place.\<close>

lemma lookup_spec:
  assumes "dbz_ok (hdb h)" and "his_line h (HashMessageID key) (line_text (HashMessageID key) arrived posted expires tok) off"
    and "\<forall>t. tok = Some t \<longrightarrow> length t = TOKEN_SIZE" and "is_time arrived" "is_time posted" "is_time expires"
  shows "\<exists>h'. hisv6_lookup h key =
    Some (if tok = None then None else Some (entry_of (HashMessageID key) arrived posted expires tok), h') \<and> his_same h h'"
proof -
  from fetchline_spec [OF assms(1), of "HashMessageID key"] assms(2) obtain h' where
    f: "hisv6_fetchline h (HashMessageID key) = Some (Some (line_text (HashMessageID key) arrived posted expires tok, off), h')"
      "his_same h h'" by blast
  have "ltoken (entry_of k a p e t) = t" for k a p e t by (simp add: entry_of_def)
  then show ?thesis
    using f splitline_line [OF HashMessageID_length assms(3-6), of key]
    by (intro exI [of _ h']) (simp add: hisv6_lookup_def)
qed

lemma check_spec:
  assumes "dbz_ok (hdb h)"
  shows "\<exists>h'. hisv6_check h key = Some (dbz_has (hdb h) (HashMessageID key), h') \<and> his_same h h' \<and> \<not> prevp (hdb h')"
proof -
  from dbzexists_ok [OF assms, of "HashMessageID key"] obtain db where
    "dbzexists (hdb h) (HashMessageID key) = Some (dbz_has (hdb h) (HashMessageID key), db)" "same_tables (hdb h) db"
    "\<not> prevp db" by blast
  then show ?thesis by (intro exI [of _ "h\<lparr>hdb := db\<rparr>"]) (simp add: hisv6_check_def his_same_def)
qed

text \<open>
  C14: an article that is written to history is found. On a history in order, \<open>hisv6_write\<close> of a
  message-ID that is not there returns; unless the write to the text file fails it succeeds, and
  from then on \<open>hisv6_check\<close> says yes and \<open>hisv6_lookup\<close> returns exactly the times and the token
  written, read back through the hash tables and the text. Whether it succeeds or not, even when
  the failed write left part of a line in the file or could not be undone, every entry there was
  is still there, and the history is in order for the next operation.
\<close>

theorem hisv6_write_lookup:
  assumes "his_ok h" and "prefix6 (HashMessageID key) \<noteq> empty_rec" and "\<not> dbz_has (hdb h) (HashMessageID key)"
    and "length t = TOKEN_SIZE" and "is_time arrived" "is_time posted" "is_time expires"
    and "0 \<le> arrived" "0 \<le> posted"
  shows "\<exists>r h'. hisv6_write h key arrived posted expires (Some t) = Some (r, h') \<and> his_ok h' \<and> r = (wfail h = None) \<and>
    (r \<longrightarrow> (\<exists>h2 h3. hisv6_check h' key = Some (True, h2) \<and>
      hisv6_lookup h' key = Some (Some (entry_of (HashMessageID key) arrived posted expires (Some t)), h3))) \<and>
    (\<forall>g l p. his_line h g l p \<longrightarrow> his_line h' g l p)"
proof -
  let ?k = "HashMessageID key"
  have tok: "\<forall>x. Some t = Some x \<longrightarrow> length x = TOKEN_SIZE" using assms(4) by simp
  have "hisv6_formatline ?k arrived posted expires (Some t) \<noteq> None"
    using formatline_fits [OF HashMessageID_length tok assms(5-9)] by simp
  from writeline_spec [OF assms(1,2) HashMessageID_length this] obtain r h' where
    w: "hisv6_writeline h ?k arrived posted expires (Some t) = Some (r, h')" "his_ok h'" "r = (wfail h = None)"
      "wfail h' = wfail h"
      "r \<longrightarrow> dbz_has (hdb h') ?k \<and>
        (\<not> dbz_has (hdb h) ?k \<longrightarrow> his_line h' ?k (line_text ?k arrived posted expires (Some t)) (hoffset h))"
      "\<forall>g l p. his_line h g l p \<longrightarrow> his_line h' g l p" "\<forall>g. dbz_has (hdb h) g \<longrightarrow> dbz_has (hdb h') g"
    by (elim exE conjE) (rule that)
  have ok: "dbz_ok (hdb h')" using w(2) by (simp add: his_ok_def)
  have "\<exists>h2 h3. hisv6_check h' key = Some (True, h2) \<and>
      hisv6_lookup h' key = Some (Some (entry_of ?k arrived posted expires (Some t)), h3)" if r
  proof -
    have n: "dbz_has (hdb h') ?k" "his_line h' ?k (line_text ?k arrived posted expires (Some t)) (hoffset h)"
      using w(5) that assms(3) by simp_all
    from check_spec [OF ok, of key] lookup_spec [OF ok n(2) tok assms(5-7)] n(1) show ?thesis by auto
  qed
  then show ?thesis using w unfolding hisv6_write_def by (intro exI [of _ r] exI [of _ h']) blast
qed

definition blank_his :: hisv6 where
  "blank_his = \<lparr>hfile = [], hoffset = 0, rdwr = True, synccount = 2, hdirty = 0, hdb = blank_db 65536, wfail = None,
                seekfail = False\<rparr>"

lemma blank_his_ok: "his_ok blank_his" "\<not> dbz_has (hdb blank_his) hash" "wfail blank_his = None"
  using blank_db_ok [of 65536] by (simp_all add: his_ok_def blank_his_def)

lemma example_prefix: "prefix6 (HashMessageID ''<a@b>'') \<noteq> empty_rec"
proof -
  have "chr 136 \<noteq> NUL" by code_simp
  then show ?thesis by (simp add: HashMessageID_example prefix6_def empty_rec_def DBZ_INTERNAL_HASH_SIZE_def numeral_eq_Suc)
qed

theorem hisv6_write_lookup_witness:
  "\<exists>h' h3. hisv6_write blank_his ''<a@b>'' 1000 900 0 (Some (replicate 18 (chr 2))) = Some (True, h') \<and>
    hisv6_lookup h' ''<a@b>'' =
      Some (Some (entry_of (HashMessageID ''<a@b>'') 1000 900 0 (Some (replicate 18 (chr 2)))), h3)"
proof -
  have t: "length (replicate 18 (chr 2)) = TOKEN_SIZE" "is_time 1000" "is_time 900" "is_time 0"
    by (simp_all add: TOKEN_SIZE_def is_time_def)
  from hisv6_write_lookup [OF blank_his_ok(1) example_prefix blank_his_ok(2) t] blank_his_ok(3)
  show ?thesis by auto
qed

section \<open>Replacing entries\<close>

lemma splitline_padded:
  assumes "length hash = HASH_SIZE" and "is_time arrived" "is_time posted"
  shows "hisv6_splitline (line_text hash arrived posted expires None @ SP # r) = Some (Inl No_separator)"
proof -
  have sp: "\<not> c_isdigit SP" "SP \<noteq> HISV6_SUBFIELDSEP" "SP \<noteq> HISV6_FIELDSEP"
    by (simp_all add: c_isdigit_def ord_def HISV6_SUBFIELDSEP_def HISV6_FIELDSEP_def)
  let ?r = "HISV6_SUBFIELDSEP # line_rest posted expires None @ SP # r"
  let ?q = "dec_nat (to_ulong arrived) @ ?r"
  have a: "strtoul ?q = (to_ulong arrived, ?r)" by (rule strtoul_time(1) [OF assms(2)]) simp
  have p: "strtoul (dec_nat (to_ulong posted) @ SP # r) = (to_ulong posted, SP # r)"
    by (rule strtoul_time(1) [OF assms(3)]) (simp add: sp)
  have ts: "split_times ?r = Inr (False, 0, 0 < posted, if 0 < posted then posted else 0, SP # r)"
    using p strtoul_time(2,3) [OF assms(3), of "[]"] sp
    by (simp add: split_times_def split_expires_def split_posted_def line_rest_def)
  have l: "line_text hash arrived posted expires None @ SP # r = CHR ''['' # hex_text hash @ CHR '']'' # HISV6_FIELDSEP # ?q"
    by (simp add: line_text_def)
  have d: "drop 32 (hex_text hash @ CHR '']'' # HISV6_FIELDSEP # ?q) = CHR '']'' # HISV6_FIELDSEP # ?q"
    using assms(1) by (simp add: HASH_SIZE_def)
  have "length (hex_text hash @ CHR '']'' # HISV6_FIELDSEP # ?q) \<ge> 32" using assms(1) by (simp add: HASH_SIZE_def)
  then show ?thesis
    using ts strtoul_time(2) [OF assms(2), of "[]"] sp
    unfolding hisv6_splitline_def l Let_def list.sel deref_simps d a prod.case by auto
qed

lemma line_text_prune:
  "length t = TOKEN_SIZE \<Longrightarrow> \<exists>k. length (line_text hash arrived posted expires (Some t)) =
     length (line_text hash arrived posted expires None) + Suc k"
  by (rule exI [of _ "length (line_text hash arrived posted expires (Some t)) -
        length (line_text hash arrived posted expires None) - 1"])
    (auto simp: line_text_def line_rest_def TokenToText_hex TOKEN_SIZE_def)

lemma his_line_replaced:
  assumes "his_line h hash old off" and "length out = length old" and "plain out" and "his_ok h" and "his_same h h1"
  shows "his_line (h1\<lparr>hfile := write_at (hfile h) off out\<rparr>) hash out off"
proof -
  have l: "dbz_maps (hdb h) hash (int off)" "off + length old + 1 \<le> hoffset h"
    "take (length old + 1) (drop off (hfile h)) = old @ [LF]" "HISV6_MINLINE \<le> length old + 1" "length old + 1 \<le> HISV6_MAXLINE"
    using assms(1) by (auto simp: his_line_def)
  have n: "off + length old + 1 \<le> length (hfile h)" using l(2) assms(4) by (simp add: his_ok_def)
  have "(old @ [LF]) ! length old = LF" by simp
  then have lf: "drop off (hfile h) ! length old = LF" unfolding l(3) [symmetric] by simp
  then have lf: "hfile h ! (off + length old) = LF" using n by simp
  have w: "write_at (hfile h) off out = take off (hfile h) @ out @ drop (off + length old) (hfile h)"
    using n assms(2) by (simp add: write_at_def)
  have e: "drop (off + length old) (hfile h) = LF # drop (off + length old + 1) (hfile h)"
    using drop_eq_Cons [of "off + length old" "hfile h"] n lf by simp
  have "drop off (write_at (hfile h) off out) = out @ LF # drop (off + length old + 1) (hfile h)"
    unfolding w e using n by simp
  then have "take (length out + 1) (drop off (write_at (hfile h) off out)) = out @ [LF]" by simp
  moreover have "dbz_maps (hdb h1) hash (int off)" "hoffset h1 = hoffset h"
    using l(1) assms(5) same_tables_holds(5) [of "hdb h" "hdb h1"] his_same_holds(5) [OF assms(5)] by (auto simp: his_same_def)
  ultimately show ?thesis using l assms(2,3) by (simp add: his_line_def)
qed

text \<open>
  C36: what pruning does to history. \<open>prunehistory\<close> replaces an entry by one with the same times and
  no token. The replacement succeeds, the message-ID is still known to \<open>hisv6_check\<close>, and every
  token is gone; but \<open>hisv6_replace\<close> fills the rest of the old line with spaces, and
  \<open>hisv6_splitline\<close> rejects the line as malformed from then on.
\<close>

theorem hisv6_replace_prunes:
  assumes "his_ok h" and "wfail h = None" and "length t = TOKEN_SIZE" and "is_time arrived" "is_time posted"
    and "his_line h (HashMessageID key) (line_text (HashMessageID key) arrived posted expires (Some t)) off"
  shows "\<exists>h' h2 h3 line. hisv6_replace h key arrived posted expires None = Some (True, h') \<and>
    hisv6_check h' key = Some (True, h2) \<and>
    hisv6_fetchline h' (HashMessageID key) = Some (Some (line, off), h3) \<and>
    hisv6_splitline line = Some (Inl No_separator)"
proof -
  let ?k = "HashMessageID key"
  let ?old = "line_text ?k arrived posted expires (Some t)" and ?new = "line_text ?k arrived posted expires None"
  have ok: "dbz_ok (hdb h)" "rdwr h" using assms(1) by (auto simp: his_ok_def)
  obtain n where n: "length ?old = length ?new + Suc n" using line_text_prune [OF assms(3)] by blast
  have "length ?old + 1 \<le> HISV6_MAXLINE" using assms(6) by (simp add: his_line_def)
  then have f: "hisv6_formatline ?k arrived posted expires None = Some (?new @ [LF])"
    using n formatline_line [OF HashMessageID_length, of key arrived posted expires None] by (simp add: HISV6_MAXLINE_def)
  from fetchline_spec [OF ok(1), of ?k] assms(6) obtain h1 where
    h1: "hisv6_fetchline h ?k = Some (Some (?old, off), h1)" "his_same h h1" by blast
  define out where "out = ?new @ SP # replicate n SP"
  have out: "length out = length ?old" "plain out" using n plain_line by (auto simp: out_def plain_def)
  define h' where "h' = h1\<lparr>hfile := write_at (hfile h) off out\<rparr>"
  have r: "hisv6_replace h key arrived posted expires None = Some (True, h')"
    using h1(1) f n ok(2) his_same_holds(4,7) [OF h1(2)] assms(2)
    by (simp add: hisv6_replace_def h'_def out_def Let_def)
  have l: "his_line h' ?k out off" unfolding h'_def by (rule his_line_replaced [OF assms(6) out assms(1) h1(2)])
  have ok': "dbz_ok (hdb h')" using ok(1) his_same_holds(3) [OF h1(2)] by (simp add: h'_def)
  have has: "dbz_has (hdb h') ?k" using l unfolding his_line_def dbz_maps_def dbz_has_def by blast
  from check_spec [OF ok', of key] has obtain h2 where h2: "hisv6_check h' key = Some (True, h2)" by auto
  from fetchline_spec [OF ok', of ?k] l obtain h3 where "hisv6_fetchline h' ?k = Some (Some (out, off), h3)" by blast
  moreover have "hisv6_splitline out = Some (Inl No_separator)"
    unfolding out_def by (rule splitline_padded [OF HashMessageID_length assms(4,5)])
  ultimately show ?thesis using r h2 by blast
qed

theorem hisv6_replace_prunes_witness:
  "\<exists>h h' h3 line. hisv6_writeline blank_his (HashMessageID ''<a@b>'') 1000 900 0 (Some (replicate 18 (chr 2))) = Some (True, h) \<and>
    hisv6_replace h ''<a@b>'' 1000 900 0 None = Some (True, h') \<and>
    hisv6_fetchline h' (HashMessageID ''<a@b>'') = Some (Some (line, 0), h3) \<and>
    hisv6_splitline line = Some (Inl No_separator)"
proof -
  let ?k = "HashMessageID ''<a@b>''" and ?t = "replicate 18 (chr 2)"
  have t: "length ?t = TOKEN_SIZE" "is_time 1000" "is_time 900" "is_time 0" by (simp_all add: TOKEN_SIZE_def is_time_def)
  then have "hisv6_formatline ?k 1000 900 0 (Some ?t) \<noteq> None"
    using formatline_fits [OF HashMessageID_length, of "Some ?t"] by simp
  from writeline_spec [OF blank_his_ok(1) example_prefix HashMessageID_length this] obtain r h where
    w: "hisv6_writeline blank_his ?k 1000 900 0 (Some ?t) = Some (r, h)" "his_ok h" "r = (wfail blank_his = None)"
      "wfail h = wfail blank_his" "r \<longrightarrow> dbz_has (hdb h) ?k \<and> (\<not> dbz_has (hdb blank_his) ?k \<longrightarrow>
        his_line h ?k (line_text ?k 1000 900 0 (Some ?t)) (hoffset blank_his))"
    by (elim exE conjE) (rule that)
  then have l: "his_line h ?k (line_text ?k 1000 900 0 (Some ?t)) 0" "wfail h = None" r
    using blank_his_ok(2,3) by (auto simp: blank_his_def)
  from hisv6_replace_prunes [OF w(2) l(2) t(1-3) l(1)] w(1) l(3) show ?thesis by auto
qed

section \<open>Expiry\<close>

text \<open>What is kept: entries whose token the client keeps, and those young enough to be remembered.\<close>

definition kept :: "int \<Rightarrow> (int \<Rightarrow> int \<Rightarrow> int \<Rightarrow> TOKEN \<Rightarrow> bool \<times> TOKEN) \<Rightarrow> history_line \<Rightarrow> bool" where
  "kept threshold keep l \<longleftrightarrow>
     (\<exists>t. ltoken l = Some t \<and> fst (keep (larrived l) (lposted l) (lexpires l) t)) \<or>
     threshold \<le> lposted l \<or> (lposted l \<le> 0 \<and> threshold \<le> larrived l)"

definition entry_valid :: "history_line \<Rightarrow> bool" where
  "entry_valid l \<longleftrightarrow> length (lhash l) = HASH_SIZE \<and> prefix6 (lhash l) \<noteq> empty_rec \<and>
     is_time (larrived l) \<and> is_time (lposted l) \<and> is_time (lexpires l) \<and> 0 \<le> larrived l \<and> 0 \<le> lposted l"

lemma expirecb_spec:
  assumes "his_ok new" and "wfail new = None" and "entry_valid l"
    and "\<forall>a p e t. fst (keep a p e t) \<longrightarrow> length (snd (keep a p e t)) = TOKEN_SIZE"
  shows "\<exists>new'. hisv6_expirecb threshold keep new l = Some (True, new') \<and> his_ok new' \<and> wfail new' = None \<and>
    (kept threshold keep l \<longrightarrow> dbz_has (hdb new') (lhash l)) \<and> (\<forall>g. dbz_has (hdb new) g \<longrightarrow> dbz_has (hdb new') g) \<and>
    (\<forall>g s p. his_line new g s p \<longrightarrow> his_line new' g s p)"
proof -
  have ok: "dbz_ok (hdb new)" using assms(1) by (simp add: his_ok_def)
  have v: "length (lhash l) = HASH_SIZE" "prefix6 (lhash l) \<noteq> empty_rec" "is_time (larrived l)" "is_time (lposted l)"
    "is_time (lexpires l)" "0 \<le> larrived l" "0 \<le> lposted l" "is_time 0"
    using assms(3) by (auto simp: entry_valid_def is_time_def)
  from dbzexists_ok [OF ok, of "lhash l"] obtain db where
    d: "dbzexists (hdb new) (lhash l) = Some (dbz_has (hdb new) (lhash l), db)" "same_tables (hdb new) db" "\<not> prevp db"
    by blast
  let ?n = "new\<lparr>hdb := db\<rparr>"
  have same: "his_same new ?n" using d(2) by (simp add: his_same_def)
  note sm = his_same_holds [OF same]
  have ok1: "his_ok ?n" using assms(1) d(3) sm(3) by (simp add: his_ok_def)
  define tk where "tk = (case ltoken l of None \<Rightarrow> (None, lexpires l)
    | Some tok \<Rightarrow> (case keep (larrived l) (lposted l) (lexpires l) tok of
        (True, tok') \<Rightarrow> (Some tok', lexpires l) | (False, _) \<Rightarrow> (None, 0)))"
  obtain t ex where tk: "tk = (t, ex)" by (cases tk) auto
  have t: "t \<noteq> None \<longleftrightarrow> (\<exists>t. ltoken l = Some t \<and> fst (keep (larrived l) (lposted l) (lexpires l) t))"
      "is_time ex" "\<forall>x. t = Some x \<longrightarrow> length x = TOKEN_SIZE"
    using tk v(5,8) assms(4) unfolding tk_def by (auto split: option.splits prod.splits bool.splits; metis fst_conv snd_conv)+
  have e: "hisv6_expirecb threshold keep new l =
      (if dbz_has (hdb new) (lhash l) then Some (True, ?n)
       else if kept threshold keep l then hisv6_writeline ?n (lhash l) (larrived l) (lposted l) ex t
       else Some (True, ?n))"
    using d(1) tk t(1) unfolding tk_def by (simp add: hisv6_expirecb_def kept_def Let_def)
  show ?thesis
  proof (cases "\<not> dbz_has (hdb new) (lhash l) \<and> kept threshold keep l")
    case True
    have "hisv6_formatline (lhash l) (larrived l) (lposted l) ex t \<noteq> None"
      using formatline_fits [OF v(1) t(3) v(3,4) t(2) v(6,7)] by simp
    from writeline_spec [OF ok1 v(2,1) this] obtain r new' where
      w: "hisv6_writeline ?n (lhash l) (larrived l) (lposted l) ex t = Some (r, new')" "his_ok new'" "r = (wfail ?n = None)"
        "wfail new' = wfail ?n" "r \<longrightarrow> dbz_has (hdb new') (lhash l) \<and> (\<not> dbz_has (hdb ?n) (lhash l) \<longrightarrow>
          his_line new' (lhash l) (line_text (lhash l) (larrived l) (lposted l) ex t) (hoffset ?n))"
        "\<forall>g s p. his_line ?n g s p \<longrightarrow> his_line new' g s p" "\<forall>g. dbz_has (hdb ?n) g \<longrightarrow> dbz_has (hdb new') g"
      by (elim exE conjE) (rule that)
    then show ?thesis using True e assms(2) sm(1,2) by (intro exI [of _ new']) simp
  next
    case False
    then have "hisv6_expirecb threshold keep new l = Some (True, ?n)" unfolding e by auto
    moreover have "kept threshold keep l \<longrightarrow> dbz_has (hdb ?n) (lhash l)" unfolding sm(2) using False by blast
    ultimately show ?thesis using ok1 assms(2) sm(1,2) by (intro exI [of _ ?n]) simp
  qed
qed

lemma expire_loop:
  assumes "his_ok new" and "wfail new = None" and "\<forall>l\<in>set ls. entry_valid l"
    and "\<forall>a p e t. fst (keep a p e t) \<longrightarrow> length (snd (keep a p e t)) = TOKEN_SIZE"
    and "list_all2 (\<lambda>p l. hisv6_splitline p = Some (Inr l)) ps ls"
  shows "\<exists>new'. traverse_loop (hisv6_expirecb threshold keep) ignore ps r new = Some (r \<or> ls \<noteq> [], new') \<and> his_ok new' \<and>
    (\<forall>l\<in>set ls. kept threshold keep l \<longrightarrow> dbz_has (hdb new') (lhash l)) \<and>
    (\<forall>g. dbz_has (hdb new) g \<longrightarrow> dbz_has (hdb new') g) \<and> (\<forall>g s p. his_line new g s p \<longrightarrow> his_line new' g s p)"
  using assms
proof (induction ls arbitrary: new ps r)
  case Nil
  then show ?case by simp
next
  case (Cons l ls)
  then obtain p ps' where ps: "ps = p # ps'" "hisv6_splitline p = Some (Inr l)"
      "list_all2 (\<lambda>p l. hisv6_splitline p = Some (Inr l)) ps' ls"
    by (auto simp: list_all2_Cons2)
  from expirecb_spec [OF Cons.prems(1,2) _ Cons.prems(4), of l threshold] Cons.prems(3) obtain n1 where
    n1: "hisv6_expirecb threshold keep new l = Some (True, n1)" "his_ok n1" "wfail n1 = None"
      "kept threshold keep l \<longrightarrow> dbz_has (hdb n1) (lhash l)" "\<forall>g. dbz_has (hdb new) g \<longrightarrow> dbz_has (hdb n1) g"
      "\<forall>g s p. his_line new g s p \<longrightarrow> his_line n1 g s p" by auto
  from Cons.IH [OF n1(2,3) _ Cons.prems(4) ps(3), of True] Cons.prems(3) obtain n2 where
    n2: "traverse_loop (hisv6_expirecb threshold keep) ignore ps' True n1 = Some (True, n2)" "his_ok n2"
      "\<forall>l\<in>set ls. kept threshold keep l \<longrightarrow> dbz_has (hdb n2) (lhash l)" "\<forall>g. dbz_has (hdb n1) g \<longrightarrow> dbz_has (hdb n2) g"
      "\<forall>g s p. his_line n1 g s p \<longrightarrow> his_line n2 g s p" by auto
  have "traverse_loop (hisv6_expirecb threshold keep) ignore ps r new = Some (True, n2)"
    using ps(1,2) n1(1) n2(1) by simp
  then show ?case using n1 n2 by (intro exI [of _ n2]) simp
qed



section \<open>What the history interface asks of the method\<close>

lemma his_same_lines: "his_same h h' \<Longrightarrow> his_lines h' = his_lines h"
  using his_same_holds(4,5) [of h h'] full_at_same [of "hdb h" "hdb h'"] by (simp add: his_lines_def his_same_def)

lemma his_same_inv: "his_same h h' \<Longrightarrow> his_inv h' = his_inv h"
  using his_same_holds [of h h'] his_same_lines [of h h'] by (simp add: his_inv_def)

text \<open>In a history in order every entry that is there can be read.\<close>

lemma fetchline_inv:
  assumes "his_inv h"
  shows "\<exists>r h'. hisv6_fetchline h hash = Some (r, h') \<and> his_same h h' \<and> pending (hdb h') \<subseteq> {hash} \<and>
    (dbz_has (hdb h) hash \<longleftrightarrow> r \<noteq> None) \<and>
    (\<forall>l off. r = Some (l, off) \<longrightarrow> his_line h hash l off)"
proof -
  have ok: "dbz_ok (hdb h)" "hoffset h \<le> length (hfile h)" "full_at (line_at (hfile h) (hoffset h)) (hdb h)"
    using assms by (auto simp: his_inv_def his_lines_def)
  from dbzfetch_ok [OF ok(1), of hash] obtain r db where
    d: "dbzfetch (hdb h) hash = Some (r, db)" "same_tables (hdb h) db" "\<forall>x. r = Some x \<longleftrightarrow> dbz_maps (hdb h) hash x"
      "prevp db = (\<not> dbz_has (hdb h) hash)" "r = None \<longleftrightarrow> \<not> dbz_has (hdb h) hash"
      "\<not> dbz_has (hdb h) hash \<longrightarrow> shash (srch db) = hash" by blast
  let ?h = "h\<lparr>hdb := db\<rparr>"
  have same: "his_same h ?h" using d(2) by (simp add: his_same_def)
  have pend: "pending db \<subseteq> {hash}" using d(4,6) by (auto simp: pending_def)
  show ?thesis
  proof (cases r)
    case None
    then show ?thesis using d(1,5) same pend
      by (intro exI [of _ None] exI [of _ ?h]) (simp add: hisv6_fetchline_def Let_def)
  next
    case (Some x)
    then have m: "dbz_maps (hdb h) hash x" using d(3) by simp
    from full_at_maps [OF ok(3) m] obtain n where n: "0 \<le> x" "HISV6_MINLINE \<le> n + 1" "n + 1 \<le> HISV6_MAXLINE"
        "nat x + n + 1 \<le> hoffset h" "hfile h ! (nat x + n) = LF"
        "\<forall>i<n. hfile h ! (nat x + i) \<noteq> LF \<and> hfile h ! (nat x + i) \<noteq> NUL"
      unfolding line_at_def by blast
    define l where "l = take n (drop (nat x) (hfile h))"
    have len: "length l = n" using n(4) ok(2) by (simp add: l_def)
    have "take (n + 1) (drop (nat x) (hfile h)) = l @ [LF]"
      using n(4,5) ok(2) by (simp add: l_def take_Suc_conv_app_nth)
    moreover have "plain l" using n(4,6) ok(2) by (auto simp: plain_def l_def in_set_conv_nth)
    ultimately have hl: "his_line h hash l (nat x)" using m n(1-4) len by (simp add: his_line_def)
    from fetchline_spec [OF ok(1), of hash] hl obtain h' where
      f: "hisv6_fetchline h hash = Some (Some (l, nat x), h')" by blast
    moreover have "h' = ?h" using f d(1) Some n(1) by (auto simp: hisv6_fetchline_def Let_def split: if_splits)
    ultimately show ?thesis using same pend hl d(5) Some by (intro exI [of _ "Some (l, nat x)"] exI [of _ ?h]) simp
  qed
qed

lemma splitline_total: "HISV6_MINLINE \<le> length line + 1 \<Longrightarrow> \<exists>v. hisv6_splitline line = Some v"
  by (cases line) (auto simp: hisv6_splitline_def HISV6_MINLINE_def Let_def split: prod.split)

lemma lookup_law:
  assumes "his_inv h"
  shows "\<exists>r h'. hisv6_lookup h key = Some (r, h') \<and> his_inv h' \<and> dbz_has (hdb h') = dbz_has (hdb h) \<and>
    pending (hdb h') \<subseteq> {HashMessageID key}"
proof -
  from fetchline_inv [OF assms, of "HashMessageID key"] obtain r h' where
    f: "hisv6_fetchline h (HashMessageID key) = Some (r, h')" "his_same h h'" "pending (hdb h') \<subseteq> {HashMessageID key}"
      "\<forall>l off. r = Some (l, off) \<longrightarrow> his_line h (HashMessageID key) l off" by blast
  have i: "his_inv h'" "dbz_has (hdb h') = dbz_has (hdb h)" using his_same_inv [OF f(2)] assms his_same_holds(2) [OF f(2)] by auto
  show ?thesis
  proof (cases r)
    case None
    then show ?thesis using f(1,3) i by (simp add: hisv6_lookup_def)
  next
    case (Some q)
    then obtain l off where q: "r = Some (l, off)" by (cases q) auto
    then have "HISV6_MINLINE \<le> length l + 1" using f(4) by (simp add: his_line_def)
    then obtain v where "hisv6_splitline l = Some v" using splitline_total by blast
    then show ?thesis using f(1,3) i q by (cases v) (simp_all add: hisv6_lookup_def)
  qed
qed

lemma check_law:
  assumes "his_inv h"
  shows "\<exists>h'. hisv6_check h key = Some (dbz_has (hdb h) (HashMessageID key), h') \<and> his_inv h' \<and>
    dbz_has (hdb h') = dbz_has (hdb h) \<and> pending (hdb h') = {}"
proof -
  have "dbz_ok (hdb h)" using assms by (simp add: his_inv_def)
  from check_spec [OF this, of key] obtain h' where
    c: "hisv6_check h key = Some (dbz_has (hdb h) (HashMessageID key), h')" "his_same h h'" "\<not> prevp (hdb h')" by blast
  then show ?thesis
    using his_same_inv [OF c(2)] his_same_holds(2) [OF c(2)] assms by (intro exI [of _ h']) (simp add: pending_def)
qed

lemma writeline_law:
  assumes "his_inv h" and "prefix6 (HashMessageID key) \<noteq> empty_rec" and "HashMessageID key \<notin> pending (hdb h)"
  shows "\<exists>r h'. hisv6_writeline h (HashMessageID key) arrived posted expires tok = Some (r, h') \<and> his_inv h' \<and>
    (r \<longrightarrow> dbz_has (hdb h') (HashMessageID key)) \<and> (\<forall>g. dbz_has (hdb h) g \<longrightarrow> dbz_has (hdb h') g) \<and>
    pending (hdb h') \<subseteq> (if r then insert (HashMessageID key) (pending (hdb h)) else pending (hdb h))"
proof -
  have "dbz_ok (hdb h)" "rdwr h" "hoffset h \<le> length (hfile h)" using assms(1) by (auto simp: his_inv_def)
  from writeline_writes [OF this assms(3,2) HashMessageID_length, of arrived posted expires tok] obtain r h' where
    w: "hisv6_writeline h (HashMessageID key) arrived posted expires tok = Some (r, h')" "writes h (HashMessageID key) h'"
      "\<not> r \<longrightarrow> hdb h' = hdb h" "r \<longrightarrow> dbz_has (hdb h') (HashMessageID key)" by blast
  then show ?thesis using assms(1) by (intro exI [of _ r] exI [of _ h']) (auto simp: his_inv_def writes_def)
qed

text \<open>Overwriting part of a line with plain octets leaves every line a line.\<close>

lemma nth_write_at:
  "off + length s \<le> length f \<Longrightarrow> i < length f \<Longrightarrow>
   write_at f off s ! i = (if off \<le> i \<and> i < off + length s then s ! (i - off) else f ! i)"
  by (auto simp: write_at_def nth_append not_le not_less)

lemma line_at_overwrite:
  assumes "his_line h hash old off" and "his_inv h" and "plain s" and "length s \<le> length old"
    and "line_at (hfile h) (hoffset h) x"
  shows "line_at (write_at (hfile h) off s) (hoffset h) x"
proof -
  let ?f = "hfile h" and ?g = "write_at (hfile h) off s"
  have o: "off + length old + 1 \<le> hoffset h" "take (length old + 1) (drop off ?f) = old @ [LF]" "plain old"
    "hoffset h \<le> length ?f"
    using assms(1,2) by (auto simp: his_line_def his_inv_def)
  have old: "?f ! (off + i) \<noteq> LF" if "i < length old" for i
  proof -
    have "?f ! (off + i) = (old @ [LF]) ! i" unfolding o(2) [symmetric] using that o(1,4) by simp
    then show ?thesis using that o(3) unfolding plain_def by (metis nth_append nth_mem)
  qed
  have s: "s ! i \<noteq> LF \<and> s ! i \<noteq> NUL" if "i < length s" for i
    using assms(3) that unfolding plain_def by (metis nth_mem)
  have g: "(?g ! i = LF \<longleftrightarrow> ?f ! i = LF) \<and> (?g ! i = NUL \<longrightarrow> ?f ! i = NUL)" if "i < hoffset h" for i
  proof (cases "off \<le> i \<and> i < off + length s")
    case True
    then obtain k where k: "i = off + k" "k < length s" using le_Suc_ex by (metis add_less_cancel_left)
    then have "?f ! i \<noteq> LF" using old [of k] assms(4) by simp
    moreover have "?g ! i = s ! k" using k o(1,4) assms(4) that by (subst nth_write_at) auto
    ultimately show ?thesis using s [OF k(2)] by simp
  next
    case False
    then have "?g ! i = ?f ! i" using o(1,4) assms(4) that by (subst nth_write_at) auto
    then show ?thesis by simp
  qed
  obtain n where n: "0 \<le> x" "HISV6_MINLINE \<le> n + 1" "n + 1 \<le> HISV6_MAXLINE" "nat x + n + 1 \<le> hoffset h"
      "?f ! (nat x + n) = LF" "\<forall>i<n. ?f ! (nat x + i) \<noteq> LF \<and> ?f ! (nat x + i) \<noteq> NUL"
    using assms(5) unfolding line_at_def by blast
  have "?g ! (nat x + n) = LF" using g [of "nat x + n"] n(4,5) by simp
  moreover have "\<forall>i<n. ?g ! (nat x + i) \<noteq> LF \<and> ?g ! (nat x + i) \<noteq> NUL"
  proof (intro allI impI)
    fix i assume "i < n"
    then show "?g ! (nat x + i) \<noteq> LF \<and> ?g ! (nat x + i) \<noteq> NUL" using g [of "nat x + i"] n(4,6) by auto
  qed
  ultimately show ?thesis using n(1-4) unfolding line_at_def by (intro conjI exI [of _ n]) simp_all
qed

lemma overwrite_inv:
  assumes "his_line h hash old off" and "his_inv h" and "plain s" and "length s \<le> length old" and "his_same h h1"
  shows "his_inv (h1\<lparr>hfile := write_at (hfile h) off s\<rparr>)"
proof -
  have "off + length old + 1 \<le> length (hfile h)" using assms(1,2) by (auto simp: his_line_def his_inv_def)
  then have l: "length (write_at (hfile h) off s) = length (hfile h)" using assms(4) by (simp add: write_at_def)
  have "full_at (line_at (hfile h) (hoffset h)) (hdb h)" using assms(2) by (simp add: his_inv_def his_lines_def)
  then have "full_at (line_at (write_at (hfile h) off s) (hoffset h)) (hdb h)"
    using line_at_overwrite [OF assms(1-4)] by (auto simp: full_at_def)
  then have "full_at (line_at (write_at (hfile h) off s) (hoffset h)) (hdb h1)"
    using full_at_same [of "hdb h" "hdb h1"] assms(5) by (simp add: his_same_def)
  then show ?thesis
    using his_same_holds [OF assms(5)] assms(2) l by (simp add: his_inv_def his_lines_def)
qed

lemma replace_law:
  assumes "his_inv h"
  shows "\<exists>r h'. hisv6_replace h key arrived posted expires tok = Some (r, h') \<and> his_inv h' \<and>
    (r \<longrightarrow> dbz_has (hdb h') (HashMessageID key)) \<and> dbz_has (hdb h') = dbz_has (hdb h) \<and>
    pending (hdb h') \<subseteq> {HashMessageID key}"
proof -
  let ?k = "HashMessageID key" and ?l = "line_text (HashMessageID key) arrived posted expires tok"
  from fetchline_inv [OF assms, of ?k] obtain q h1 where
    f: "hisv6_fetchline h ?k = Some (q, h1)" "his_same h h1" "pending (hdb h1) \<subseteq> {?k}"
      "dbz_has (hdb h) ?k \<longleftrightarrow> q \<noteq> None" "\<forall>l off. q = Some (l, off) \<longrightarrow> his_line h ?k l off" by blast
  have i: "his_inv h1" "dbz_has (hdb h1) = dbz_has (hdb h)" "hfile h1 = hfile h"
    using his_same_inv [OF f(2)] assms his_same_holds(2,4) [OF f(2)] by auto
  have w: "rdwr h" using assms by (simp add: his_inv_def)
  consider (none) "q = None \<or> hisv6_formatline ?k arrived posted expires tok = None"
    | (some) old off where "q = Some (old, off)" "hisv6_formatline ?k arrived posted expires tok = Some (?l @ [LF])"
    using formatline_line [OF HashMessageID_length, of key arrived posted expires tok]
    by (cases q) (auto split: if_splits)
  then show ?thesis
  proof cases
    case none
    then have "hisv6_replace h key arrived posted expires tok = Some (False, h1)"
      using f(1) w by (auto simp: hisv6_replace_def split: option.split)
    then show ?thesis using i f(3) by (intro exI [of _ False] exI [of _ h1]) simp
  next
    case some
    define out where "out = ?l @ replicate (length old - length ?l) SP"
    have hl: "his_line h ?k old off" using f(5) some(1) by simp
    have has: "dbz_has (hdb h) ?k" using f(4) some(1) by simp
    have out: "plain out" "plain (take n out)" for n
      using plain_line [of ?k arrived posted expires tok] set_take_subset [of n out]
      by (auto simp: out_def plain_def)
    have r: "hisv6_replace h key arrived posted expires tok = Some
        (if length old < length ?l then (False, h1)
         else case wfail h1 of
           Some i \<Rightarrow> (False, h1\<lparr>hfile := write_at (hfile h) off (take i out)\<rparr>)
         | None \<Rightarrow> (True, h1\<lparr>hfile := write_at (hfile h) off out\<rparr>))"
      using f(1) w some i(3) by (simp add: hisv6_replace_def out_def Let_def cong: option.case_cong)
    show ?thesis
    proof (cases "length old < length ?l")
      case True
      then show ?thesis using r i f(3) by (intro exI [of _ False] exI [of _ h1]) simp
    next
      case False
      then have "length out = length old" by (simp add: out_def)
      then have inv: "his_inv (h1\<lparr>hfile := write_at (hfile h) off (take n out)\<rparr>)"
          "his_inv (h1\<lparr>hfile := write_at (hfile h) off out\<rparr>)" for n
        using overwrite_inv [OF hl assms out(2) _ f(2), of n] overwrite_inv [OF hl assms out(1) _ f(2)] by simp_all
      show ?thesis
      proof (cases "wfail h1")
        case None
        then show ?thesis using r False inv(2) i(2) f(3) has
          by (intro exI [of _ True] exI [of _ "h1\<lparr>hfile := write_at (hfile h) off out\<rparr>"]) simp
      next
        case (Some n)
        then show ?thesis using r False inv(1) i(2) f(3)
          by (intro exI [of _ False] exI [of _ "h1\<lparr>hfile := write_at (hfile h) off (take n out)\<rparr>"]) simp
      qed
    qed
  qed
qed

end
