(* ===== verification/His.thy ===== *)
theory His
  imports Token
begin

text \<open>
  The history interface (\<open>history/his.c\<close>): the table of the functions of a history method, and the
  cache of recent answers in front of it. The locale \<open>history_method\<close> is the contract that a
  method has to keep for the cache never to forget a message-ID. Handles are not null; the
  logging, the timers and \<open>HISopen\<close>, which picks the method from a generated table, are left out.
\<close>

section \<open>State\<close>

text \<open>
  The functions of a method on its own state. \<open>None\<close> is a call that does not return, or reads
  outside its data; what a lookup stores is a parameter.
\<close>

record ('s, 'l) hismethod =
  m_sync :: "'s \<Rightarrow> bool \<times> 's"
  m_lookup :: "'s \<Rightarrow> octets \<Rightarrow> ('l option \<times> 's) option"
  m_check :: "'s \<Rightarrow> octets \<Rightarrow> (bool \<times> 's) option"
  m_write :: "'s \<Rightarrow> octets \<Rightarrow> int \<Rightarrow> int \<Rightarrow> int \<Rightarrow> TOKEN option \<Rightarrow> (bool \<times> 's) option"
  m_remember :: "'s \<Rightarrow> octets \<Rightarrow> int \<Rightarrow> int \<Rightarrow> (bool \<times> 's) option"
  m_replace :: "'s \<Rightarrow> octets \<Rightarrow> int \<Rightarrow> int \<Rightarrow> int \<Rightarrow> TOKEN option \<Rightarrow> (bool \<times> 's) option"

record hiscache =
  chash :: HASH
  cfound :: bool

record histstats =
  hitpos :: int
  hitneg :: int
  misses :: int
  dne :: int

definition nullhist :: histstats where
  "nullhist = \<lparr>hitpos = 0, hitneg = 0, misses = 0, dne = 0\<rparr>"

record ('s, 'l) history =
  methods :: "('s, 'l) hismethod"
  sub :: 's
  cache :: "hiscache list option"
  cachesize :: nat
  stats :: histstats

datatype HISRESULT = HIScachehit | HIScachemiss | HIScachedne

section \<open>The cache\<close>

text \<open>The last four octets of the hash, read as an \<open>unsigned int\<close>, choose the slot.\<close>

definition cache_slot :: "nat \<Rightarrow> HASH \<Rightarrow> nat" where
  "cache_slot n hash = foldr (\<lambda>b v. ord b + 256 * v) (drop (HASH_SIZE - 4) hash) 0 mod n"

definition his_cacheadd :: "('s, 'l) history \<Rightarrow> HASH \<Rightarrow> bool \<Rightarrow> ('s, 'l) history" where
  "his_cacheadd h MessageID Found =
     (case cache h of
        None \<Rightarrow> h
      | Some c \<Rightarrow> h\<lparr>cache := Some (c[cache_slot (cachesize h) MessageID := \<lparr>chash = MessageID, cfound = Found\<rparr>])\<rparr>)"

definition his_cachelookup :: "('s, 'l) history \<Rightarrow> HASH \<Rightarrow> HISRESULT" where
  "his_cachelookup h MessageID =
     (case cache h of
        None \<Rightarrow> HIScachedne
      | Some c \<Rightarrow>
          let e = c ! cache_slot (cachesize h) MessageID in
          if chash e = MessageID then (if cfound e then HIScachehit else HIScachemiss) else HIScachedne)"

section \<open>The interface\<close>

definition HISsync :: "('s, 'l) history \<Rightarrow> bool \<times> ('s, 'l) history" where
  "HISsync h = (let (r, s) = m_sync (methods h) (sub h) in (r, h\<lparr>sub := s\<rparr>))"

definition HISlookup :: "('s, 'l) history \<Rightarrow> octets \<Rightarrow> ('l option \<times> ('s, 'l) history) option" where
  "HISlookup h key = do { (r, s) \<leftarrow> m_lookup (methods h) (sub h) key; Some (r, h\<lparr>sub := s\<rparr>) }"

definition HIScheck :: "('s, 'l) history \<Rightarrow> octets \<Rightarrow> (bool \<times> ('s, 'l) history) option" where
  "HIScheck h key =
     (let hash = HashMessageID key in
      case his_cachelookup h hash of
        HIScachehit \<Rightarrow> Some (True, h\<lparr>stats := (stats h)\<lparr>hitpos := hitpos (stats h) + 1\<rparr>\<rparr>)
      | HIScachemiss \<Rightarrow> Some (False, h\<lparr>stats := (stats h)\<lparr>hitneg := hitneg (stats h) + 1\<rparr>\<rparr>)
      | HIScachedne \<Rightarrow>
          do { (r, s) \<leftarrow> m_check (methods h) (sub h) key;
               let h1 = his_cacheadd (h\<lparr>sub := s\<rparr>) hash r in
               Some (r, if r then h1\<lparr>stats := (stats h1)\<lparr>misses := misses (stats h1) + 1\<rparr>\<rparr>
                        else h1\<lparr>stats := (stats h1)\<lparr>dne := dne (stats h1) + 1\<rparr>\<rparr>) })"

definition HISwrite ::
  "('s, 'l) history \<Rightarrow> octets \<Rightarrow> int \<Rightarrow> int \<Rightarrow> int \<Rightarrow> TOKEN option \<Rightarrow> (bool \<times> ('s, 'l) history) option" where
  "HISwrite h key arrived posted expires tok =
     do { (r, s) \<leftarrow> m_write (methods h) (sub h) key arrived posted expires tok;
          let h1 = h\<lparr>sub := s\<rparr> in
          Some (r, if r then his_cacheadd h1 (HashMessageID key) True else h1) }"

definition HISremember :: "('s, 'l) history \<Rightarrow> octets \<Rightarrow> int \<Rightarrow> int \<Rightarrow> (bool \<times> ('s, 'l) history) option" where
  "HISremember h key arrived posted =
     do { (r, s) \<leftarrow> m_remember (methods h) (sub h) key arrived posted;
          let h1 = h\<lparr>sub := s\<rparr> in
          Some (r, if r then his_cacheadd h1 (HashMessageID key) True else h1) }"

definition HISreplace ::
  "('s, 'l) history \<Rightarrow> octets \<Rightarrow> int \<Rightarrow> int \<Rightarrow> int \<Rightarrow> TOKEN option \<Rightarrow> (bool \<times> ('s, 'l) history) option" where
  "HISreplace h key arrived posted expires tok =
     do { (r, s) \<leftarrow> m_replace (methods h) (sub h) key arrived posted expires tok;
          let h1 = h\<lparr>sub := s\<rparr> in
          Some (r, if r then his_cacheadd h1 (HashMessageID key) True else h1) }"

text \<open>\<open>sizeof (struct hiscache)\<close> is 17; \<open>xcalloc\<close> zeroes the entries.\<close>

definition HISsetcache :: "('s, 'l) history \<Rightarrow> nat \<Rightarrow> ('s, 'l) history" where
  "HISsetcache h sz =
     (let n = sz div 17 in
      h\<lparr>cachesize := n,
        cache := (if n \<noteq> 0 then Some (replicate n \<lparr>chash = HashClear, cfound = False\<rparr>) else None),
        stats := nullhist\<rparr>)"

definition HISstats :: "('s, 'l) history \<Rightarrow> histstats \<times> ('s, 'l) history" where
  "HISstats h = (stats h, h\<lparr>stats := nullhist\<rparr>)"

section \<open>Sequences of calls\<close>

datatype his_call =
    Sync
  | Grep octets
  | Have octets
  | Write octets int int int "TOKEN option"
  | Remember octets int int
  | Replace octets int int int "TOKEN option"
  | Setcache nat
  | Stats

text \<open>A call's answer: what it returns, as a truth value.\<close>

fun his_step :: "('s, 'l) history \<Rightarrow> his_call \<Rightarrow> (bool \<times> ('s, 'l) history) option" where
  "his_step h Sync = Some (HISsync h)"
| "his_step h (Grep k) = map_option (map_prod (\<lambda>r. r \<noteq> None) id) (HISlookup h k)"
| "his_step h (Have k) = HIScheck h k"
| "his_step h (Write k a p e t) = HISwrite h k a p e t"
| "his_step h (Remember k a p) = HISremember h k a p"
| "his_step h (Replace k a p e t) = HISreplace h k a p e t"
| "his_step h (Setcache n) = Some (True, HISsetcache h n)"
| "his_step h Stats = Some (True, snd (HISstats h))"

fun his_run :: "('s, 'l) history \<Rightarrow> his_call list \<Rightarrow> (bool list \<times> ('s, 'l) history) option" where
  "his_run h [] = Some ([], h)"
| "his_run h (c # cs) = do { (r, h1) \<leftarrow> his_step h c; (rs, h2) \<leftarrow> his_run h1 cs; Some (r # rs, h2) }"

text \<open>The message-ID a call records when it succeeds.\<close>

fun recorded :: "his_call \<Rightarrow> octets option" where
  "recorded (Write k a p e t) = Some k"
| "recorded (Remember k a p) = Some k"
| "recorded (Replace k a p e t) = Some k"
| "recorded _ = None"

text \<open>
  The caller's side of the contract: a message-ID is not stored again, or right after a lookup of
  it, before another lookup or replacement. \<open>P\<close> has the hashes the method may be in the middle of.
\<close>

fun orderly :: "HASH set \<Rightarrow> his_call list \<Rightarrow> bool" where
  "orderly P [] = True"
| "orderly P (Grep k # cs) = orderly {HashMessageID k} cs"
| "orderly P (Replace k a p e t # cs) = orderly {HashMessageID k} cs"
| "orderly P (Write k a p e t # cs) \<longleftrightarrow> HashMessageID k \<notin> P \<and> orderly (insert (HashMessageID k) P) cs"
| "orderly P (Remember k a p # cs) \<longleftrightarrow> HashMessageID k \<notin> P \<and> orderly (insert (HashMessageID k) P) cs"
| "orderly P (c # cs) = orderly P cs"

lemma orderly_mono: "orderly P cs \<Longrightarrow> Q \<subseteq> P \<Longrightarrow> orderly Q cs"
proof (induction P cs arbitrary: Q rule: orderly.induct)
  case (4 P k a p e t cs)
  then show ?case by (auto intro: "4.IH")
next
  case (5 P k a p cs)
  then show ?case by (auto intro: "5.IH")
qed auto

section \<open>The contract of a method, and what the cache adds\<close>

definition initial_entry :: hiscache where
  "initial_entry = \<lparr>chash = HashClear, cfound = False\<rparr>"

text \<open>The slot of a hash in a cache of the size the handle says is inside it.\<close>

definition cache_ok :: "('s, 'l) history \<Rightarrow> bool" where
  "cache_ok h \<longleftrightarrow> (case cache h of None \<Rightarrow> True | Some c \<Rightarrow> length c = cachesize h \<and> 0 < cachesize h)"

lemma cache_slot_less: "0 < n \<Longrightarrow> cache_slot n hash < n"
  by (simp add: cache_slot_def)

lemma cachelookup_add:
  assumes "cache_ok h"
  shows "his_cachelookup (his_cacheadd h x f) y =
    (if cache h \<noteq> None \<and> y = x then if f then HIScachehit else HIScachemiss
     else if cache h \<noteq> None \<and> cache_slot (cachesize h) y = cache_slot (cachesize h) x then HIScachedne
     else his_cachelookup h y)"
  using assms cache_slot_less
  by (auto simp: his_cachelookup_def his_cacheadd_def cache_ok_def Let_def nth_list_update split: option.splits)

lemma cacheadd_sel [simp]:
  "methods (his_cacheadd h x f) = methods h" "sub (his_cacheadd h x f) = sub h"
  "cache_ok (his_cacheadd h x f) = cache_ok h"
  by (auto simp: his_cacheadd_def cache_ok_def split: option.split)

lemma cachelookup_cong:
  "his_cachelookup (h\<lparr>sub := s\<rparr>) = his_cachelookup h" "his_cachelookup (h\<lparr>stats := t\<rparr>) = his_cachelookup h"
  "cache_ok (h\<lparr>sub := s\<rparr>) = cache_ok h" "cache_ok (h\<lparr>stats := t\<rparr>) = cache_ok h"
  by (auto simp: his_cachelookup_def cache_ok_def fun_eq_iff split: option.split)

lemma cachelookup_None: "cache h = None \<Longrightarrow> his_cachelookup h x = HIScachedne" "cache h = None \<Longrightarrow> his_cacheadd h x f = h"
  by (simp_all add: his_cachelookup_def his_cacheadd_def)

lemma setcache_lookup:
  "his_cachelookup (HISsetcache h n) x = (if 17 \<le> n \<and> x = HashClear then HIScachemiss else HIScachedne)"
  "cache_ok (HISsetcache h n)" "methods (HISsetcache h n) = methods h" "sub (HISsetcache h n) = sub h"
proof -
  have "n div 17 \<noteq> 0 \<longleftrightarrow> 17 \<le> n" by auto
  then show "his_cachelookup (HISsetcache h n) x = (if 17 \<le> n \<and> x = HashClear then HIScachemiss else HIScachedne)"
    "cache_ok (HISsetcache h n)" "methods (HISsetcache h n) = methods h" "sub (HISsetcache h n) = sub h"
    using cache_slot_less [of "n div 17" x]
    by (auto simp: HISsetcache_def his_cachelookup_def cache_ok_def Let_def)
qed

locale history_method =
  fixes meth :: "('s, 'l) hismethod"
    and ok :: "'s \<Rightarrow> bool"
    and has :: "'s \<Rightarrow> HASH \<Rightarrow> bool"
    and pend :: "'s \<Rightarrow> HASH set"
    and usable :: "HASH \<Rightarrow> bool"
  assumes sync_law: "ok s \<Longrightarrow> \<exists>r s'. m_sync meth s = (r, s') \<and> ok s' \<and> has s' = has s \<and> pend s' \<subseteq> pend s"
    and lookup_law: "ok s \<Longrightarrow> \<exists>r s'. m_lookup meth s k = Some (r, s') \<and> ok s' \<and> has s' = has s \<and>
      pend s' \<subseteq> {HashMessageID k}"
    and check_law: "ok s \<Longrightarrow> \<exists>s'. m_check meth s k = Some (has s (HashMessageID k), s') \<and> ok s' \<and>
      has s' = has s \<and> pend s' \<subseteq> pend s"
    and write_law: "ok s \<Longrightarrow> usable (HashMessageID k) \<Longrightarrow> HashMessageID k \<notin> pend s \<Longrightarrow>
      \<exists>r s'. m_write meth s k a p e t = Some (r, s') \<and> ok s' \<and> (r \<longrightarrow> has s' (HashMessageID k)) \<and>
        (\<forall>g. has s g \<longrightarrow> has s' g) \<and> pend s' \<subseteq> (if r then insert (HashMessageID k) (pend s) else pend s)"
    and remember_law: "ok s \<Longrightarrow> usable (HashMessageID k) \<Longrightarrow> HashMessageID k \<notin> pend s \<Longrightarrow>
      \<exists>r s'. m_remember meth s k a p = Some (r, s') \<and> ok s' \<and> (r \<longrightarrow> has s' (HashMessageID k)) \<and>
        (\<forall>g. has s g \<longrightarrow> has s' g) \<and> pend s' \<subseteq> (if r then insert (HashMessageID k) (pend s) else pend s)"
    and replace_law: "ok s \<Longrightarrow> \<exists>r s'. m_replace meth s k a p e t = Some (r, s') \<and> ok s' \<and>
      (r \<longrightarrow> has s' (HashMessageID k)) \<and> has s' = has s \<and> pend s' \<subseteq> {HashMessageID k}"
    and clear_unusable: "\<not> usable HashClear"
begin

text \<open>
  The invariant, for a set \<open>R\<close> of recorded hashes: the method has them, and the cache denies none of
  them; what the cache affirms, the method has.
\<close>

definition inv :: "HASH set \<Rightarrow> ('s, 'l) history \<Rightarrow> bool" where
  "inv R h \<longleftrightarrow> methods h = meth \<and> ok (sub h) \<and> cache_ok h \<and> (\<forall>x\<in>R. usable x \<and> has (sub h) x) \<and>
     (\<forall>x\<in>R. his_cachelookup h x \<noteq> HIScachemiss) \<and> (\<forall>x. his_cachelookup h x = HIScachehit \<longrightarrow> has (sub h) x)"

lemma inv_sub:
  assumes "inv R h" and "ok s" and "\<forall>g. has (sub h) g \<longrightarrow> has s g"
  shows "inv R (h\<lparr>sub := s\<rparr>)"
  using assms by (auto simp: inv_def cachelookup_cong)

lemma inv_stats: "inv R h \<Longrightarrow> inv R (h\<lparr>stats := t\<rparr>)"
  by (simp add: inv_def cachelookup_cong)

lemma inv_add:
  assumes "inv R h" and "f \<longleftrightarrow> has (sub h) x"
  shows "inv R (his_cacheadd h x f)"
  using assms cachelookup_add [of h x f] by (auto simp: inv_def split: if_splits)

lemma inv_record:
  assumes "inv R h" and "has (sub h) x" and "usable x"
  shows "inv (insert x R) (his_cacheadd h x True)"
proof -
  have "his_cachelookup (his_cacheadd h x True) x \<noteq> HIScachemiss"
    using assms(1) cachelookup_add [of h x True x] cachelookup_None [of h x] by (cases "cache h") (auto simp: inv_def)
  then show ?thesis using inv_add [OF assms(1), of True x] assms(2,3) by (auto simp: inv_def)
qed

text \<open>A check answers what the method has, but for what the cache denies, which is not recorded.\<close>

lemma check_inv:
  assumes "inv R h"
  shows "\<exists>r h'. HIScheck h k = Some (r, h') \<and> inv R h' \<and> pend (sub h') \<subseteq> pend (sub h) \<and>
    (r \<longrightarrow> has (sub h) (HashMessageID k)) \<and> (HashMessageID k \<in> R \<longrightarrow> r)"
proof -
  let ?x = "HashMessageID k"
  show ?thesis
  proof (cases "his_cachelookup h ?x")
    case HIScachehit
    then show ?thesis using assms inv_stats [OF assms] by (auto simp: HIScheck_def Let_def inv_def)
  next
    case HIScachemiss
    then have "?x \<notin> R" using assms by (auto simp: inv_def)
    then show ?thesis using HIScachemiss inv_stats [OF assms] by (auto simp: HIScheck_def Let_def)
  next
    case HIScachedne
    have m: "methods h = meth" "ok (sub h)" using assms by (auto simp: inv_def)
    from check_law [OF m(2), of k] obtain s where
      s: "m_check meth (sub h) k = Some (has (sub h) ?x, s)" "ok s" "has s = has (sub h)" "pend s \<subseteq> pend (sub h)" by blast
    define h1 where "h1 = his_cacheadd (h\<lparr>sub := s\<rparr>) ?x (has (sub h) ?x)"
    have "inv R (h\<lparr>sub := s\<rparr>)" using inv_sub [OF assms s(2)] s(3) by simp
    then have "inv R h1" unfolding h1_def by (rule inv_add) (simp add: s(3))
    then have i: "inv R (h1\<lparr>stats := t\<rparr>)" for t by (rule inv_stats)
    have "sub h1 = s" by (simp add: h1_def)
    then have p: "pend (sub (h1\<lparr>stats := t\<rparr>)) \<subseteq> pend (sub h)" for t using s(4) by simp
    have "\<exists>t. HIScheck h k = Some (has (sub h) ?x, h1\<lparr>stats := t\<rparr>)"
      using s(1) HIScachedne m(1) by (auto simp: HIScheck_def Let_def h1_def)
    moreover have "?x \<in> R \<longrightarrow> has (sub h) ?x" using assms by (auto simp: inv_def)
    ultimately show ?thesis using i p by blast
  qed
qed

lemma recording_inv:
  assumes "inv R h" and "usable (HashMessageID k)" and "ok s" and "\<forall>g. has (sub h) g \<longrightarrow> has s g"
    and "r \<longrightarrow> has s (HashMessageID k)"
  shows "inv (if r then insert (HashMessageID k) R else R)
    (if r then his_cacheadd (h\<lparr>sub := s\<rparr>) (HashMessageID k) True else h\<lparr>sub := s\<rparr>)"
  using inv_sub [OF assms(1,3,4)] inv_record [of R "h\<lparr>sub := s\<rparr>" "HashMessageID k"] assms(2,5) by simp

text \<open>
  A history at rest: the key whose search may be pending is recorded. From there calls may come in any order, as long as
  only what a check found is looked up, and only what a check denied is stored.
\<close>

definition settled :: "HASH set \<Rightarrow> ('s, 'l) history \<Rightarrow> bool" where
  "settled R h \<longleftrightarrow> inv R h \<and> pend (sub h) \<subseteq> R"

lemma check_settled:
  assumes "settled R h" and "usable (HashMessageID k)"
  shows "\<exists>r h'. HIScheck h k = Some (r, h') \<and> settled (if r then insert (HashMessageID k) R else R) h' \<and>
    (HashMessageID k \<in> R \<longrightarrow> r)"
proof -
  let ?x = "HashMessageID k"
  have i: "inv R h" "pend (sub h) \<subseteq> R" using assms(1) by (auto simp: settled_def)
  from check_inv [OF i(1), of k] obtain r h' where
    c: "HIScheck h k = Some (r, h')" "inv R h'" "pend (sub h') \<subseteq> pend (sub h)" "r \<longrightarrow> has (sub h) ?x" "?x \<in> R \<longrightarrow> r" by blast
  have "his_cachelookup h' ?x \<noteq> HIScachemiss \<and> has (sub h') ?x" if r
  proof (cases "his_cachelookup h ?x")
    case HIScachehit
    then have "his_cachelookup h' ?x = HIScachehit \<and> sub h' = sub h"
      using c(1) by (auto simp: HIScheck_def Let_def cachelookup_cong)
    then show ?thesis using c(4) that by simp
  next
    case HIScachemiss
    then show ?thesis using c(1) that by (auto simp: HIScheck_def Let_def)
  next
    case HIScachedne
    have m: "methods h = meth" "ok (sub h)" "cache_ok h" using i(1) by (auto simp: inv_def)
    from check_law [OF m(2), of k] obtain s where
      s: "m_check meth (sub h) k = Some (has (sub h) ?x, s)" "has s = has (sub h)" by blast
    have "sub h' = s \<and> his_cachelookup h' = his_cachelookup (his_cacheadd (h\<lparr>sub := s\<rparr>) ?x True)"
      using c(1) s(1) HIScachedne m(1) that c(4) by (auto simp: HIScheck_def Let_def cachelookup_cong)
    moreover have "his_cachelookup (his_cacheadd (h\<lparr>sub := s\<rparr>) ?x True) ?x \<noteq> HIScachemiss"
      using m(3) cachelookup_add [of "h\<lparr>sub := s\<rparr>" ?x True ?x] cachelookup_None [of "h\<lparr>sub := s\<rparr>" ?x]
      by (cases "cache h") (auto simp: cachelookup_cong)
    ultimately show ?thesis using c(4) that s(2) by simp
  qed
  then have "inv (if r then insert ?x R else R) h'" using c(2) assms(2) by (auto simp: inv_def)
  then show ?thesis using c i(2) by (intro exI [of _ r] exI [of _ h']) (auto simp: settled_def)
qed

lemma lookup_settled:
  assumes "settled R h" and "HashMessageID k \<in> R"
  shows "\<exists>r h'. HISlookup h k = Some (r, h') \<and> settled R h'"
proof -
  have i: "inv R h" "methods h = meth" "ok (sub h)" using assms(1) by (auto simp: settled_def inv_def)
  from lookup_law [OF i(3), of k] obtain r s where
    s: "m_lookup meth (sub h) k = Some (r, s)" "ok s" "has s = has (sub h)" "pend s \<subseteq> {HashMessageID k}" by blast
  have "inv R (h\<lparr>sub := s\<rparr>)" using inv_sub [OF i(1) s(2)] s(3) by simp
  then show ?thesis using s(1,4) i(2) assms(2)
    by (intro exI [of _ r] exI [of _ "h\<lparr>sub := s\<rparr>"]) (auto simp: HISlookup_def settled_def)
qed

lemma store_settled:
  assumes "settled R h" and "usable (HashMessageID k)" and "ok s" and "r \<longrightarrow> has s (HashMessageID k)"
    and "\<forall>g. has (sub h) g \<longrightarrow> has s g" and "pend s \<subseteq> (if r then insert (HashMessageID k) (pend (sub h)) else pend (sub h))"
  shows "settled (if r then insert (HashMessageID k) R else R)
    (if r then his_cacheadd (h\<lparr>sub := s\<rparr>) (HashMessageID k) True else h\<lparr>sub := s\<rparr>)"
proof -
  have "pend s \<subseteq> (if r then insert (HashMessageID k) R else R)" using assms(1,6) by (auto simp: settled_def split: if_splits)
  then show ?thesis using recording_inv [of R h k s r] assms(1-5) by (auto simp: settled_def)
qed

lemma write_settled:
  assumes "settled R h" and "usable (HashMessageID k)" and "HashMessageID k \<notin> R"
  shows "\<exists>r h'. HISwrite h k a p e t = Some (r, h') \<and> settled (if r then insert (HashMessageID k) R else R) h'"
proof -
  have i: "methods h = meth" "ok (sub h)" "HashMessageID k \<notin> pend (sub h)" using assms(1,3) by (auto simp: settled_def inv_def)
  from write_law [OF i(2) assms(2) i(3), of a p e t] obtain r s where
    s: "m_write meth (sub h) k a p e t = Some (r, s)" "ok s" "r \<longrightarrow> has s (HashMessageID k)" "\<forall>g. has (sub h) g \<longrightarrow> has s g"
      "pend s \<subseteq> (if r then insert (HashMessageID k) (pend (sub h)) else pend (sub h))" by (elim exE conjE) (rule that)
  show ?thesis using store_settled [OF assms(1,2) s(2-5)] s(1) i(1) by (auto simp: HISwrite_def Let_def)
qed

lemma remember_settled:
  assumes "settled R h" and "usable (HashMessageID k)" and "HashMessageID k \<notin> R"
  shows "\<exists>r h'. HISremember h k a p = Some (r, h') \<and> settled (if r then insert (HashMessageID k) R else R) h'"
proof -
  have i: "methods h = meth" "ok (sub h)" "HashMessageID k \<notin> pend (sub h)" using assms(1,3) by (auto simp: settled_def inv_def)
  from remember_law [OF i(2) assms(2) i(3), of a p] obtain r s where
    s: "m_remember meth (sub h) k a p = Some (r, s)" "ok s" "r \<longrightarrow> has s (HashMessageID k)" "\<forall>g. has (sub h) g \<longrightarrow> has s g"
      "pend s \<subseteq> (if r then insert (HashMessageID k) (pend (sub h)) else pend (sub h))" by (elim exE conjE) (rule that)
  show ?thesis using store_settled [OF assms(1,2) s(2-5)] s(1) i(1) by (auto simp: HISremember_def Let_def)
qed

text \<open>One call: the recorded hashes grow by the one it records.\<close>

definition grow :: "HASH set \<Rightarrow> his_call \<Rightarrow> bool \<Rightarrow> HASH set" where
  "grow R c r = (case recorded c of Some k \<Rightarrow> if r then insert (HashMessageID k) R else R | None \<Rightarrow> R)"

lemma step_inv:
  assumes "inv R h" and "pend (sub h) \<subseteq> P" and "orderly P (c # cs)" and "\<forall>k. recorded c = Some k \<longrightarrow> usable (HashMessageID k)"
  shows "\<exists>r h' P'. his_step h c = Some (r, h') \<and> inv (grow R c r) h' \<and> pend (sub h') \<subseteq> P' \<and> orderly P' cs"
proof -
  have m: "methods h = meth" "ok (sub h)" using assms(1) by (auto simp: inv_def)
  show ?thesis
  proof (cases c)
    case Sync
    from sync_law [OF m(2)] obtain r s where
      s: "m_sync meth (sub h) = (r, s)" "ok s" "has s = has (sub h)" "pend s \<subseteq> pend (sub h)" by blast
    have "inv R (h\<lparr>sub := s\<rparr>)" using inv_sub [OF assms(1) s(2)] s(3) by simp
    then show ?thesis using Sync s(1,4) m assms(2,3)
      by (intro exI [of _ r] exI [of _ "h\<lparr>sub := s\<rparr>"] exI [of _ P]) (auto simp: HISsync_def grow_def)
  next
    case (Grep k)
    from lookup_law [OF m(2), of k] obtain r s where
      s: "m_lookup meth (sub h) k = Some (r, s)" "ok s" "has s = has (sub h)" "pend s \<subseteq> {HashMessageID k}" by blast
    have "inv R (h\<lparr>sub := s\<rparr>)" using inv_sub [OF assms(1) s(2)] s(3) by simp
    then show ?thesis using Grep s(1,4) m assms(3)
      by (intro exI [of _ "r \<noteq> None"] exI [of _ "h\<lparr>sub := s\<rparr>"] exI [of _ "{HashMessageID k}"])
        (simp add: HISlookup_def grow_def)
  next
    case (Have k)
    from check_inv [OF assms(1), of k] obtain r h' where
      c: "HIScheck h k = Some (r, h')" "inv R h'" "pend (sub h') \<subseteq> pend (sub h)" by blast
    then show ?thesis using Have assms(2,3)
      by (intro exI [of _ r] exI [of _ h'] exI [of _ P]) (auto simp: grow_def)
  next
    case (Write k a p e t)
    then have u: "usable (HashMessageID k)" "HashMessageID k \<notin> pend (sub h)" using assms(2-4) by auto
    from write_law [OF m(2) u, of a p e t] obtain r s where
      s: "m_write meth (sub h) k a p e t = Some (r, s)" "ok s" "r \<longrightarrow> has s (HashMessageID k)"
        "\<forall>g. has (sub h) g \<longrightarrow> has s g" "pend s \<subseteq> (if r then insert (HashMessageID k) (pend (sub h)) else pend (sub h))"
      by (elim exE conjE) (rule that)
    show ?thesis using Write s(1,5) m assms(2,3) recording_inv [OF assms(1) u(1) s(2,4,3)]
      by (intro exI [of _ r] exI [of _ "if r then his_cacheadd (h\<lparr>sub := s\<rparr>) (HashMessageID k) True else h\<lparr>sub := s\<rparr>"]
          exI [of _ "insert (HashMessageID k) P"]) (auto simp: HISwrite_def grow_def Let_def split: if_splits)
  next
    case (Remember k a p)
    then have u: "usable (HashMessageID k)" "HashMessageID k \<notin> pend (sub h)" using assms(2-4) by auto
    from remember_law [OF m(2) u, of a p] obtain r s where
      s: "m_remember meth (sub h) k a p = Some (r, s)" "ok s" "r \<longrightarrow> has s (HashMessageID k)"
        "\<forall>g. has (sub h) g \<longrightarrow> has s g" "pend s \<subseteq> (if r then insert (HashMessageID k) (pend (sub h)) else pend (sub h))"
      by (elim exE conjE) (rule that)
    show ?thesis using Remember s(1,5) m assms(2,3) recording_inv [OF assms(1) u(1) s(2,4,3)]
      by (intro exI [of _ r] exI [of _ "if r then his_cacheadd (h\<lparr>sub := s\<rparr>) (HashMessageID k) True else h\<lparr>sub := s\<rparr>"]
          exI [of _ "insert (HashMessageID k) P"]) (auto simp: HISremember_def grow_def Let_def split: if_splits)
  next
    case (Replace k a p e t)
    then have u: "usable (HashMessageID k)" using assms(4) by auto
    from replace_law [OF m(2), of k a p e t] obtain r s where
      s: "m_replace meth (sub h) k a p e t = Some (r, s)" "ok s" "r \<longrightarrow> has s (HashMessageID k)"
        "has s = has (sub h)" "pend s \<subseteq> {HashMessageID k}"
      by (elim exE conjE) (rule that)
    have mono: "\<forall>g. has (sub h) g \<longrightarrow> has s g" using s(4) by simp
    show ?thesis using Replace s(1,5) m assms(3) recording_inv [OF assms(1) u s(2) mono s(3)]
      by (intro exI [of _ r] exI [of _ "if r then his_cacheadd (h\<lparr>sub := s\<rparr>) (HashMessageID k) True else h\<lparr>sub := s\<rparr>"]
          exI [of _ "{HashMessageID k}"]) (auto simp: HISreplace_def grow_def Let_def)
  next
    case (Setcache n)
    have "inv R (HISsetcache h n)"
      using assms(1) clear_unusable by (auto simp: inv_def setcache_lookup split: if_splits)
    then show ?thesis using Setcache assms(2,3)
      by (intro exI [of _ True] exI [of _ "HISsetcache h n"] exI [of _ P]) (auto simp: grow_def setcache_lookup)
  next
    case Stats
    then show ?thesis using assms(2,3) inv_stats [OF assms(1)]
      by (intro exI [of _ True] exI [of _ "snd (HISstats h)"] exI [of _ P]) (auto simp: grow_def HISstats_def)
  qed
qed

lemma run_inv:
  assumes "inv R h" and "pend (sub h) \<subseteq> P" and "orderly P cs"
    and "\<forall>c\<in>set cs. \<forall>k. recorded c = Some k \<longrightarrow> usable (HashMessageID k)"
  shows "\<exists>rs h' R'. his_run h cs = Some (rs, h') \<and> length rs = length cs \<and> inv R' h' \<and> R \<subseteq> R' \<and>
    (\<forall>i<length cs. \<forall>k. recorded (cs ! i) = Some k \<longrightarrow> rs ! i \<longrightarrow> HashMessageID k \<in> R')"
  using assms
proof (induction cs arbitrary: R h P)
  case Nil
  then show ?case by auto
next
  case (Cons c cs)
  have u: "\<forall>k. recorded c = Some k \<longrightarrow> usable (HashMessageID k)" using Cons.prems(4) by simp
  from step_inv [OF Cons.prems(1-3) u] obtain r h1 P1 where
    s: "his_step h c = Some (r, h1)" "inv (grow R c r) h1" "pend (sub h1) \<subseteq> P1" "orderly P1 cs" by blast
  have us: "\<forall>c\<in>set cs. \<forall>k. recorded c = Some k \<longrightarrow> usable (HashMessageID k)" using Cons.prems(4) by simp
  from Cons.IH [OF s(2-4) us] obtain rs h2 R' where
    i: "his_run h1 cs = Some (rs, h2)" "length rs = length cs" "inv R' h2" "grow R c r \<subseteq> R'"
      "\<forall>i<length cs. \<forall>k. recorded (cs ! i) = Some k \<longrightarrow> rs ! i \<longrightarrow> HashMessageID k \<in> R'" by blast
  have g: "R \<subseteq> grow R c r" "recorded c = Some k \<Longrightarrow> r \<Longrightarrow> HashMessageID k \<in> grow R c r" for k
    by (auto simp: grow_def split: option.split)
  have "HashMessageID k \<in> R'"
    if "j < length (c # cs)" "recorded ((c # cs) ! j) = Some k" "(r # rs) ! j" for j k
    using that g(2) i(4,5) by (cases j) auto
  then show ?case using s(1) i g(1)
    by (intro exI [of _ "r # rs"] exI [of _ h2] exI [of _ R']) auto
qed

lemma never_forgets:
  assumes "methods h = meth" and "ok (sub h)" and "cache h = None" and "pend (sub h) \<subseteq> P" and "orderly P cs"
    and "\<forall>c\<in>set cs. \<forall>k. recorded c = Some k \<longrightarrow> usable (HashMessageID k)"
  shows "\<exists>rs h'. his_run h cs = Some (rs, h') \<and> length rs = length cs \<and>
    (\<forall>i<length cs. \<forall>k. recorded (cs ! i) = Some k \<longrightarrow> rs ! i \<longrightarrow> (\<exists>h2. HIScheck h' k = Some (True, h2))) \<and>
    (\<forall>k h2. HIScheck h' k = Some (True, h2) \<longrightarrow> has (sub h') (HashMessageID k))"
proof -
  have "inv {} h" using assms(1-3) by (simp add: inv_def cache_ok_def his_cachelookup_def)
  from run_inv [OF this assms(4-6)] obtain rs h' R where
    r: "his_run h cs = Some (rs, h')" "length rs = length cs" "inv R h'"
      "\<forall>i<length cs. \<forall>k. recorded (cs ! i) = Some k \<longrightarrow> rs ! i \<longrightarrow> HashMessageID k \<in> R" by blast
  have "\<exists>h2. HIScheck h' k = Some (True, h2)" if "HashMessageID k \<in> R" for k
    using check_inv [OF r(3), of k] that by auto
  moreover have "has (sub h') (HashMessageID k)" if "HIScheck h' k = Some (True, h2)" for k h2
    using check_inv [OF r(3), of k] that by auto
  ultimately show ?thesis using r(1,2,4) by blast
qed

end

end
