(* ===== verification/History.thy ===== *)
theory History
  imports His Hisv6
begin

text \<open>
  The \<open>hisv6\<close> method behind the history interface: the method table of \<open>history/hisv6\<close>, and the
  interpretation of the contract of \<open>His\<close> on it.
\<close>

definition hisv6_methods :: "(hisv6, history_line) hismethod" where
  "hisv6_methods =
     \<lparr>m_sync = hisv6_sync, m_lookup = hisv6_lookup, m_check = hisv6_check, m_write = hisv6_write,
      m_remember = hisv6_remember, m_replace = hisv6_replace\<rparr>"

lemma sync_law:
  assumes "his_inv h"
  shows "\<exists>r h'. hisv6_sync h = (r, h') \<and> his_inv h' \<and> dbz_has (hdb h') = dbz_has (hdb h) \<and>
    pending (hdb h') \<subseteq> pending (hdb h)"
proof -
  have ok: "dbz_ok (hdb h)" "rdwr h" using assms by (auto simp: his_inv_def)
  from dbzsync_keeps [OF ok(1)] obtain db where
    y: "dbzsync (hdb h) = (True, db)" "dbz_ok db" "dbz_has db = dbz_has (hdb h)" "prevp db = prevp (hdb h)"
      "srch db = srch (hdb h)" "slots db = slots (hdb h)"
      "view (etab db) (slots (hdb h)) = view (etab (hdb h)) (slots (hdb h))"
      "view (idxtab db) (slots (hdb h)) = view (idxtab (hdb h)) (slots (hdb h))" by blast
  let ?h = "if hdirty h = 0 then h else h\<lparr>hdb := db, hdirty := 0\<rparr>"
  have "hisv6_sync h = (True, ?h)" using ok(2) y(1) by (simp add: hisv6_sync_def)
  moreover have "full_at P db = full_at P (hdb h)" "pending db = pending (hdb h)" for P
    using y(4-8) by (simp_all add: full_at_def pending_def)
  ultimately show ?thesis using assms y(2,3)
    by (intro exI [of _ True] exI [of _ ?h]) (simp add: his_inv_def his_lines_def)
qed

interpretation h6: history_method hisv6_methods his_inv "\<lambda>h. dbz_has (hdb h)" "\<lambda>h. pending (hdb h)"
  "\<lambda>x. prefix6 x \<noteq> empty_rec"
proof unfold_locales
  show "\<exists>r s'. m_sync hisv6_methods s = (r, s') \<and> his_inv s' \<and> dbz_has (hdb s') = dbz_has (hdb s) \<and>
      pending (hdb s') \<subseteq> pending (hdb s)" if "his_inv s" for s
    using sync_law [OF that] by (simp add: hisv6_methods_def)
  show "\<exists>r s'. m_lookup hisv6_methods s k = Some (r, s') \<and> his_inv s' \<and> dbz_has (hdb s') = dbz_has (hdb s) \<and>
      pending (hdb s') \<subseteq> {HashMessageID k}" if "his_inv s" for s k
    using lookup_law [OF that] by (simp add: hisv6_methods_def)
  show "\<exists>s'. m_check hisv6_methods s k = Some (dbz_has (hdb s) (HashMessageID k), s') \<and> his_inv s' \<and>
      dbz_has (hdb s') = dbz_has (hdb s) \<and> pending (hdb s') \<subseteq> pending (hdb s)" if "his_inv s" for s k
    using check_law [OF that, of k] by (auto simp: hisv6_methods_def)
  show "\<exists>r s'. m_write hisv6_methods s k a p e t = Some (r, s') \<and> his_inv s' \<and>
      (r \<longrightarrow> dbz_has (hdb s') (HashMessageID k)) \<and> (\<forall>g. dbz_has (hdb s) g \<longrightarrow> dbz_has (hdb s') g) \<and>
      pending (hdb s') \<subseteq> (if r then insert (HashMessageID k) (pending (hdb s)) else pending (hdb s))"
    if "his_inv s" "prefix6 (HashMessageID k) \<noteq> empty_rec" "HashMessageID k \<notin> pending (hdb s)" for s k a p e t
    using writeline_law [OF that, of a p e t] by (simp add: hisv6_methods_def hisv6_write_def)
  show "\<exists>r s'. m_remember hisv6_methods s k a p = Some (r, s') \<and> his_inv s' \<and>
      (r \<longrightarrow> dbz_has (hdb s') (HashMessageID k)) \<and> (\<forall>g. dbz_has (hdb s) g \<longrightarrow> dbz_has (hdb s') g) \<and>
      pending (hdb s') \<subseteq> (if r then insert (HashMessageID k) (pending (hdb s)) else pending (hdb s))"
    if "his_inv s" "prefix6 (HashMessageID k) \<noteq> empty_rec" "HashMessageID k \<notin> pending (hdb s)" for s k a p
    using writeline_law [OF that, of a p 0 None] by (simp add: hisv6_methods_def hisv6_remember_def)
  show "\<exists>r s'. m_replace hisv6_methods s k a p e t = Some (r, s') \<and> his_inv s' \<and>
      (r \<longrightarrow> dbz_has (hdb s') (HashMessageID k)) \<and> dbz_has (hdb s') = dbz_has (hdb s) \<and>
      pending (hdb s') \<subseteq> {HashMessageID k}" if "his_inv s" for s k a p e t
    using replace_law [OF that, of k a p e t] by (simp add: hisv6_methods_def)
  show "\<not> prefix6 HashClear \<noteq> empty_rec" by code_simp
qed


lemma blank_his_inv: "his_inv blank_his" "pending (hdb blank_his) = {}"
  using blank_his_ok(1) by (auto simp: his_ok_def his_inv_def his_lines_def full_at_def pending_def blank_his_def
      blank_db_def view_def)


end
