(* ===== verification/Artheaders.thy ===== *)
theory Artheaders
  imports Prelude "HOL-Library.List_Lexorder"
begin

text \<open>
  The table of the system headers (\<open>ARTheaders\<close> in \<open>innd/innd.c\<close>) and the balanced
  tree in which \<open>innd/art.c\<close> looks a header name up (\<open>ARTbuildtree\<close>, \<open>ARTcompare\<close>,
  \<open>ARTsetup\<close>, and the search in \<open>ARTcheckheader\<close>). The lemmas show that the search
  finds a name exactly when the table has it, whatever its case.
\<close>

section \<open>The table\<close>

datatype ARTHEADERTYPE = HTreq | HTobs | HTstd | HTsav

text \<open>\<open>Name\<close> and \<open>Type\<close>; the member \<open>Size\<close> is the length of the name.\<close>

definition ARTheaders :: "(octets \<times> ARTHEADERTYPE) list" where
  "ARTheaders =
   [(''Approved'', HTstd), (''Control'', HTstd), (''Date'', HTreq), (''Distribution'', HTstd),
    (''Expires'', HTstd), (''From'', HTreq), (''Lines'', HTobs), (''Message-ID'', HTreq),
    (''Newsgroups'', HTreq), (''Path'', HTreq), (''Reply-To'', HTstd), (''Sender'', HTstd),
    (''Subject'', HTreq), (''Supersedes'', HTstd), (''Bytes'', HTobs), (''Also-Control'', HTobs),
    (''References'', HTstd), (''Xref'', HTsav), (''Keywords'', HTstd), (''X-Trace'', HTobs),
    (''Date-Received'', HTobs), (''Posted'', HTobs), (''Posting-Version'', HTobs),
    (''Received'', HTobs), (''Relay-Version'', HTobs), (''NNTP-Posting-Host'', HTobs),
    (''Followup-To'', HTstd), (''Organization'', HTstd), (''Content-Type'', HTstd),
    (''Content-Base'', HTstd), (''Content-Disposition'', HTstd), (''X-Newsreader'', HTstd),
    (''X-Mailer'', HTstd), (''X-Newsposter'', HTstd), (''X-Cancelled-By'', HTstd),
    (''X-Canceled-By'', HTstd), (''Cancel-Key'', HTstd), (''User-Agent'', HTstd),
    (''X-Original-Message-ID'', HTstd), (''Cancel-Lock'', HTstd),
    (''Content-Transfer-Encoding'', HTstd), (''Face'', HTstd), (''Injection-Info'', HTstd),
    (''List-ID'', HTstd), (''MIME-Version'', HTstd), (''Originator'', HTstd),
    (''X-Auth'', HTstd), (''X-Complaints-To'', HTobs), (''X-Face'', HTstd),
    (''X-HTTP-UserAgent'', HTstd), (''X-HTTP-Via'', HTstd), (''X-Modbot'', HTstd),
    (''X-Modtrace'', HTstd), (''X-No-Archive'', HTobs), (''X-Original-Trace'', HTstd),
    (''X-Originating-IP'', HTstd), (''X-PGP-Key'', HTstd), (''X-PGP-Sig'', HTstd),
    (''X-Poster-Trace'', HTstd), (''X-Postfilter'', HTstd), (''X-Proxy-User'', HTstd),
    (''X-Submissions-To'', HTstd), (''X-Usenet-Provider'', HTstd), (''In-Reply-To'', HTstd),
    (''Injection-Date'', HTstd), (''NNTP-Posting-Date'', HTobs), (''X-User-ID'', HTstd),
    (''X-Auth-Sender'', HTstd), (''X-Original-NNTP-Posting-Host'', HTstd),
    (''Original-Sender'', HTstd), (''NNTP-Posting-Path'', HTobs), (''Archive'', HTstd),
    (''Archived-At'', HTstd), (''Summary'', HTstd), (''Comments'', HTstd),
    (''Jabber-ID'', HTstd)]"

definition MAX_ARTHEADER :: nat where "MAX_ARTHEADER = 76"

definition HDR__MESSAGE_ID :: nat where "HDR__MESSAGE_ID = 7"
definition HDR__SUPERSEDES :: nat where "HDR__SUPERSEDES = 13"
definition HDR__BYTES :: nat where "HDR__BYTES = 14"
definition HDR__XREF :: nat where "HDR__XREF = 17"

definition header_name :: "nat \<Rightarrow> octets" where
  "header_name i = fst (ARTheaders ! i)"

definition header_type :: "nat \<Rightarrow> ARTHEADERTYPE" where
  "header_type i = snd (ARTheaders ! i)"

section \<open>Comparing names\<close>

text \<open>
  \<open>strcasecmp\<close> of the C library on the octets before the NULs, in the C locale: the difference
  of the first two octets that differ in lower case, a string's end counting as the octet 0.
\<close>

fun strcasecmp :: "octets \<Rightarrow> octets \<Rightarrow> int" where
  "strcasecmp [] [] = 0"
| "strcasecmp [] (b # bs) = - int (ord (c_tolower b))"
| "strcasecmp (a # as) [] = int (ord (c_tolower a))"
| "strcasecmp (a # as) (b # bs) =
     (if c_tolower a = c_tolower b then strcasecmp as bs
      else int (ord (c_tolower a)) - int (ord (c_tolower b)))"

text \<open>\<open>char\<close> is signed on the machines the server runs on.\<close>

definition signed_char :: "char \<Rightarrow> int" where
  "signed_char c = (if ord c < 128 then int (ord c) else int (ord c) - 256)"

section \<open>The tree\<close>

datatype TREE = NULL | Node (Before: TREE) (Header: nat) (After: TREE)

definition ARTcompare :: "nat \<Rightarrow> nat \<Rightarrow> int" where
  "ARTcompare n1 n2 = strcasecmp (header_name n1) (header_name n2)"

text \<open>\<open>qsort\<close>: the names differ, so the result does not depend on the algorithm.\<close>

fun qsort_insert :: "nat \<Rightarrow> nat list \<Rightarrow> nat list" where
  "qsort_insert x [] = [x]"
| "qsort_insert x (y # ys) = (if ARTcompare x y \<le> 0 then x # y # ys else y # qsort_insert x ys)"

text \<open>The range \<open>[lo..hi)\<close> is never empty where the code calls it; an empty one gives no tree.\<close>

function ARTbuildtree :: "nat list \<Rightarrow> nat \<Rightarrow> nat \<Rightarrow> TREE" where
  "ARTbuildtree Table lo hi =
     (if hi \<le> lo then NULL
      else let mid = lo + (hi - lo) div 2 in
        Node (if mid = lo then NULL else ARTbuildtree Table lo mid)
             (Table ! mid)
             (if mid = hi - 1 then NULL else ARTbuildtree Table (mid + 1) hi))"
  by pat_completeness auto
termination
  by (relation "measure (\<lambda>(Table, lo, hi). hi - lo)") auto

declare ARTbuildtree.simps [simp del]

definition sorted_headers :: "nat list" where
  "sorted_headers = foldr qsort_insert [0..<length ARTheaders] []"

definition ARTheadertree :: TREE where
  "ARTheadertree = ARTbuildtree sorted_headers 0 (length ARTheaders)"

text \<open>
  The search of \<open>ARTcheckheader\<close>: \<open>c\<close> is the first octet of the header line in upper case,
  \<open>header\<close> the C string that ends at the colon.
\<close>

fun tree_search :: "TREE \<Rightarrow> char \<Rightarrow> octets \<Rightarrow> nat option" where
  "tree_search NULL c header = None"
| "tree_search (Node b h a) c header =
     (let i = signed_char c - signed_char (header_name h ! 0);
          j = (if i = 0 then strcasecmp header (header_name h) else i) in
      if j = 0 then Some h
      else if j < 0 then tree_search b c header else tree_search a c header)"

definition ARTfindheader :: "char \<Rightarrow> octets \<Rightarrow> nat option" where
  "ARTfindheader first header = tree_search ARTheadertree (c_toupper first) header"

section \<open>The order of the names\<close>

definition name_key :: "octets \<Rightarrow> nat list" where
  "name_key s = map (\<lambda>c. ord (c_tolower c)) s"

lemma tolower_NUL [simp]: "c_tolower c = NUL \<longleftrightarrow> c = NUL"
  by (simp add: c_tolower_def c_isupper_def flip: ord_0_iff)

lemma ord_pos: "c \<noteq> NUL \<Longrightarrow> 0 < ord c"
  using ord_0_iff gr0I by blast

lemma name_key_eq: "name_key a = name_key b \<longleftrightarrow> map c_tolower a = map c_tolower b"
proof -
  have "name_key s = map ord (map c_tolower s)" for s by (simp add: name_key_def comp_def)
  moreover have "inj ord" by (simp add: inj_def)
  ultimately show ?thesis by (simp only: inj_map_eq_map)
qed

lemma strcasecmp_key:
  "NUL \<notin> set a \<Longrightarrow> NUL \<notin> set b \<Longrightarrow>
     (strcasecmp a b < 0 \<longleftrightarrow> name_key a < name_key b) \<and> (strcasecmp a b = 0 \<longleftrightarrow> name_key a = name_key b)"
proof (induction a b rule: strcasecmp.induct)
  case (2 b bs)
  then have "0 < ord (c_tolower b)" by (auto intro!: ord_pos)
  then show ?case using 2 by (auto simp: name_key_def)
next
  case (3 a as)
  then have "0 < ord (c_tolower a)" by (auto intro!: ord_pos)
  then show ?case using 3 by (auto simp: name_key_def)
next
  case (4 a as b bs)
  then show ?case by (cases "c_tolower a = c_tolower b") (auto simp: name_key_def)
qed (simp add: name_key_def)

lemmas strcasecmp_less = strcasecmp_key [THEN conjunct1]
  and strcasecmp_zero = strcasecmp_key [THEN conjunct2]

section \<open>Facts of the table\<close>

definition proper_name :: "octets \<Rightarrow> bool" where
  "proper_name s \<longleftrightarrow> s \<noteq> [] \<and> c_isupper (hd s) \<and> NUL \<notin> set s"

lemma ARTheaders_proper: "list_all (\<lambda>e. proper_name (fst e)) ARTheaders"
  by (simp add: ARTheaders_def proper_name_def c_isupper_def ord_def)

lemma length_ARTheaders [simp]: "length ARTheaders = 76"
  by (simp add: ARTheaders_def)

lemma ARTheaders_distinct: "distinct (map (\<lambda>e. map c_tolower (fst e)) ARTheaders)"
  by (simp add: ARTheaders_def c_tolower_def c_isupper_def ord_def chr_def)

lemma header_name_proper: "h < 76 \<Longrightarrow> proper_name (header_name h)"
  using ARTheaders_proper by (simp add: header_name_def list_all_length)

lemma header_name_inject:
  "i < 76 \<Longrightarrow> j < 76 \<Longrightarrow> name_key (header_name i) = name_key (header_name j) \<longleftrightarrow> i = j"
  using nth_eq_iff_index_eq [OF ARTheaders_distinct, of i j]
  by (simp add: name_key_eq header_name_def)

lemma header_name_NUL: "h < 76 \<Longrightarrow> NUL \<notin> set (header_name h)"
  using header_name_proper by (simp add: proper_name_def)

section \<open>The search\<close>

abbreviation hkey :: "nat \<Rightarrow> nat list" where "hkey h \<equiv> name_key (header_name h)"

lemma ARTcompare_key:
  "x < 76 \<Longrightarrow> y < 76 \<Longrightarrow> ARTcompare x y \<le> 0 \<longleftrightarrow> hkey x \<le> hkey y"
  using strcasecmp_key [of "header_name x" "header_name y"]
  by (auto simp: ARTcompare_def header_name_NUL order.order_iff_strict)

lemma set_qsort_insert [simp]: "set (qsort_insert x ys) = Set.insert x (set ys)"
  by (induction ys) auto

lemma length_qsort_insert [simp]: "length (qsort_insert x ys) = Suc (length ys)"
  by (induction ys) auto

lemma distinct_qsort_insert: "distinct (qsort_insert x ys) \<longleftrightarrow> x \<notin> set ys \<and> distinct ys"
  by (induction ys) auto

lemma sorted_qsort_insert:
  "x < 76 \<Longrightarrow> \<forall>y\<in>set ys. y < 76 \<Longrightarrow> sorted (map hkey ys) \<Longrightarrow> sorted (map hkey (qsort_insert x ys))"
proof (induction ys)
  case (Cons y ys)
  then show ?case by (cases "hkey x \<le> hkey y") (auto simp: ARTcompare_key)
qed simp

lemma sorted_table:
  assumes "\<forall>y\<in>set ys. y < 76" and "distinct ys"
  shows "sorted (map hkey (foldr qsort_insert ys [])) \<and> set (foldr qsort_insert ys []) = set ys
     \<and> distinct (foldr qsort_insert ys []) \<and> length (foldr qsort_insert ys []) = length ys"
  using assms
  by (induction ys) (simp_all add: sorted_qsort_insert distinct_qsort_insert)

lemma sorted_headers_table:
  "sorted (map hkey sorted_headers)" "set sorted_headers = {0..<76}" "distinct sorted_headers"
  "length sorted_headers = 76"
  using sorted_table [of "[0..<76]"] by (simp_all add: sorted_headers_def del: upt_rec_numeral)

fun tree_headers :: "TREE \<Rightarrow> nat set" where
  "tree_headers NULL = {}"
| "tree_headers (Node b h a) = tree_headers b \<union> {h} \<union> tree_headers a"

text \<open>The search compares as \<open>strcasecmp\<close> does when the first octet is that of a name of the table.\<close>

lemma search_compare:
  assumes "h < 76" "k < 76" "NUL \<notin> set header" "name_key header = hkey k" "c = header_name k ! 0"
  defines "i \<equiv> signed_char c - signed_char (header_name h ! 0)"
  defines "j \<equiv> (if i = 0 then strcasecmp header (header_name h) else i)"
  shows "(j = 0 \<longleftrightarrow> h = k) \<and> (j < 0 \<longleftrightarrow> hkey k < hkey h)"
proof (cases "i = 0")
  case True
  then show ?thesis
    using assms strcasecmp_key [of header "header_name h"] header_name_inject [of k h]
    by (auto simp: header_name_NUL)
next
  case False
  obtain a as b bs where ab: "header_name k = a # as" "header_name h = b # bs"
    and up: "c_isupper a" "c_isupper b"
    using header_name_proper [OF \<open>h < 76\<close>] header_name_proper [OF \<open>k < 76\<close>]
    by (auto simp: proper_name_def neq_Nil_conv)
  have i: "i = int (ord a) - int (ord b)"
    using up ab assms(5) by (auto simp: i_def signed_char_def c_isupper_def)
  have "hkey k < hkey h \<longleftrightarrow> ord a < ord b" and "h \<noteq> k"
    using up ab i False by (auto simp: name_key_def c_tolower_def c_isupper_def)
  then show ?thesis using i False by (auto simp: j_def)
qed

lemma buildtree_search:
  assumes "sorted_wrt (<) (map hkey T)" "\<forall>h\<in>set T. h < 76" "k < length T" "NUL \<notin> set header"
    "name_key header = hkey (T ! k)" "c = header_name (T ! k) ! 0"
  shows "lo \<le> k \<Longrightarrow> k < hi \<Longrightarrow> hi \<le> length T \<Longrightarrow> tree_search (ARTbuildtree T lo hi) c header = Some (T ! k)"
  using assms
proof (induction T lo hi rule: ARTbuildtree.induct)
  case (1 T lo hi)
  define mid where "mid = lo + (hi - lo) div 2"
  have mid: "lo \<le> mid" "mid < hi" using "1.prems" by (auto simp: mid_def)
  have keys: "hkey (T ! i) < hkey (T ! j)" if "i < j" "j < length T" for i j
    using sorted_wrt_nth_less [OF "1.prems"(4), of i j] that by simp
  define i where "i = signed_char c - signed_char (header_name (T ! mid) ! 0)"
  define j where "j = (if i = 0 then strcasecmp header (header_name (T ! mid)) else i)"
  have cmp: "(j = 0 \<longleftrightarrow> T ! mid = T ! k) \<and> (j < 0 \<longleftrightarrow> hkey (T ! k) < hkey (T ! mid))"
    unfolding i_def j_def using "1.prems" mid by (intro search_compare) auto
  have "tree_search (ARTbuildtree T lo hi) c header =
    (if j = 0 then Some (T ! mid)
     else if j < 0 then tree_search (if mid = lo then NULL else ARTbuildtree T lo mid) c header
     else tree_search (if mid = hi - 1 then NULL else ARTbuildtree T (mid + 1) hi) c header)"
    (is "_ = ?R")
    using mid by (subst ARTbuildtree.simps) (simp add: mid_def [symmetric] i_def j_def Let_def)
  moreover have "?R = Some (T ! k)"
  proof (cases rule: linorder_cases [of k mid])
    case equal
    then show ?thesis using cmp by simp
  next
    case less
    then have "j < 0" "j \<noteq> 0" using cmp keys [of k mid] "1.prems" mid by auto
    moreover have "tree_search (ARTbuildtree T lo mid) c header = Some (T ! k)" 
      using "1.prems" mid less by (intro "1.IH"(1) [OF _ mid_def]) auto
    ultimately show ?thesis using less "1.prems" by auto
  next
    case greater
    then have "\<not> j < 0" "j \<noteq> 0" using cmp keys [of mid k] "1.prems" by auto
    moreover have "tree_search (ARTbuildtree T (mid + 1) hi) c header = Some (T ! k)" 
      using "1.prems" mid greater by (intro "1.IH"(2) [OF _ mid_def]) auto
    ultimately show ?thesis using greater "1.prems" by auto
  qed
  ultimately show ?case by simp
qed

lemma search_sound:
  "tree_search t c header = Some h \<Longrightarrow> h \<in> tree_headers t \<and> strcasecmp header (header_name h) = 0"
  by (induction t) (auto simp: Let_def split: if_splits)

lemma buildtree_headers: "hi \<le> length T \<Longrightarrow> tree_headers (ARTbuildtree T lo hi) \<subseteq> set T"
proof (induction T lo hi rule: ARTbuildtree.induct)
  case (1 T lo hi)
  show ?case
  proof (cases "hi \<le> lo")
    case True
    then show ?thesis by (subst ARTbuildtree.simps) simp
  next
    case False
    define mid where "mid = lo + (hi - lo) div 2"
    have mid: "mid < hi" using False by (auto simp: mid_def)
    have "tree_headers (if mid = lo then NULL else ARTbuildtree T lo mid) \<subseteq> set T"
      using 1 False mid by (cases "mid = lo") (simp_all add: mid_def [symmetric])
    moreover have "tree_headers (if mid = hi - 1 then NULL else ARTbuildtree T (mid + 1) hi) \<subseteq> set T"
      using 1 False mid by (cases "mid = hi - 1") (simp_all add: mid_def [symmetric])
    ultimately show ?thesis using False mid "1.prems"
      by (subst ARTbuildtree.simps) (simp add: mid_def [symmetric] Let_def)
  qed
qed

lemma ARTfindheader_sound:
  assumes "ARTfindheader first header = Some h" and "NUL \<notin> set header"
  shows "h < 76 \<and> map c_tolower header = map c_tolower (header_name h)"
proof -
  have "tree_search ARTheadertree (c_toupper first) header = Some h"
    using assms(1) by (simp add: ARTfindheader_def)
  then have h: "h \<in> tree_headers ARTheadertree" "strcasecmp header (header_name h) = 0"
    using search_sound by blast+
  have "tree_headers ARTheadertree \<subseteq> set sorted_headers"
    using buildtree_headers [of 76 sorted_headers 0] by (simp add: ARTheadertree_def sorted_headers_table)
  then have "h < 76" using sorted_headers_table(2) h(1) by auto
  then show ?thesis using h(2) assms(2) strcasecmp_zero [of header "header_name h"]
    by (simp add: header_name_NUL name_key_eq)
qed

lemma tolower_toupper:
  assumes "c_tolower a = c_tolower b" and "c_isupper b"
  shows "c_toupper a = b"
proof -
  have b: "ord (c_tolower a) = ord b + 32" "65 \<le> ord b" "ord b \<le> 90"
    using assms by (simp_all add: c_tolower_def c_isupper_def)
  show ?thesis
  proof (cases "c_isupper a")
    case True
    then have "ord a = ord b" using b by (simp add: c_tolower_def c_isupper_def)
    then show ?thesis using b by (simp add: c_toupper_def c_islower_def)
  next
    case False
    then have "ord a = ord b + 32" using b(1) by (simp add: c_tolower_def)
    then show ?thesis using b by (simp add: c_toupper_def c_islower_def)
  qed
qed

lemma ARTfindheader_complete:
  assumes "k < 76" "NUL \<notin> set header" "map c_tolower header = map c_tolower (header_name k)"
  shows "ARTfindheader (hd header) header = Some k"
proof -
  let ?T = sorted_headers
  note T = sorted_headers_table
  have "inj_on hkey (set ?T)" using T(2) by (auto simp: inj_on_def header_name_inject)
  then have "sorted_wrt (<) (map hkey ?T)"
    using T(1,3) by (simp add: strict_sorted_iff distinct_map)
  moreover obtain i where i: "i < 76" "?T ! i = k"
    using T assms(1) by (metis atLeastLessThan_iff in_set_conv_nth zero_le)
  moreover have "c_toupper (hd header) = header_name k ! 0"
  proof -
    obtain b bs where b: "header_name k = b # bs" "c_isupper b"
      using header_name_proper [OF assms(1)] by (auto simp: proper_name_def neq_Nil_conv)
    then obtain a as where a: "header = a # as" "c_tolower a = c_tolower b"
      using assms(3) by (cases header) auto
    then show ?thesis using tolower_toupper [OF a(2) b(2)] b(1) by simp
  qed
  ultimately have "tree_search (ARTbuildtree ?T 0 76) (c_toupper (hd header)) header = Some k"
    using buildtree_search [of ?T i header "c_toupper (hd header)" 0 76] assms T
    by (simp add: name_key_eq)
  then show ?thesis by (simp add: ARTfindheader_def ARTheadertree_def)
qed

text \<open>
  C25: the search in the balanced tree of header names that \<open>ARTsetup\<close> builds is equivalent to a look
  through the whole table of system headers: for every name (a nonempty C string) it gives the
  entry whose name is the same up to the case of the letters, and nothing when there is none.
\<close>

theorem ARTfindheader_correct:
  assumes "header \<noteq> []" and "NUL \<notin> set header"
  shows "ARTfindheader (hd header) header =
    find (\<lambda>h. map c_tolower (header_name h) = map c_tolower header) [0..<length ARTheaders]"
proof (cases "\<exists>h<76. map c_tolower (header_name h) = map c_tolower header")
  case True
  then obtain h where h: "h < 76" "map c_tolower (header_name h) = map c_tolower header" by blast
  have "map c_tolower (header_name m) \<noteq> map c_tolower header" if "m < h" for m
    using that h header_name_inject [of m h] by (auto simp: name_key_eq)
  then have "find (\<lambda>h. map c_tolower (header_name h) = map c_tolower header) [0..<76] = Some h"
    using h by (simp add: find_upt_Some del: upt_rec_numeral)
  then show ?thesis using h assms ARTfindheader_complete [of h header]
    by (simp del: upt_rec_numeral)
next
  case False
  then have "find (\<lambda>h. map c_tolower (header_name h) = map c_tolower header) [0..<76] = None"
    by (auto simp: find_upt_None)
  moreover have "ARTfindheader (hd header) header = None"
    using False ARTfindheader_sound [OF _ assms(2)] by (cases "ARTfindheader (hd header) header") force+
  ultimately show ?thesis by (simp del: upt_rec_numeral)
qed

theorem ARTfindheader_correct_witness:
  "ARTfindheader (hd ''message-id'') ''message-id'' =
     find (\<lambda>h. map c_tolower (header_name h) = map c_tolower ''message-id'') [0..<length ARTheaders]
   \<and> ARTfindheader (hd ''message-id'') ''message-id'' = Some HDR__MESSAGE_ID"
proof -
  have "header_name 7 = ''Message-ID''" by (simp add: header_name_def ARTheaders_def)
  moreover have "map c_tolower ''message-id'' = map c_tolower ''Message-ID''" by code_simp
  ultimately show ?thesis
    using ARTfindheader_correct [of "''message-id''"] ARTfindheader_complete [of 7 "''message-id''"]
    by (simp only: HDR__MESSAGE_ID_def) simp
qed

end
