(* ===== verification/Artparse.thy ===== *)
theory Artparse
  imports Artheaders His
begin

text \<open>
  The reception of an article by \<open>innd\<close> (\<open>innd/art.c\<close>, the parser proper: \<open>ARTprepare\<close>,
  \<open>ARTparse\<close>, \<open>ARTparseheader\<close>, \<open>ARTparsebody\<close>, \<open>ARTcheckheader\<close>, \<open>ARTchecksize\<close>), and
  the step of \<open>NCproc\<close> (\<open>innd/nc.c\<close>) that calls it as data arrive and moves the data to the
  front of the input buffer. The buffer \<open>cp->In\<close> is the list of its used octets, an argument of
  the operations; pointers into it are indices. Log messages are left out.
\<close>

section \<open>State\<close>

text \<open>The states of \<open>enum channel_state\<close>.\<close>

datatype channel_state =
  CSerror | CSwaiting | CSgetcmd | CSgetauth | CSwritegoodbye | CSwriting | CSpaused | CSgetheader
  | CSgetbody | CSgotarticle | CSgotlargearticle | CSnoarticle | CSeatarticle | CSeatcommand
  | CSgetxbatch | CScancel

record HDRCONTENT =
  Value :: "nat option"
  Length :: int
  LastChar :: char

text \<open>
  The members of \<open>CHANNEL\<close> and of its \<open>ARTDATA\<close> that the parser uses. The counters are C
  \<open>int\<close>s bounded by the size of the article.
\<close>

record channel =
  Sendid_size :: int
  Start :: nat
  Next :: nat
  State :: channel_state
  Error :: octets
  Body :: nat
  CurHeader :: nat
  BytesHeader :: "nat option"
  HdrContent :: "HDRCONTENT list"
  Lines :: int
  HeaderLines :: int
  CRwithoutLF :: int
  LFwithoutCR :: int
  DotStuffedLines :: int

definition ARTprepare :: "channel \<Rightarrow> channel" where
  "ARTprepare cp = cp\<lparr>
     HdrContent := replicate MAX_ARTHEADER \<lparr>Value = None, Length = 0, LastChar = CR\<rparr>,
     Lines := 0, HeaderLines := 0, CRwithoutLF := 0, LFwithoutCR := 0, DotStuffedLines := 0,
     CurHeader := Start cp, Body := Start cp, BytesHeader := None, Error := []\<rparr>"

section \<open>Errors\<close>

definition reject_code :: "channel \<Rightarrow> octets" where
  "reject_code cp = (if 3 < Sendid_size cp then ''439 '' else ''437 '')"

definition ARTerror :: "channel \<Rightarrow> octets \<Rightarrow> channel" where
  "ARTerror cp msg = cp\<lparr>Error := take (SMBUF - 1) (reject_code cp @ msg)\<rparr>"

text \<open>
  \<open>MaxLength\<close> and its \<open>Join\<close> (\<open>innd/util.c\<close>): a text that fits in 79 octets, \<open>q\<close> being the
  index of the interesting part, each CR or LF made a space. The bounds are those of the \<open>strlcpy\<close>
  and \<open>strlcat\<close> calls on the buffer of 80.
\<close>

definition Join :: "octets \<Rightarrow> octets" where
  "Join text = map (\<lambda>c. if c = LF \<or> c = CR then SP else c) text"

definition MaxLength :: "octets \<Rightarrow> nat option \<Rightarrow> octets" where
  "MaxLength p q =
     Join (if length p < 79 then p
           else case q of
             None \<Rightarrow> take 76 p @ ''...''
           | Some q \<Rightarrow>
               if q < 76 then take 76 p @ ''...''
               else if length p - q < 10 then take 66 p @ ''...'' @ drop (length p - 10) p
               else take 63 p @ ''...'' @ take 10 (drop (q - 5) p) @ ''...'')"

section \<open>One header field\<close>

definition c_str :: "octets \<Rightarrow> octets" where
  "c_str s = takeWhile (\<lambda>c. c \<noteq> NUL) s"

text \<open>\<open>substr s i n\<close>: the \<open>n\<close> octets at \<open>s + i\<close>.\<close>

definition substr :: "octets \<Rightarrow> nat \<Rightarrow> nat \<Rightarrow> octets" where
  "substr s i n = take n (drop i s)"

text \<open>
  The two loops that trim the value of some fields: the first blank-free octet from the front, and
  the number of octets left once the blanks behind have been dropped.
\<close>

fun skip_white :: "octets \<Rightarrow> nat \<Rightarrow> nat \<Rightarrow> nat" where
  "skip_white bp p 0 = p"
| "skip_white bp p (Suc n) = (if ISWHITE (bp ! p) then skip_white bp (p + 1) n else p)"

fun trim_white :: "octets \<Rightarrow> nat \<Rightarrow> nat \<Rightarrow> nat" where
  "trim_white bp v 0 = 0"
| "trim_white bp v (Suc n) = (if 0 < n \<and> ISWHITE (bp ! (v + n)) then trim_white bp v n else Suc n)"

text \<open>
  \<open>ARTcheckheader\<close>: \<open>sz\<close> counts the octets of the field with its CRLF. The octets that the
  code overwrites with NULs are put back before it returns, so that the buffer is only read.
\<close>

definition field_value :: "octets \<Rightarrow> bool \<Rightarrow> nat \<Rightarrow> nat \<Rightarrow> nat \<Rightarrow> nat \<Rightarrow> nat \<times> int" where
  "field_value bp xrefslave i header sz colon =
     (if i = HDR__MESSAGE_ID \<or> i = HDR__SUPERSEDES \<or> (xrefslave \<and> i = HDR__XREF)
      then let v = skip_white bp (colon + 1) (header + sz - 2 - (colon + 1))
           in (v, int (trim_white bp v (header + sz - 2 - v)))
      else (colon + 2, int sz - (int (colon + 2) - int header) - 2))"

definition ARTcheckheader :: "bool \<Rightarrow> octets \<Rightarrow> channel \<Rightarrow> nat \<Rightarrow> channel" where
  "ARTcheckheader xrefslave bp cp sz =
     (let header = CurHeader cp;
          text = (\<lambda>e. MaxLength (c_str (substr bp header (e - header))) (Some 0));
          no_colon =
            (let e = (case memchr bp header sz CR of Some p \<Rightarrow> p | None \<Rightarrow> length bp)
             in ARTerror cp (''No colon-space in '' @ [CHR 0x22] @ text e @ [CHR 0x22] @ '' header'')) in
      case memchr bp header sz CHR '':'' of
        None \<Rightarrow> no_colon
      | Some colon \<Rightarrow>
          if \<not> ISWHITE (bp ! (colon + 1)) then no_colon
          else
            case ARTfindheader (bp ! header) (c_str (substr bp header (colon - header))) of
              None \<Rightarrow>
                (case find (\<lambda>p. ISWHITE (bp ! p)) (rev [header + 1..<colon]) of
                   Some p \<Rightarrow> ARTerror cp (''Space before colon in '' @ [CHR 0x22] @ text p @ [CHR 0x22] @ '' header'')
                 | None \<Rightarrow> cp)
            | Some i \<Rightarrow>
                let cp = (if i = HDR__BYTES then cp\<lparr>BytesHeader := Some header\<rparr> else cp);
                    hc = HdrContent cp ! i in
                if Length hc \<noteq> 0 then
                  (if header_type i = HTreq
                   then cp\<lparr>HdrContent := (HdrContent cp)[i := hc\<lparr>Length := - 1\<rparr>]\<rparr> else cp)
                else let (v, n) = field_value bp xrefslave i header sz colon in
                  cp\<lparr>HdrContent := (HdrContent cp)[i := hc\<lparr>Value := Some v, Length := n\<rparr>]\<rparr>)"

section \<open>The body\<close>

text \<open>\<open>at bp i s\<close>: the octets at \<open>i\<close> are \<open>s\<close> (\<open>memcmp\<close> where all are there).\<close>

definition at :: "octets \<Rightarrow> nat \<Rightarrow> octets \<Rightarrow> bool" where
  "at bp i s \<longleftrightarrow> substr bp i (length s) = s"

abbreviation end_of_line_dot :: octets where "end_of_line_dot \<equiv> [CR, LF, CHR ''.'', CR, LF]"
abbreviation dot_line :: octets where "dot_line \<equiv> [CHR ''.'', CR, LF]"

text \<open>The check whether the part that begins at \<open>start\<close> begins with the terminator.\<close>

definition starts_with_dot :: "octets \<Rightarrow> nat \<Rightarrow> nat \<Rightarrow> bool" where
  "starts_with_dot bp start i \<longleftrightarrow> i = start + 1 \<and> 1 < length bp - i \<and> at bp (i - 1) dot_line"

definition got_article :: "channel \<Rightarrow> channel" where
  "got_article cp =
     cp\<lparr>State := (if State cp = CSeatarticle then CSgotlargearticle else CSgotarticle)\<rparr>"

text \<open>The end of a body line at the CRLF of \<open>i\<close>: the next line may begin with a dot.\<close>

definition end_body_line :: "octets \<Rightarrow> nat \<Rightarrow> channel \<Rightarrow> channel" where
  "end_body_line bp i cp =
     (let cp = cp\<lparr>Lines := Lines cp + 1\<rparr> in
      if bp ! (i + 2) = CHR ''.'' then cp\<lparr>DotStuffedLines := DotStuffedLines cp + 1\<rparr> else cp)"

text \<open>What both loops do with every octet that they look at.\<close>

definition note_octet :: "octets \<Rightarrow> char \<Rightarrow> channel \<Rightarrow> channel" where
  "note_octet msg c cp =
     (let cp = (if c = NUL then ARTerror cp msg else cp)
      in if c = LF then cp\<lparr>LFwithoutCR := LFwithoutCR cp + 1\<rparr> else cp)"

function ARTparsebody_loop :: "octets \<Rightarrow> nat \<Rightarrow> channel \<Rightarrow> channel" where
  "ARTparsebody_loop bp i cp =
     (if length bp \<le> i then cp\<lparr>Next := i\<rparr>
      else
        let cp = note_octet ''Nul character in body'' (bp ! i) cp in
        if bp ! i \<noteq> CR then ARTparsebody_loop bp (i + 1) cp
        else if starts_with_dot bp (Body cp) i
        then (got_article cp)\<lparr>Next := i + 2\<rparr>
        else if length bp - i < 5 then cp\<lparr>Next := i\<rparr>
        else if at bp i end_of_line_dot
        then (got_article cp)\<lparr>Next := i + 5, Lines := Lines cp + 1\<rparr>
        else if bp ! (i + 1) = LF then
          ARTparsebody_loop bp (i + 2) (end_body_line bp i cp)
        else ARTparsebody_loop bp (i + 1) (cp\<lparr>CRwithoutLF := CRwithoutLF cp + 1\<rparr>))"
  by pat_completeness auto
termination
  by (relation "measure (\<lambda>(bp, i, cp). length bp - i)") auto

declare ARTparsebody_loop.simps [simp del]

definition ARTparsebody :: "octets \<Rightarrow> channel \<Rightarrow> channel" where
  "ARTparsebody bp cp = ARTparsebody_loop bp (Next cp) cp"

section \<open>The header\<close>

text \<open>
  The end of a header line, at the CRLF of \<open>i\<close>: the index that the code goes on with, and the
  field that has just ended checked when the next line does not continue it. At the start of the
  article \<open>i\<close> is not advanced, so that the end of the headers is still seen.
\<close>

definition end_header_line :: "bool \<Rightarrow> octets \<Rightarrow> nat \<Rightarrow> channel \<Rightarrow> nat \<times> channel" where
  "end_header_line xrefslave bp i cp =
     (if i = Start cp then (i, ARTerror cp ''No headers'')
      else
        let cp = cp\<lparr>HeaderLines := HeaderLines cp + 1\<rparr> in
        (i + 2,
         if bp ! (i + 2) \<noteq> SP \<and> bp ! (i + 2) \<noteq> TAB
         then (ARTcheckheader xrefslave bp cp (i + 2 - CurHeader cp))\<lparr>CurHeader := i + 2\<rparr>
         else cp))"

lemma end_header_line_ge: "end_header_line xrefslave bp i cp = (j, cp') \<Longrightarrow> i \<le> j"
  by (auto simp: end_header_line_def Let_def split: if_splits)

text \<open>The loop's own increment moves on from the first octet of the next line without a look at it.\<close>

function ARTparseheader_loop :: "bool \<Rightarrow> octets \<Rightarrow> nat \<Rightarrow> channel \<Rightarrow> channel" where
  "ARTparseheader_loop xrefslave bp i cp =
     (if length bp \<le> i then cp\<lparr>Next := i\<rparr>
      else
        let cp = note_octet ''Nul character in header'' (bp ! i) cp in
        if bp ! i \<noteq> CR then ARTparseheader_loop xrefslave bp (i + 1) cp
        else if starts_with_dot bp (Start cp) i
        then (ARTerror cp ''Empty article'')\<lparr>State := CSnoarticle, Next := i + 2\<rparr>
        else if length bp - i < 5 then cp\<lparr>Next := i\<rparr>
        else if at bp i end_of_line_dot
        then (if i = Start cp
              then (ARTerror cp ''Empty headers and body'')\<lparr>State := CSnoarticle, Next := i + 5\<rparr>
              else (ARTerror cp ''No body'')\<lparr>State := CSgotarticle, Next := i + 5\<rparr>)
        else if bp ! (i + 1) = LF then
          (case end_header_line xrefslave bp i cp of
             (j, cp) \<Rightarrow>
               if bp ! j = CR \<and> bp ! (j + 1) = LF
               then ARTparsebody bp (cp\<lparr>Next := j + 2, Body := j + 2, State := CSgetbody\<rparr>)
               else ARTparseheader_loop xrefslave bp (j + 1) cp)
        else ARTparseheader_loop xrefslave bp (i + 1) (cp\<lparr>CRwithoutLF := CRwithoutLF cp + 1\<rparr>))"
  by pat_completeness auto
termination
  by (relation "measure (\<lambda>(xr, bp, i, cp). length bp - i)") (auto dest!: sym [THEN end_header_line_ge])

declare ARTparseheader_loop.simps [simp del]

definition ARTparseheader :: "bool \<Rightarrow> octets \<Rightarrow> channel \<Rightarrow> channel" where
  "ARTparseheader xrefslave bp cp = ARTparseheader_loop xrefslave bp (Next cp) cp"

section \<open>The size limit\<close>

definition HDR_FOUND :: "channel \<Rightarrow> nat \<Rightarrow> bool" where
  "HDR_FOUND cp i \<longleftrightarrow> 0 < Length (HdrContent cp ! i)"

text \<open>
  \<open>HDR\<close> between \<open>HDR_PARSE_START\<close> and \<open>HDR_PARSE_END\<close>: the C string that starts at the value,
  with a NUL in the place of the octet behind it, which \<open>HDR_LASTCHAR_SAVE\<close> keeps.
\<close>

definition HDR :: "octets \<Rightarrow> channel \<Rightarrow> nat \<Rightarrow> octets" where
  "HDR bp cp i =
     (case Value (HdrContent cp ! i) of
        Some v \<Rightarrow> c_str (substr bp v (nat (Length (HdrContent cp ! i)))) | None \<Rightarrow> [])"

definition HDR_LASTCHAR_SAVE :: "octets \<Rightarrow> channel \<Rightarrow> nat \<Rightarrow> channel" where
  "HDR_LASTCHAR_SAVE bp cp i =
     (let hc = HdrContent cp ! i in
      case Value hc of
        Some v \<Rightarrow> cp\<lparr>HdrContent := (HdrContent cp)[i := hc\<lparr>LastChar := bp ! (v + nat (Length hc))\<rparr>]\<rparr>
      | None \<Rightarrow> cp)"

text \<open>
  \<open>InndHisRemember\<close> (\<open>innd/util.c\<close>) is \<open>HISremember\<close> with the time of arrival; the throttling
  of the server after a failure (\<open>IOError\<close>) is left out.
\<close>

definition InndHisRemember ::
  "int \<Rightarrow> ('s, 'l) history \<Rightarrow> octets \<Rightarrow> int \<Rightarrow> (bool \<times> ('s, 'l) history) option" where
  "InndHisRemember now h key posted = HISremember h key now posted"

definition remember_unknown ::
  "int \<Rightarrow> ('s, 'l) history \<Rightarrow> octets \<Rightarrow> ('s, 'l) history option" where
  "remember_unknown now h msgid =
     do { (r, h) \<leftarrow> HIScheck h msgid;
          if r then Some h else do { (r, h) \<leftarrow> InndHisRemember now h msgid 0; Some h } }"

text \<open>The part of \<open>ARTchecksize\<close> that sets the state and the reply, and the whole of it.\<close>

definition checksize_state :: "nat \<Rightarrow> channel \<Rightarrow> channel" where
  "checksize_state maxartsize cp =
     (let sz = Next cp - Start cp;
          cp = (if maxartsize \<noteq> 0 \<and> maxartsize < sz
                then cp\<lparr>State := (if State cp = CSgotarticle \<or> State cp = CSgotlargearticle
                                 then CSgotlargearticle else CSeatarticle)\<rparr>
                else cp) in
      if State cp = CSgotlargearticle
      then ARTerror cp (''Article of '' @ dec_nat sz @ '' bytes exceeds local limit of '' @
                        dec_nat maxartsize @ '' bytes'')
      else cp)"

definition ARTchecksize ::
  "nat \<Rightarrow> int \<Rightarrow> octets \<Rightarrow> channel \<times> ('s, 'l) history \<Rightarrow> (channel \<times> ('s, 'l) history) option" where
  "ARTchecksize maxartsize now bp s =
     (case s of (cp, h) \<Rightarrow>
      let cp = checksize_state maxartsize cp in
      if State cp = CSgotlargearticle \<and> HDR_FOUND cp HDR__MESSAGE_ID
      then do { h \<leftarrow> remember_unknown now h (HDR bp cp HDR__MESSAGE_ID);
                Some (HDR_LASTCHAR_SAVE bp cp HDR__MESSAGE_ID, h) }
      else Some (cp, h))"

section \<open>Parsing\<close>

text \<open>The parse of one batch of data, without and with the check of the size.\<close>

definition ARTparse_data :: "bool \<Rightarrow> octets \<Rightarrow> channel \<Rightarrow> channel" where
  "ARTparse_data xrefslave bp cp =
     (if State cp = CSgetheader then ARTparseheader xrefslave bp cp else ARTparsebody bp cp)"

definition ARTparse ::
  "bool \<Rightarrow> nat \<Rightarrow> int \<Rightarrow> octets \<Rightarrow> channel \<times> ('s, 'l) history \<Rightarrow> (channel \<times> ('s, 'l) history) option" where
  "ARTparse xrefslave maxartsize now bp s =
     ARTchecksize maxartsize now bp (ARTparse_data xrefslave bp (fst s), snd s)"

text \<open>The move of the data in \<open>NCproc\<close>: the octets before \<open>Start\<close> are dropped.\<close>

definition move_data :: "octets \<Rightarrow> channel \<Rightarrow> octets \<times> channel" where
  "move_data bp cp =
     (let n = Start cp;
          cp = (if State cp = CSgetheader \<or> State cp = CSgetbody \<or> State cp = CSeatarticle
                then cp\<lparr>CurHeader := CurHeader cp - n, Body := Body cp - n,
                        BytesHeader := map_option (\<lambda>b. b - n) (BytesHeader cp),
                        HdrContent := map (\<lambda>hc. hc\<lparr>Value := map_option (\<lambda>v. v - n) (Value hc)\<rparr>) (HdrContent cp)\<rparr>
                else cp) in
      (drop n bp, cp\<lparr>Next := Next cp - n, Start := 0\<rparr>))"

section \<open>Where an article ends\<close>

text \<open>
  An article ends behind the first CRLF, dot, CRLF, or behind a dot line that starts it: the
  octets \<open>s\<close> from the start of the article on end it at \<open>e\<close>.
\<close>

definition ends_at :: "octets \<Rightarrow> nat \<Rightarrow> nat \<Rightarrow> bool" where
  "ends_at bp s e \<longleftrightarrow> e \<le> length bp \<and>
     (e = s + 3 \<and> at bp s dot_line \<or> s + 5 \<le> e \<and> at bp (e - 5) end_of_line_dot)"

definition receiving :: "channel \<Rightarrow> bool" where
  "receiving cp \<longleftrightarrow> State cp \<in> {CSgetheader, CSgetbody, CSeatarticle}"

lemma at_Nil [simp]: "at bp i []"
  by (simp add: at_def substr_def)

lemma at_Cons [simp]: "at bp i (c # s) \<longleftrightarrow> i < length bp \<and> bp ! i = c \<and> at bp (Suc i) s"
  by (auto simp: at_def substr_def drop_eq_Cons take_Suc hd_drop_conv_nth split: if_splits)
    (metis drop_eq_Cons drop_eq_Nil list.distinct(1) list.inject not_le_imp_less take_Suc_Cons take_Nil)+

text \<open>
  What holds of the octets before \<open>i\<close> once they have been parsed, the body beginning at \<open>body\<close>
  (or not yet known, at \<open>s\<close>): the only end that may begin there is the one of an empty body whose
  dot line is still to be read.
\<close>

definition passed :: "octets \<Rightarrow> nat \<Rightarrow> nat \<Rightarrow> nat \<Rightarrow> bool" where
  "passed B s body i \<longleftrightarrow>
     (\<forall>j. s \<le> j \<and> j < i \<and> at B j end_of_line_dot \<longrightarrow> j + 2 = body \<and> i \<le> body + 1) \<and>
     (at B s dot_line \<longrightarrow> i \<le> s + 1)"

definition offsets_ok :: "octets \<Rightarrow> nat \<Rightarrow> nat \<Rightarrow> nat \<Rightarrow> bool" where
  "offsets_ok B s body i \<longleftrightarrow> (body = s \<or> s + 2 \<le> body \<and> at B (body - 2) [CR, LF]) \<and> body \<le> i"

lemma passed_stop:
  assumes "passed (bp @ rest) s body n" "offsets_ok (bp @ rest) s body n"
    and stop: "length bp \<le> n \<or> bp ! n = CR \<and> length bp - n < 5 \<and>
       \<not> starts_with_dot bp body n"
  shows "\<not> ends_at bp s e"
proof
  assume e: "ends_at bp s e"
  show False
  proof (cases "e = s + 3 \<and> at bp s dot_line")
    case True
    then have "n \<le> s + 1" using assms(1) by (simp add: passed_def nth_append)
    moreover have "n \<noteq> s" using True stop by (auto simp: passed_def)
    ultimately show False using True assms(2) stop by (auto simp: offsets_ok_def le_Suc_eq starts_with_dot_def)
  next
    case False
    define j where "j = e - 5"
    have j: "s \<le> j" "e = j + 5" "j + 5 \<le> length bp" "at bp j end_of_line_dot"
      using e False by (auto simp: ends_at_def j_def)
    then have "j < n" using stop by auto
    then have n: "j + 2 = body" "n \<le> body + 1"
      using assms(1) j by (auto simp: passed_def nth_append)
    then have "n = body \<or> n = body + 1" using assms(2) by (auto simp: offsets_ok_def)
    then show False using n(1)[symmetric] j stop by (auto simp: eval_nat_numeral starts_with_dot_def)
  qed
qed

lemma passed_other:
  assumes "passed B s body i" "offsets_ok B s body i" "i < length B" "B ! i \<noteq> CR"
  shows "passed B s body (i + 1)"
proof -
  have "i \<noteq> s + 1" if "at B s dot_line" using that assms by auto
  moreover have "i \<noteq> body + 1" if "at B j end_of_line_dot" "j + 2 = body" for j
    using that assms by (auto simp: eval_nat_numeral)
  moreover have "j \<noteq> i" if "at B j end_of_line_dot" for j using that assms by auto
  ultimately show ?thesis using assms unfolding passed_def by (auto simp: less_Suc_eq le_Suc_eq)
qed

text \<open>A CR that is not the one of an empty body's dot line leaves no end before it.\<close>

definition clean :: "octets \<Rightarrow> nat \<Rightarrow> nat \<Rightarrow> bool" where
  "clean B s i \<longleftrightarrow> (\<forall>j. s \<le> j \<and> j < i \<longrightarrow> \<not> at B j end_of_line_dot) \<and> \<not> at B s dot_line"

lemma passed_clean:
  assumes "passed B s body i" "offsets_ok B s body i" "B ! i = CR"
    and "\<not> (i = body + 1 \<and> at B (i - 1) dot_line)"
  shows "clean B s i"
proof -
  have "\<not> at B s dot_line"
  proof
    assume d: "at B s dot_line"
    then have "i \<le> s + 1" "i \<noteq> s" using assms(1,3) by (auto simp: passed_def)
    then show False using d assms(2,4) by (auto simp: offsets_ok_def le_Suc_eq)
  qed
  moreover have "\<not> at B j end_of_line_dot" if "s \<le> j" "j < i" for j
  proof
    assume d: "at B j end_of_line_dot"
    then have b: "j + 2 = body" "i \<le> body + 1" using that assms(1) by (auto simp: passed_def)
    then have "i = body \<or> i = body + 1" using assms(2) by (auto simp: offsets_ok_def)
    then show False using d b(1)[symmetric] assms(3,4) by (auto simp: eval_nat_numeral)
  qed
  ultimately show ?thesis by (auto simp: clean_def)
qed

lemma clean_passed:
  assumes "clean B s i" "\<not> at B i end_of_line_dot"
    "\<And>j. i < j \<Longrightarrow> j < n \<Longrightarrow> at B j end_of_line_dot \<Longrightarrow> j + 2 = body \<and> n \<le> body + 1"
  shows "passed B s body n"
proof -
  have "j + 2 = body \<and> n \<le> body + 1" if "s \<le> j" "j < n" "at B j end_of_line_dot" for j
  proof (cases j i rule: linorder_cases)
    case less
    then show ?thesis using that assms(1) unfolding clean_def by blast
  next
    case equal
    then show ?thesis using that assms(2) by blast
  next
    case greater
    then show ?thesis using that assms(3) by blast
  qed
  moreover have "\<not> at B s dot_line" using assms(1) unfolding clean_def by blast
  ultimately show ?thesis unfolding passed_def by blast
qed

text \<open>The two ways in which the code finds the end find the first one.\<close>

lemma first_end_line:
  assumes "clean B s i" "B = bp @ rest" "at bp i end_of_line_dot" "s \<le> i"
  shows "first_at (ends_at bp s) 0 (i + 5)"
proof -
  have at: "at B j x" if "at bp j x" for j x
    using that by (induction x arbitrary: j) (auto simp: assms(2) nth_append)
  have "i + 4 < length bp" using assms(3) by (auto simp: eval_nat_numeral)
  then have "ends_at bp s (i + 5)" using assms(3,4) by (simp add: ends_at_def del: at_Cons)
  moreover have "\<not> ends_at bp s m" if "m < i + 5" for m
  proof
    assume m: "ends_at bp s m"
    then have "\<not> (m = s + 3 \<and> at bp s dot_line)" using assms(1) at by (auto simp: clean_def simp del: at_Cons)
    then have "s + 5 \<le> m" "at bp (m - 5) end_of_line_dot" using m by (auto simp: ends_at_def)
    moreover have "s \<le> m - 5" "m - 5 < i" using calculation that by auto
    ultimately show False using assms(1) at unfolding clean_def by blast
  qed
  ultimately show ?thesis by (simp add: first_at_def)
qed

lemma first_end_dot:
  assumes "passed B s body (body + 1)" "offsets_ok B s body (body + 1)" "B = bp @ rest" "at bp body dot_line"
  shows "first_at (ends_at bp s) 0 (body + 3)"
proof -
  have at: "at B j x" if "at bp j x" for j x
    using that by (induction x arbitrary: j) (auto simp: assms(3) nth_append)
  have len: "body + 2 < length bp" using assms(4) by (auto simp: eval_nat_numeral)
  show ?thesis
  proof (cases "body = s")
    case True
    then show ?thesis using assms(4) len by (auto simp: first_at_def ends_at_def simp del: at_Cons)
  next
    case False
    define j where "j = body - 2"
    have j: "body = j + 2" "s \<le> j" and crlf: "at B j [CR, LF]"
      using False assms(2) by (auto simp: offsets_ok_def j_def simp del: at_Cons)
    have "at bp j end_of_line_dot"
      using crlf assms(4) len j(1) by (auto simp: assms(3) nth_append eval_nat_numeral)
    then have "ends_at bp s (body + 3)"
      using j len by (simp add: ends_at_def eval_nat_numeral del: at_Cons)
    moreover have "\<not> ends_at bp s m" if "m < body + 3" for m
    proof
      assume m: "ends_at bp s m"
      have "\<not> at bp s dot_line" using assms(1) at j by (auto simp: passed_def simp del: at_Cons)
      then have "s + 5 \<le> m" "at bp (m - 5) end_of_line_dot" using m by (auto simp: ends_at_def)
      then have "s \<le> m - 5 \<and> m - 5 < body + 1 \<and> at B (m - 5) end_of_line_dot"
        using at that by (auto simp del: at_Cons)
      then have "m - 5 + 2 = body" using assms(1) unfolding passed_def by blast
      then show False using that \<open>s + 5 \<le> m\<close> by simp
    qed
    ultimately show ?thesis by (simp add: first_at_def)
  qed
qed

section \<open>The loops find it\<close>

definition framed :: "octets \<Rightarrow> octets \<Rightarrow> nat \<Rightarrow> channel \<Rightarrow> bool" where
  "framed bp rest s cp \<longleftrightarrow> Start cp = s \<and>
     (if receiving cp
      then s \<le> Next cp \<and> Next cp \<le> length bp \<and> offsets_ok (bp @ rest) s (Body cp) (Next cp) \<and>
           passed (bp @ rest) s (Body cp) (Next cp) \<and> (State cp = CSgetheader \<longrightarrow> Body cp = s) \<and>
           (\<forall>e. \<not> ends_at bp s e)
      else first_at (ends_at bp s) 0 (Next cp) \<and>
           (State cp \<in> {CSgotarticle, CSgotlargearticle} \<or> Next cp \<le> s + 5))"

lemma ARTerror_sel [simp]:
  "Start (ARTerror cp msg) = Start cp" "Next (ARTerror cp msg) = Next cp"
  "State (ARTerror cp msg) = State cp" "Body (ARTerror cp msg) = Body cp"
  "CurHeader (ARTerror cp msg) = CurHeader cp" "HdrContent (ARTerror cp msg) = HdrContent cp"
  by (simp_all add: ARTerror_def)

lemma note_octet_CR [simp]: "note_octet msg CR cp = cp"
  by (simp add: note_octet_def)

lemma note_octet_sel [simp]:
  "Start (note_octet msg c cp) = Start cp" "Next (note_octet msg c cp) = Next cp"
  "State (note_octet msg c cp) = State cp" "Body (note_octet msg c cp) = Body cp"
  "CurHeader (note_octet msg c cp) = CurHeader cp" "HdrContent (note_octet msg c cp) = HdrContent cp"
  by (simp_all add: note_octet_def Let_def)

lemma end_body_line_sel [simp]:
  "Start (end_body_line bp i cp) = Start cp" "Next (end_body_line bp i cp) = Next cp"
  "State (end_body_line bp i cp) = State cp" "Body (end_body_line bp i cp) = Body cp"
  by (simp_all add: end_body_line_def Let_def)

lemma got_article_sel [simp]:
  "Start (got_article cp) = Start cp" "Body (got_article cp) = Body cp"
  "State (got_article cp) = CSgotarticle \<or> State (got_article cp) = CSgotlargearticle"
  "\<not> receiving (got_article cp)" "\<not> receiving ((got_article cp)\<lparr>Next := n\<rparr>)"
  "\<not> receiving ((got_article cp)\<lparr>Next := n, Lines := l\<rparr>)"
  by (simp_all add: got_article_def receiving_def)

lemma at_append:
  "i + length x \<le> length bp \<Longrightarrow> at (bp @ rest) i x = at bp i x"
  by (induction x arbitrary: i) (auto simp: nth_append)

text \<open>The loops, one octet at a time.\<close>

lemma parsebody_stop: "length bp \<le> i \<Longrightarrow> ARTparsebody_loop bp i cp = cp\<lparr>Next := i\<rparr>"
  by (simp add: ARTparsebody_loop.simps [of bp i])

lemma parsebody_other:
  "i < length bp \<Longrightarrow> bp ! i \<noteq> CR \<Longrightarrow> ARTparsebody_loop bp i cp =
     ARTparsebody_loop bp (i + 1) (note_octet ''Nul character in body'' (bp ! i) cp)"
  by (subst ARTparsebody_loop.simps) (simp add: Let_def)

lemma parsebody_dot:
  "i < length bp \<Longrightarrow> bp ! i = CR \<Longrightarrow> starts_with_dot bp (Body cp) i \<Longrightarrow>
     ARTparsebody_loop bp i cp = (got_article cp)\<lparr>Next := i + 2\<rparr>"
  by (subst ARTparsebody_loop.simps) simp

lemma parsebody_wait:
  "i < length bp \<Longrightarrow> bp ! i = CR \<Longrightarrow> \<not> starts_with_dot bp (Body cp) i \<Longrightarrow> length bp - i < 5 \<Longrightarrow>
     ARTparsebody_loop bp i cp = cp\<lparr>Next := i\<rparr>"
  by (subst ARTparsebody_loop.simps) simp

lemma parsebody_CR:
  "i < length bp \<Longrightarrow> bp ! i = CR \<Longrightarrow> \<not> starts_with_dot bp (Body cp) i \<Longrightarrow> \<not> length bp - i < 5 \<Longrightarrow>
     ARTparsebody_loop bp i cp =
       (if at bp i end_of_line_dot then (got_article cp)\<lparr>Next := i + 5, Lines := Lines cp + 1\<rparr>
        else if bp ! (i + 1) = LF then
          ARTparsebody_loop bp (i + 2) (end_body_line bp i cp)
        else ARTparsebody_loop bp (i + 1) (cp\<lparr>CRwithoutLF := CRwithoutLF cp + 1\<rparr>))"
  by (subst ARTparsebody_loop.simps) (simp del: at_Cons add: Let_def)

lemma parseheader_stop: "length bp \<le> i \<Longrightarrow> ARTparseheader_loop xr bp i cp = cp\<lparr>Next := i\<rparr>"
  by (simp add: ARTparseheader_loop.simps [of xr bp i])

lemma parseheader_other:
  "i < length bp \<Longrightarrow> bp ! i \<noteq> CR \<Longrightarrow> ARTparseheader_loop xr bp i cp =
     ARTparseheader_loop xr bp (i + 1) (note_octet ''Nul character in header'' (bp ! i) cp)"
  by (subst ARTparseheader_loop.simps) (simp add: Let_def)

lemma parseheader_dot:
  "i < length bp \<Longrightarrow> bp ! i = CR \<Longrightarrow> starts_with_dot bp (Start cp) i \<Longrightarrow>
     ARTparseheader_loop xr bp i cp = (ARTerror cp ''Empty article'')\<lparr>State := CSnoarticle, Next := i + 2\<rparr>"
  by (subst ARTparseheader_loop.simps) simp

lemma parseheader_wait:
  "i < length bp \<Longrightarrow> bp ! i = CR \<Longrightarrow> \<not> starts_with_dot bp (Start cp) i \<Longrightarrow> length bp - i < 5 \<Longrightarrow>
     ARTparseheader_loop xr bp i cp = cp\<lparr>Next := i\<rparr>"
  by (subst ARTparseheader_loop.simps) simp

lemma parseheader_CR:
  "i < length bp \<Longrightarrow> bp ! i = CR \<Longrightarrow> \<not> starts_with_dot bp (Start cp) i \<Longrightarrow> \<not> length bp - i < 5 \<Longrightarrow>
     end_header_line xr bp i cp = (j, cp') \<Longrightarrow>
     ARTparseheader_loop xr bp i cp =
       (if at bp i end_of_line_dot
        then (if i = Start cp
              then (ARTerror cp ''Empty headers and body'')\<lparr>State := CSnoarticle, Next := i + 5\<rparr>
              else (ARTerror cp ''No body'')\<lparr>State := CSgotarticle, Next := i + 5\<rparr>)
        else if bp ! (i + 1) = LF then
          (if bp ! j = CR \<and> bp ! (j + 1) = LF
           then ARTparsebody bp (cp'\<lparr>Next := j + 2, Body := j + 2, State := CSgetbody\<rparr>)
           else ARTparseheader_loop xr bp (j + 1) cp')
        else ARTparseheader_loop xr bp (i + 1) (cp\<lparr>CRwithoutLF := CRwithoutLF cp + 1\<rparr>))"
  by (subst ARTparseheader_loop.simps) (simp del: at_Cons add: Let_def)

lemma framed_stop:
  assumes "receiving cp" "Start cp = s" "s \<le> n" "n \<le> length bp" "State cp = CSgetheader \<longrightarrow> Body cp = s"
    and "passed (bp @ rest) s (Body cp) n" "offsets_ok (bp @ rest) s (Body cp) n"
    and "length bp \<le> n \<or> bp ! n = CR \<and> length bp - n < 5 \<and>
       \<not> starts_with_dot bp (Body cp) n"
  shows "framed bp rest s (cp\<lparr>Next := n\<rparr>)"
  using assms passed_stop [OF assms(6-8)] by (simp add: framed_def receiving_def)

lemma body_loop_framed:
  assumes "Start cp = s" "s \<le> i" "i \<le> length bp" "State cp \<in> {CSgetbody, CSeatarticle}"
    and "passed (bp @ rest) s (Body cp) i" "offsets_ok (bp @ rest) s (Body cp) i"
  shows "framed bp rest s (ARTparsebody_loop bp i cp)"
  using assms
proof (induction bp i cp rule: ARTparsebody_loop.induct)
  case (1 bp i cp)
  let ?B = "bp @ rest"
  note st = "1.prems"(4) and pass = "1.prems"(5) and off = "1.prems"(6)
  have recv: "receiving cp" "State cp \<noteq> CSgetheader" using st by (auto simp: receiving_def)
  consider (stop) "length bp \<le> i" | (other) "i < length bp" "bp ! i \<noteq> CR"
    | (cr) "i < length bp" "bp ! i = CR" by linarith
  then show ?case
  proof cases
    case stop
    then have "framed bp rest s (cp\<lparr>Next := i\<rparr>)"
      using "1.prems" recv by (intro framed_stop) auto
    then show ?thesis using stop by (simp add: parsebody_stop parseheader_stop)
  next
    case other
    have "passed ?B s (Body cp) (i + 1)"
      using other pass off by (intro passed_other) (auto simp: nth_append)
    then have "framed bp rest s (ARTparsebody_loop bp (i + 1) (note_octet ''Nul character in body'' (bp ! i) cp))"
      using other "1.prems" by (intro "1.IH"(1)) (auto simp: offsets_ok_def)
    then show ?thesis using other by (simp add: parsebody_other parseheader_other)
  next
    case cr
    consider (dot) "starts_with_dot bp (Body cp) i"
      | (wait) "\<not> starts_with_dot bp (Body cp) i" "length bp - i < 5"
      | (more) "\<not> starts_with_dot bp (Body cp) i" "\<not> length bp - i < 5" by blast
    then show ?thesis
    proof cases
      case dot
      then have "first_at (ends_at bp s) 0 (i + 2)"
        using first_end_dot [of ?B s "Body cp" bp rest] pass off by (auto simp: numeral_3_eq_3 starts_with_dot_def)
      then show ?thesis using parsebody_dot [OF cr dot] "1.prems"(1) by (simp add: framed_def)
    next
      case wait
      then have "framed bp rest s (cp\<lparr>Next := i\<rparr>)"
        using "1.prems" recv cr by (intro framed_stop) auto
      then show ?thesis using parsebody_wait [OF cr wait] by simp
    next
      case more
      have cl: "clean ?B s i"
        using more cr by (intro passed_clean [OF pass off]) (auto simp: nth_append starts_with_dot_def)
      note step = parsebody_CR [OF cr more]
      have len: "i + 4 < length bp" using more by simp
      show ?thesis
      proof (cases "at bp i end_of_line_dot")
        case True
        then show ?thesis
          using first_end_line [OF cl refl True "1.prems"(2)] "1.prems"(1) step by (simp add: framed_def del: at_Cons)
      next
        case False
        then have no: "\<not> at ?B i end_of_line_dot" using more by (simp add: at_append del: at_Cons)
        have p: "passed ?B s (Body cp) (i + 1)" by (rule clean_passed [OF cl no]) auto
        have p2: "passed ?B s (Body cp) (i + 2)" if "bp ! (i + 1) = LF"
          using len that by (intro clean_passed [OF cl no]) (auto simp: nth_append less_Suc_eq)
        show ?thesis
        proof (cases "bp ! (i + 1) = LF")
          case True
          show ?thesis unfolding step using "1.IH"(2) "1.prems" p2 True False more cr
            by (auto simp: Let_def offsets_ok_def simp del: at_Cons)
        next
          case nl: False
          have "framed bp rest s (ARTparsebody_loop bp (i + 1) (cp\<lparr>CRwithoutLF := CRwithoutLF cp + 1\<rparr>))"
            using "1.prems" p nl False more cr
            by (intro "1.IH"(3)) (auto simp: offsets_ok_def simp del: at_Cons)
          then show ?thesis using step nl False by (simp del: at_Cons)
        qed
      qed
    qed
  qed
qed

lemma ARTcheckheader_sel [simp]:
  "Start (ARTcheckheader xr bp cp sz) = Start cp" "Next (ARTcheckheader xr bp cp sz) = Next cp"
  "State (ARTcheckheader xr bp cp sz) = State cp" "Body (ARTcheckheader xr bp cp sz) = Body cp"
  "CurHeader (ARTcheckheader xr bp cp sz) = CurHeader cp"
  by (simp_all add: ARTcheckheader_def Let_def split: option.splits prod.splits)

lemma end_header_line_sel:
  assumes "end_header_line xr bp i cp = (j, cp')"
  shows "Start cp' = Start cp" "State cp' = State cp" "Body cp' = Body cp"
    "j = (if i = Start cp then i else i + 2)"
  using assms by (auto simp: end_header_line_def Let_def split: if_splits)

lemma header_loop_framed:
  assumes "Start cp = s" "s \<le> i" "i \<le> length bp" "State cp = CSgetheader" "Body cp = s"
    and "passed (bp @ rest) s s i"
  shows "framed bp rest s (ARTparseheader_loop xr bp i cp)"
  using assms
proof (induction xr bp i cp rule: ARTparseheader_loop.induct)
  case (1 xr bp i cp)
  let ?B = "bp @ rest"
  note pass = "1.prems"(6)
  have off: "offsets_ok ?B s s i" using "1.prems" by (simp add: offsets_ok_def)
  have recv: "receiving cp" using "1.prems"(4) by (simp add: receiving_def)
  consider (stop) "length bp \<le> i" | (other) "i < length bp" "bp ! i \<noteq> CR"
    | (cr) "i < length bp" "bp ! i = CR" by linarith
  then show ?case
  proof cases
    case stop
    then have "framed bp rest s (cp\<lparr>Next := i\<rparr>)"
      using "1.prems" recv off by (intro framed_stop) auto
    then show ?thesis using stop by (simp add: parsebody_stop parseheader_stop)
  next
    case other
    have "passed ?B s s (i + 1)"
      using other pass off by (intro passed_other) (auto simp: nth_append)
    then have "framed bp rest s (ARTparseheader_loop xr bp (i + 1) (note_octet ''Nul character in header'' (bp ! i) cp))"
      using other "1.prems" by (intro "1.IH"(1)) auto
    then show ?thesis using other by (simp add: parsebody_other parseheader_other)
  next
    case cr
    consider (dot) "starts_with_dot bp (Start cp) i"
      | (wait) "\<not> starts_with_dot bp (Start cp) i" "length bp - i < 5"
      | (more) "\<not> starts_with_dot bp (Start cp) i" "\<not> length bp - i < 5" by blast
    then show ?thesis
    proof cases
      case dot
      then have "first_at (ends_at bp s) 0 (i + 2)"
        using first_end_dot [of ?B s s bp rest] pass off "1.prems"(1)
        by (auto simp: numeral_3_eq_3 starts_with_dot_def)
      then show ?thesis using parseheader_dot [OF cr dot] "1.prems"(1) dot
        by (simp add: framed_def receiving_def starts_with_dot_def)
    next
      case wait
      then have "framed bp rest s (cp\<lparr>Next := i\<rparr>)"
        using "1.prems" recv cr off by (intro framed_stop) auto
      then show ?thesis using parseheader_wait [OF cr wait] by simp
    next
      case more
      have cl: "clean ?B s i"
        using more cr "1.prems"(1) by (intro passed_clean [OF pass off]) (auto simp: nth_append starts_with_dot_def)
      obtain j cp' where hl: "end_header_line xr bp i cp = (j, cp')" by fastforce
      note step = parseheader_CR [OF cr more hl]
      show ?thesis
      proof (cases "at bp i end_of_line_dot")
        case True
        then show ?thesis using first_end_line [OF cl refl True "1.prems"(2)] "1.prems"(1) step
          by (auto simp: framed_def receiving_def simp del: at_Cons)
      next
        case False
        then have no: "\<not> at ?B i end_of_line_dot" using more by (simp add: at_append del: at_Cons)
        note sel = end_header_line_sel [OF hl]
        have j: "i \<le> j" "j \<le> i + 2" "j + 2 < length bp" "j = i \<or> j = i + 2"
          using sel(4) more by (auto split: if_splits)
        consider (body) "bp ! (i + 1) = LF" "bp ! j = CR" "bp ! (j + 1) = LF"
          | (line) "bp ! (i + 1) = LF" "\<not> (bp ! j = CR \<and> bp ! (j + 1) = LF)"
          | (lone) "bp ! (i + 1) \<noteq> LF" by blast
        then show ?thesis
        proof cases
          case body
          have "passed ?B s (j + 2) (j + 2)"
            using j body more by (intro clean_passed [OF cl no]) (auto simp: nth_append less_Suc_eq)
          then have "framed bp rest s (ARTparsebody_loop bp (j + 2) (cp'\<lparr>Next := j + 2, Body := j + 2, State := CSgetbody\<rparr>))"
            using j body more sel "1.prems" by (intro body_loop_framed) (auto simp: offsets_ok_def nth_append)
          then show ?thesis using step body False by (simp add: ARTparsebody_def del: at_Cons)
        next
          case line
          have "passed ?B s s (j + 1)"
            using j line more cr by (intro clean_passed [OF cl no]) (auto simp: nth_append less_Suc_eq)
          then have "framed bp rest s (ARTparseheader_loop xr bp (j + 1) cp')"
            using j line more cr sel "1.prems" False hl
            by (intro "1.IH"(2) [OF _ refl]) (auto simp: Let_def simp del: at_Cons)
          then show ?thesis using step line False by (auto simp del: at_Cons)
        next
          case lone
          have "passed ?B s s (i + 1)" by (rule clean_passed [OF cl no]) auto
          then have "framed bp rest s (ARTparseheader_loop xr bp (i + 1) (cp\<lparr>CRwithoutLF := CRwithoutLF cp + 1\<rparr>))"
            using "1.prems" lone False more cr
            by (intro "1.IH"(3)) (auto simp: Let_def simp del: at_Cons)
          then show ?thesis using step lone False by (simp del: at_Cons)
        qed
      qed
    qed
  qed
qed

section \<open>The steps of the channel\<close>

text \<open>
  What happens to a channel while it receives an article: more data arrive, \<open>ARTparse\<close> is called,
  the data are moved to the front of the buffer. The configuration is the buffer, the channel and
  the history.
\<close>

inductive nc_step ::
  "bool \<Rightarrow> nat \<Rightarrow> octets \<times> channel \<times> ('s, 'l) history \<Rightarrow> octets \<times> channel \<times> ('s, 'l) history \<Rightarrow> bool"
  for xrefslave maxartsize where
  nc_read: "receiving cp \<Longrightarrow> nc_step xrefslave maxartsize (bp, cp, h) (bp @ d, cp, h)"
| nc_parse: "receiving cp \<Longrightarrow> ARTparse xrefslave maxartsize now bp (cp, h) = Some (cp', h') \<Longrightarrow>
    nc_step xrefslave maxartsize (bp, cp, h) (bp, cp', h')"
| nc_move: "receiving cp \<Longrightarrow> nc_step xrefslave maxartsize (bp, cp, h) (fst (move_data bp cp), snd (move_data bp cp), h)"

inductive_cases nc_stepE: "nc_step xrefslave maxartsize (bp, cp, h) c"

text \<open>\<open>NCihave\<close> and \<open>NCsendit\<close>: the article begins behind the command, which has been read.\<close>

definition begin_article :: "octets \<Rightarrow> channel \<Rightarrow> channel \<Rightarrow> bool" where
  "begin_article bp cp0 cp \<longleftrightarrow> Start cp0 = Next cp0 \<and> Next cp0 \<le> length bp \<and>
     cp = ARTprepare (cp0\<lparr>State := CSgetheader\<rparr>)"

definition framing :: "octets \<Rightarrow> channel \<Rightarrow> bool" where
  "framing bp cp \<longleftrightarrow> (receiving cp \<longrightarrow> Start cp \<le> Next cp \<and> Next cp \<le> length bp \<and>
     (State cp = CSgetheader \<longrightarrow> Body cp = Start cp) \<and> Start cp \<le> Body cp \<and>
     (\<forall>rest. offsets_ok (bp @ rest) (Start cp) (Body cp) (Next cp) \<and>
             passed (bp @ rest) (Start cp) (Body cp) (Next cp)))"

lemma framing_start: "begin_article bp cp0 cp \<Longrightarrow> framing bp cp"
  by (auto simp: begin_article_def framing_def ARTprepare_def offsets_ok_def passed_def)

lemma framing_parse_data:
  assumes "framing bp cp" "receiving cp"
  shows "framed bp rest (Start cp) (ARTparse_data xr bp cp)"
proof (cases "State cp = CSgetheader")
  case True
  then show ?thesis using assms
    by (auto simp: ARTparse_data_def ARTparseheader_def framing_def intro!: header_loop_framed)
next
  case False
  then have "State cp \<in> {CSgetbody, CSeatarticle}" using assms(2) by (auto simp: receiving_def)
  then show ?thesis using assms False
    by (auto simp: ARTparse_data_def ARTparsebody_def framing_def intro!: body_loop_framed)
qed

lemma checksize_state_sel [simp]:
  "Start (checksize_state m cp) = Start cp" "Next (checksize_state m cp) = Next cp"
  "Body (checksize_state m cp) = Body cp"
  by (simp_all add: checksize_state_def Let_def)

lemma checksize_state_receiving:
  assumes "receiving cp \<or> State cp \<in> {CSgotarticle, CSgotlargearticle} \<or> m = 0 \<or> Next cp - Start cp \<le> m"
  shows "receiving (checksize_state m cp) = receiving cp"
  using assms by (auto simp: checksize_state_def receiving_def Let_def)

lemma checksize_state_header:
  "State (checksize_state m cp) = CSgetheader \<Longrightarrow> State cp = CSgetheader"
  by (auto simp: checksize_state_def Let_def split: if_splits)

lemma ARTchecksize_same:
  assumes "ARTchecksize m now bp (cp, h) = Some (cp', h')"
  shows "Start cp' = Start cp" "Next cp' = Next cp" "Body cp' = Body cp"
    "State cp' = State (checksize_state m cp)"
  using assms
  by (auto simp: ARTchecksize_def HDR_LASTCHAR_SAVE_def Let_def split: if_splits option.splits bind_splits)

lemma at_drop: "at (drop n B) k x = at B (n + k) x"
  by (simp add: at_def substr_def add.commute)

lemma passed_drop:
  assumes "s \<le> body" "s \<le> i" "passed B s body i"
  shows "passed (drop s B) 0 (body - s) (i - s)"
  unfolding passed_def at_drop
proof (intro conjI allI impI)
  fix j assume j: "0 \<le> j \<and> j < i - s \<and> at B (s + j) end_of_line_dot"
  then have "s \<le> s + j \<and> s + j < i \<and> at B (s + j) end_of_line_dot" by (auto simp del: at_Cons)
  from assms(3) [unfolded passed_def, THEN conjunct1, rule_format, OF this]
  have "s + j + 2 = body \<and> i \<le> body + 1" .
  then show "j + 2 = body - s" "i - s \<le> body - s + 1" using assms(1,2) by auto
next
  assume "at B (s + 0) dot_line"
  then show "i - s \<le> 0 + 1" using assms(3) unfolding passed_def by fastforce
qed

lemma offsets_ok_drop:
  "s \<le> i \<Longrightarrow> offsets_ok B s body i \<Longrightarrow> offsets_ok (drop s B) 0 (body - s) (i - s)"
  by (auto simp: offsets_ok_def at_drop add.commute simp del: at_Cons)

lemma framing_move:
  assumes "framing bp cp" "receiving cp"
  shows "framing (fst (move_data bp cp)) (snd (move_data bp cp))"
proof -
  have "offsets_ok (drop (Start cp) bp @ rest) 0 (Body cp - Start cp) (Next cp - Start cp) \<and>
      passed (drop (Start cp) bp @ rest) 0 (Body cp - Start cp) (Next cp - Start cp)" for rest
    using assms passed_drop [of "Start cp" "Body cp" "Next cp" "bp @ rest"]
      offsets_ok_drop [of "Start cp" "Next cp" "bp @ rest" "Body cp"]
    by (simp add: framing_def)
  then show ?thesis using assms by (auto simp: move_data_def framing_def Let_def receiving_def)
qed

lemma ARTparse_framed:
  assumes "framing bp cp" "receiving cp" "m = 0 \<or> 5 \<le> m" "ARTparse xr m now bp (cp, h) = Some (cp', h')"
  shows "framing bp cp' \<and> Start cp' = Start cp \<and>
    (if receiving cp' then \<forall>e. \<not> ends_at bp (Start cp) e
     else first_at (ends_at bp (Start cp)) 0 (Next cp'))"
proof -
  let ?c = "ARTparse_data xr bp cp"
  have fr: "framed bp rest (Start cp) ?c" for rest by (rule framing_parse_data [OF assms(1,2)])
  have ck: "Start cp' = Start ?c" "Next cp' = Next ?c" "Body cp' = Body ?c" "State cp' = State (checksize_state m ?c)"
    using ARTchecksize_same assms(4) unfolding ARTparse_def by (metis fst_conv snd_conv)+
  have recv: "receiving cp' = receiving ?c"
  proof -
    have "receiving ?c \<or> State ?c \<in> {CSgotarticle, CSgotlargearticle} \<or> m = 0 \<or> Next ?c - Start ?c \<le> m"
      using fr assms(3) by (cases "receiving ?c") (force simp: framed_def)+
    from checksize_state_receiving [OF this] show ?thesis using ck(4) by (simp add: receiving_def)
  qed
  have "State ?c = CSgetheader" if "State cp' = CSgetheader"
    using checksize_state_header that ck(4) by metis
  moreover have "Start cp \<le> Body ?c" if "receiving ?c"
    using fr [of "[]"] that by (auto simp: framed_def offsets_ok_def)
  ultimately show ?thesis using fr recv ck by (auto simp: framing_def framed_def)
qed

lemma nc_steps_framing:
  assumes "(nc_step xr m)\<^sup>*\<^sup>* (bp0, cp1, h0) c" "framing bp0 cp1" "m = 0 \<or> 5 \<le> m"
  shows "framing (fst c) (fst (snd c))"
  using assms
proof (induction rule: rtranclp_induct)
  case (step c d)
  from step.hyps(2) show ?case
  proof cases
    case (nc_read cp bp h x)
    then have f: "framing bp cp" using step by simp
    have "framing (bp @ x) cp"
      using f unfolding framing_def by (metis append_assoc length_append trans_le_add1)
    then show ?thesis using nc_read by simp
  next
    case (nc_parse cp now bp h cp' h')
    then show ?thesis using step ARTparse_framed [of bp cp m xr now h cp' h'] by simp
  next
    case (nc_move cp bp h)
    then show ?thesis using step framing_move by simp
  qed
qed simp

text \<open>
  C2: the framing of articles. From the start of an article on, in whatever batches its data arrive,
  whenever they are parsed and moved, and whatever the limit of the size, a call of \<open>ARTparse\<close>
  leaves the channel receiving just when the data received so far hold no end of an article; and
  otherwise it sets \<open>Next\<close> behind the first end, so that the next command is read from there. An
  end is the sequence CRLF, dot, CRLF, or a dot line that starts the article. (A limit below five
  octets, which no site has, could make the server read on after an empty article.)
\<close>

theorem article_framing:
  assumes "begin_article bp0 cp0 cp1" and "maxartsize = 0 \<or> 5 \<le> maxartsize"
    and "(nc_step xrefslave maxartsize)\<^sup>*\<^sup>* (bp0, cp1, h0) (bp, cp, h)" and "receiving cp"
    and "ARTparse xrefslave maxartsize now bp (cp, h) = Some (cp', h')"
  shows "if receiving cp' then \<forall>e. \<not> ends_at bp (Start cp) e
         else first_at (ends_at bp (Start cp)) 0 (Next cp')"
  using ARTparse_framed [OF _ assms(4,2,5)] nc_steps_framing [OF assms(3) framing_start [OF assms(1)] assms(2)]
  by simp

text \<open>An article in two batches, cut inside the end of its last line; a command follows it.\<close>

definition example_in1 :: octets where
  "example_in1 = [CR, LF, CHR ''h'', CHR ''i'', CR]"

definition example_in2 :: octets where
  "example_in2 = [LF, CHR ''.'', CR, LF, CHR ''Q'', CHR ''U'', CHR ''I'', CHR ''T'']"

definition example_channel :: channel where
  "example_channel = \<lparr>Sendid_size = 0, Start = 0, Next = 0, State = CSgetcmd, Error = [], Body = 0, CurHeader = 0,
     BytesHeader = None, HdrContent = [], Lines = 0, HeaderLines = 0, CRwithoutLF = 0, LFwithoutCR = 0,
     DotStuffedLines = 0\<rparr>"

definition example_begun :: channel where
  "example_begun = ARTprepare (example_channel\<lparr>State := CSgetheader\<rparr>)"

lemma example_begun_sel:
  "Start example_begun = 0" "Next example_begun = 0" "State example_begun = CSgetheader"
  "Body example_begun = 0"
  by (simp_all add: example_begun_def example_channel_def ARTprepare_def)

lemma example_body1: "Body cp = 2 \<Longrightarrow> ARTparsebody_loop example_in1 2 cp = cp\<lparr>Next := 4\<rparr>"
  by (simp add: parsebody_other parsebody_wait example_in1_def note_octet_def starts_with_dot_def)

lemma example_header1:
  "ARTparseheader_loop False example_in1 0 example_begun =
     (ARTerror example_begun ''No headers'')\<lparr>State := CSgetbody, Next := 4, Body := 2\<rparr>"
proof -
  have hl: "end_header_line False example_in1 0 example_begun = (0, ARTerror example_begun ''No headers'')"
    by (simp add: end_header_line_def example_begun_sel)
  have "ARTparseheader_loop False example_in1 0 example_begun =
     ARTparsebody example_in1 ((ARTerror example_begun ''No headers'')\<lparr>Next := 2, Body := 2, State := CSgetbody\<rparr>)"
    by (subst parseheader_CR [OF _ _ _ _ hl]) (simp_all add: example_in1_def starts_with_dot_def numeral_2_eq_2)
  then show ?thesis by (simp add: ARTparsebody_def example_body1)
qed

lemma example_parse1:
  "ARTparse False 0 0 example_in1 (example_begun, h) =
    Some ((ARTerror example_begun ''No headers'')\<lparr>State := CSgetbody, Next := 4, Body := 2\<rparr>, h)"
  by (simp add: ARTparse_def ARTparse_data_def ARTparseheader_def example_begun_sel example_header1
    ARTchecksize_def checksize_state_def)

lemma example_body2:
  "Body cp = 2 \<Longrightarrow> State cp = CSgetbody \<Longrightarrow> ARTparsebody_loop (example_in1 @ example_in2) 4 cp =
     cp\<lparr>State := CSgotarticle, Next := 9, Lines := Lines cp + 1\<rparr>"
  by (subst parsebody_CR) (simp_all add: example_in1_def example_in2_def starts_with_dot_def got_article_def)

lemma example_parse2:
  "ARTparse False 0 0 (example_in1 @ example_in2)
     ((ARTerror example_begun ''No headers'')\<lparr>State := CSgetbody, Next := 4, Body := 2\<rparr>, h) =
   Some ((ARTerror example_begun ''No headers'')
           \<lparr>State := CSgotarticle, Next := 9, Body := 2, Lines := Lines example_begun + 1\<rparr>, h)"
  by (simp add: ARTparse_def ARTparse_data_def ARTparsebody_def example_begun_sel example_body2
    ARTchecksize_def checksize_state_def ARTerror_def)

theorem article_framing_witness:
  "first_at (ends_at (example_in1 @ example_in2) 0) 0 9"
proof -
  let ?h = "\<lparr>methods = \<lparr>m_sync = \<lambda>s. (True, s), m_lookup = \<lambda>s k. Some (None, s), m_check = \<lambda>s k. Some (False, s),
      m_write = \<lambda>s k a p e t. Some (True, s), m_remember = \<lambda>s k a p. Some (True, s),
      m_replace = \<lambda>s k a p e t. Some (True, s)\<rparr>, sub = (), cache = None, cachesize = 0, stats = nullhist\<rparr>
    :: (unit, unit) history"
  let ?c = "(ARTerror example_begun ''No headers'')\<lparr>State := CSgetbody, Next := 4, Body := 2\<rparr>"
  have b: "begin_article example_in1 example_channel example_begun"
    by (simp add: begin_article_def example_begun_def example_channel_def)
  have "nc_step False 0 (example_in1, example_begun, ?h) (example_in1, ?c, ?h)"
    by (rule nc_parse [OF _ example_parse1]) (simp add: receiving_def example_begun_sel)
  moreover have "nc_step False 0 (example_in1, ?c, ?h) (example_in1 @ example_in2, ?c, ?h)"
    by (rule nc_read) (simp add: receiving_def)
  ultimately have "(nc_step False 0)\<^sup>*\<^sup>* (example_in1, example_begun, ?h) (example_in1 @ example_in2, ?c, ?h)"
    by (rule rtranclp.rtrancl_into_rtrancl [OF r_into_rtranclp])
  then show ?thesis
    using article_framing [OF b _ _ _ example_parse2] by (simp add: receiving_def example_begun_sel)
qed

end
