(* ===== verification/Artparse_Batches.thy ===== *)
theory Artparse_Batches
  imports Artparse
begin

text \<open>
  The parser of \<open>innd/art.c\<close> (theory \<open>Artparse\<close>) called on one batch of data after the other, as the
  network delivers them, compared with one parse of all the data.
\<close>

section \<open>Octets that are not read\<close>

text \<open>What the parser has done does not depend on the octets behind the ones it has used.\<close>

lemma substr_append: "i + n \<le> length bp \<Longrightarrow> substr (bp @ rest) i n = substr bp i n"
  by (simp add: substr_def)

lemma memchr_append: "i + n \<le> length bp \<Longrightarrow> memchr (bp @ rest) i n c = memchr bp i n c"
  unfolding memchr_def by (rule find_cong) (auto simp: nth_append)

lemma skip_white_append: "p + n \<le> length bp \<Longrightarrow> skip_white (bp @ rest) p n = skip_white bp p n"
  by (induction n arbitrary: p) (auto simp: nth_append)

lemma skip_white_le: "skip_white bp p n \<le> p + n"
proof (induction n arbitrary: p)
  case (Suc n)
  show ?case using Suc.IH [of "p + 1"] by simp
qed simp

lemma trim_white_append: "v + n \<le> length bp \<Longrightarrow> trim_white (bp @ rest) v n = trim_white bp v n"
  by (induction n) (auto simp: nth_append)

lemma field_value_append:
  assumes "header + sz \<le> length bp" "colon + 3 \<le> header + sz"
  shows "field_value (bp @ rest) xr i header sz colon = field_value bp xr i header sz colon"
proof -
  have "skip_white bp (colon + 1) (header + sz - 2 - (colon + 1)) \<le> header + sz - 2"
    using assms skip_white_le [of bp "colon + 1" "header + sz - 2 - (colon + 1)"] by simp
  then show ?thesis using assms
    by (simp add: field_value_def skip_white_append trim_white_append Let_def)
qed

lemma ARTcheckheader_append:
  assumes "CurHeader cp + sz < length bp" "2 \<le> sz" "bp ! (CurHeader cp + sz - 2) = CR" "bp ! (CurHeader cp + sz - 1) = LF"
  shows "ARTcheckheader xr (bp @ rest) cp sz = ARTcheckheader xr bp cp sz"
proof -
  let ?h = "CurHeader cp"
  have mem: "memchr (bp @ rest) ?h sz c = memchr bp ?h sz c" for c
    using assms(1) by (simp add: memchr_append)
  obtain p where p: "memchr bp ?h sz CR = Some p" "p < ?h + sz"
    using assms(2,3) by (cases "memchr bp ?h sz CR") (auto simp: memchr_None memchr_Some)
  show ?thesis
  proof (cases "memchr bp ?h sz CHR '':''")
    case None
    then show ?thesis using assms(1) p
      by (simp add: ARTcheckheader_def mem substr_append Let_def)
  next
    case (Some colon)
    then have c: "?h \<le> colon" "colon < ?h + sz" "bp ! colon = CHR '':''" by (auto simp: memchr_Some)
    then have "colon \<noteq> ?h + sz - 1" "colon \<noteq> ?h + sz - 2" using assms(3,4) by auto
    then have c3: "colon + 3 \<le> ?h + sz" using c(2) by arith
    have "find (\<lambda>p. ISWHITE ((bp @ rest) ! p)) (rev [?h + 1..<colon]) = find (\<lambda>p. ISWHITE (bp ! p)) (rev [?h + 1..<colon])"
      using c assms(1) by (intro find_cong) (auto simp: nth_append)
    moreover have "q < colon" if "find (\<lambda>p. ISWHITE (bp ! p)) (rev [?h + 1..<colon]) = Some q" for q
      using that by (auto simp: find_Some_iff rev_nth)
    ultimately show ?thesis using Some c c3 assms(1) p
      by (auto simp: ARTcheckheader_def mem substr_append nth_append field_value_append Let_def
          split: option.split)
  qed
qed

text \<open>The member \<open>Next\<close> is not read by the loops.\<close>

lemma Next_last:
  "cp\<lparr>Next := n, Lines := l\<rparr> = cp\<lparr>Lines := l, Next := n\<rparr>"
  "cp\<lparr>Next := n, HeaderLines := l\<rparr> = cp\<lparr>HeaderLines := l, Next := n\<rparr>"
  "cp\<lparr>Next := n, DotStuffedLines := l\<rparr> = cp\<lparr>DotStuffedLines := l, Next := n\<rparr>"
  "cp\<lparr>Next := n, CRwithoutLF := l\<rparr> = cp\<lparr>CRwithoutLF := l, Next := n\<rparr>"
  "cp\<lparr>Next := n, LFwithoutCR := l\<rparr> = cp\<lparr>LFwithoutCR := l, Next := n\<rparr>"
  "cp\<lparr>Next := n, CurHeader := c\<rparr> = cp\<lparr>CurHeader := c, Next := n\<rparr>"
  "cp\<lparr>Next := n, State := c'\<rparr> = cp\<lparr>State := c', Next := n\<rparr>"
  by simp_all

lemma ARTerror_Next [simp]: "ARTerror (cp\<lparr>Next := n\<rparr>) msg = (ARTerror cp msg)\<lparr>Next := n\<rparr>"
  by (simp add: ARTerror_def reject_code_def)

lemma note_octet_Next [simp]: "note_octet msg c (cp\<lparr>Next := n\<rparr>) = (note_octet msg c cp)\<lparr>Next := n\<rparr>"
  by (simp add: note_octet_def Let_def)

lemma got_article_Next [simp]: "(got_article (cp\<lparr>Next := n\<rparr>))\<lparr>Next := m\<rparr> = (got_article cp)\<lparr>Next := m\<rparr>"
  by (simp add: got_article_def)

lemma ARTcheckheader_Next [simp]: "ARTcheckheader xr bp (cp\<lparr>Next := n\<rparr>) sz = (ARTcheckheader xr bp cp sz)\<lparr>Next := n\<rparr>"
  by (simp add: ARTcheckheader_def Let_def split: option.split prod.split)

lemma end_header_line_Next:
  "end_header_line xr bp i cp = (j, cp') \<Longrightarrow> end_header_line xr bp i (cp\<lparr>Next := n\<rparr>) = (j, cp'\<lparr>Next := n\<rparr>)"
  by (auto simp: end_header_line_def Let_def Next_last split: if_splits)

lemma end_body_line_Next [simp]:
  "end_body_line bp i (cp\<lparr>Next := n\<rparr>) = (end_body_line bp i cp)\<lparr>Next := n\<rparr>"
  by (simp add: end_body_line_def Let_def Next_last)

lemma parsebody_Next: "ARTparsebody_loop bp i (cp\<lparr>Next := n\<rparr>) = ARTparsebody_loop bp i cp"
proof (induction bp i cp rule: ARTparsebody_loop.induct)
  case (1 bp i cp)
  consider (stop) "length bp \<le> i" | (other) "i < length bp" "bp ! i \<noteq> CR"
    | (dot) "i < length bp" "bp ! i = CR" "starts_with_dot bp (Body cp) i"
    | (wait) "i < length bp" "bp ! i = CR" "\<not> starts_with_dot bp (Body cp) i" "length bp - i < 5"
    | (more) "i < length bp" "bp ! i = CR" "\<not> starts_with_dot bp (Body cp) i" "\<not> length bp - i < 5"
    by linarith
  then show ?case
  proof cases
    case more
    then show ?thesis using "1.IH"(2,3)
      by (auto simp: parsebody_CR got_article_def Next_last simp del: at_Cons)
  qed (use "1.IH"(1) in \<open>simp_all add: parsebody_stop parsebody_other parsebody_dot parsebody_wait\<close>)
qed

lemma parseheader_Next: "ARTparseheader_loop xr bp i (cp\<lparr>Next := n\<rparr>) = ARTparseheader_loop xr bp i cp"
proof (induction xr bp i cp rule: ARTparseheader_loop.induct)
  case (1 xr bp i cp)
  consider (stop) "length bp \<le> i" | (other) "i < length bp" "bp ! i \<noteq> CR"
    | (dot) "i < length bp" "bp ! i = CR" "starts_with_dot bp (Start cp) i"
    | (wait) "i < length bp" "bp ! i = CR" "\<not> starts_with_dot bp (Start cp) i" "length bp - i < 5"
    | (more) "i < length bp" "bp ! i = CR" "\<not> starts_with_dot bp (Start cp) i" "\<not> length bp - i < 5"
    by linarith
  then show ?case
  proof cases
    case more
    obtain j cp' where hl: "end_header_line xr bp i cp = (j, cp')" by fastforce
    note hl2 = end_header_line_Next [OF hl, of n]
    have "ARTparseheader_loop xr bp i (cp\<lparr>Next := n\<rparr>) = ARTparseheader_loop xr bp i cp"
      if "at bp i end_of_line_dot \<or> bp ! (i + 1) \<noteq> LF"
      using "1.IH"(3) more that by (auto simp: parseheader_CR [OF _ _ _ _ hl] parseheader_CR [OF _ _ _ _ hl2] Next_last simp del: at_Cons)
    moreover have "ARTparseheader_loop xr bp i (cp\<lparr>Next := n\<rparr>) = ARTparseheader_loop xr bp i cp"
      if "\<not> at bp i end_of_line_dot" "bp ! (i + 1) = LF"
      using "1.IH"(2) more that hl
      by (auto simp: parseheader_CR [OF _ _ _ _ hl] parseheader_CR [OF _ _ _ _ hl2] Next_last simp del: at_Cons)
    ultimately show ?thesis by blast
  qed (use "1.IH"(1) in \<open>simp_all add: parseheader_stop parseheader_other parseheader_dot parseheader_wait Next_last\<close>)
qed

lemma starts_with_dot_append:
  "starts_with_dot bp b i \<Longrightarrow> starts_with_dot (bp @ rest) b i"
  "\<not> length bp - i < 5 \<Longrightarrow> starts_with_dot (bp @ rest) b i = starts_with_dot bp b i"
  by (auto simp: starts_with_dot_def at_append nth_append)

lemma end_body_line_append:
  "i + 2 < length bp \<Longrightarrow> end_body_line (bp @ rest) i cp = end_body_line bp i cp"
  by (simp add: end_body_line_def nth_append)

lemma end_header_line_append:
  assumes "i + 2 < length bp" "CurHeader cp \<le> i" "bp ! i = CR" "bp ! (i + 1) = LF"
  shows "end_header_line xr (bp @ rest) i cp = end_header_line xr bp i cp"
  using assms by (simp add: end_header_line_def ARTcheckheader_append nth_append Let_def)

section \<open>Batches\<close>

text \<open>A batch that leaves the article unfinished can as well be parsed later, with what follows it.\<close>

lemma parsebody_batch:
  assumes "i \<le> length bp" "State cp \<in> {CSgetbody, CSeatarticle}"
  defines "cp' \<equiv> ARTparsebody_loop bp i cp"
  shows "(if receiving cp' then ARTparsebody_loop (bp @ rest) (Next cp') cp' else cp')
      = ARTparsebody_loop (bp @ rest) i cp
    \<and> (receiving cp' \<longrightarrow> State cp' = State cp \<and> Next cp' \<le> length bp)"
  using assms(1,2) unfolding cp'_def
proof (induction bp i cp rule: ARTparsebody_loop.induct)
  case (1 bp i cp)
  have recv: "receiving (cp\<lparr>Next := i\<rparr>)" using "1.prems"(2) by (auto simp: receiving_def)
  consider (stop) "length bp \<le> i" | (other) "i < length bp" "bp ! i \<noteq> CR"
    | (dot) "i < length bp" "bp ! i = CR" "starts_with_dot bp (Body cp) i"
    | (wait) "i < length bp" "bp ! i = CR" "\<not> starts_with_dot bp (Body cp) i" "length bp - i < 5"
    | (more) "i < length bp" "bp ! i = CR" "\<not> starts_with_dot bp (Body cp) i" "\<not> length bp - i < 5"
    by linarith
  then show ?case
  proof cases
    case stop
    then show ?thesis using recv "1.prems" by (simp add: parsebody_stop parsebody_Next)
  next
    case other
    then show ?thesis using "1.IH"(1) [OF _ refl] "1.prems"
      by (simp add: parsebody_other nth_append cong: if_cong)
  next
    case dot
    then show ?thesis by (simp add: parsebody_dot starts_with_dot_append nth_append)
  next
    case wait
    then show ?thesis using recv "1.prems" by (simp add: parsebody_wait parsebody_Next)
  next
    case more
    then have B: "i < length (bp @ rest)" "(bp @ rest) ! i = CR" "\<not> starts_with_dot (bp @ rest) (Body cp) i"
      "\<not> length (bp @ rest) - i < 5" by (auto simp: nth_append starts_with_dot_append)
    show ?thesis using "1.IH"(2,3) [OF _ refl] "1.prems" more
      by (auto simp: parsebody_CR [OF more] parsebody_CR [OF B] at_append nth_append end_body_line_append
          simp del: at_Cons)
  qed
qed

lemma parseheader_batch:
  fixes xr :: bool
  assumes "i \<le> length bp" "State cp = CSgetheader" "CurHeader cp \<le> i"
  defines "cp' \<equiv> ARTparseheader_loop xr bp i cp"
  shows "(if State cp' = CSgetheader then ARTparseheader_loop xr (bp @ rest) (Next cp') cp'
          else if receiving cp' then ARTparsebody_loop (bp @ rest) (Next cp') cp' else cp')
      = ARTparseheader_loop xr (bp @ rest) i cp
    \<and> (receiving cp' \<longrightarrow> Next cp' \<le> length bp \<and> (State cp' = CSgetheader \<longrightarrow> CurHeader cp' \<le> Next cp'))"
  using assms(1-3) unfolding cp'_def
proof (induction xr bp i cp rule: ARTparseheader_loop.induct)
  case (1 xr bp i cp)
  have recv: "receiving (cp\<lparr>Next := i\<rparr>)" using "1.prems"(2) by (auto simp: receiving_def)
  consider (stop) "length bp \<le> i" | (other) "i < length bp" "bp ! i \<noteq> CR"
    | (dot) "i < length bp" "bp ! i = CR" "starts_with_dot bp (Start cp) i"
    | (wait) "i < length bp" "bp ! i = CR" "\<not> starts_with_dot bp (Start cp) i" "length bp - i < 5"
    | (more) "i < length bp" "bp ! i = CR" "\<not> starts_with_dot bp (Start cp) i" "\<not> length bp - i < 5"
    by linarith
  then show ?case
  proof cases
    case stop
    then show ?thesis using recv "1.prems" by (simp add: parseheader_stop parseheader_Next)
  next
    case other
    then show ?thesis using "1.IH"(1) [OF _ refl] "1.prems"
      by (simp add: parseheader_other nth_append cong: if_cong)
  next
    case dot
    then show ?thesis by (simp add: parseheader_dot starts_with_dot_append nth_append receiving_def)
  next
    case wait
    then show ?thesis using recv "1.prems" by (simp add: parseheader_wait parseheader_Next)
  next
    case more
    then have B: "i < length (bp @ rest)" "(bp @ rest) ! i = CR" "\<not> starts_with_dot (bp @ rest) (Start cp) i"
      "\<not> length (bp @ rest) - i < 5" by (auto simp: nth_append starts_with_dot_append)
    obtain j cp1 where hl: "end_header_line xr bp i cp = (j, cp1)" by fastforce
    obtain j2 cp2 where hl2: "end_header_line xr (bp @ rest) i cp = (j2, cp2)" by fastforce
    note sel = end_header_line_sel [OF hl]
    have j: "j + 2 < length bp" using sel(4) more by (auto split: if_splits)
    have cur: "CurHeader cp1 \<le> j"
      using hl "1.prems"(3) by (auto simp: end_header_line_def Let_def split: if_splits)
    note step = parseheader_CR [OF more hl] and step2 = parseheader_CR [OF B hl2]
    consider (dot) "at bp i end_of_line_dot" | (lone) "\<not> at bp i end_of_line_dot" "bp ! (i + 1) \<noteq> LF"
      | (line) "\<not> at bp i end_of_line_dot" "bp ! (i + 1) = LF" by blast
    then show ?thesis
    proof cases
      case dot
      then have "at (bp @ rest) i end_of_line_dot" using more by (simp add: at_append del: at_Cons)
      then have "ARTparseheader_loop xr (bp @ rest) i cp = ARTparseheader_loop xr bp i cp"
        unfolding step step2 using dot by (simp only: if_True)
      moreover have "\<not> receiving (ARTparseheader_loop xr bp i cp) \<and> State (ARTparseheader_loop xr bp i cp) \<noteq> CSgetheader"
        unfolding step using dot by (simp only: if_True) (simp add: receiving_def)
      ultimately show ?thesis by simp
    next
      case lone
      have "\<not> at (bp @ rest) i end_of_line_dot" "(bp @ rest) ! (i + 1) \<noteq> LF"
        using lone more by (auto simp: at_append nth_append simp del: at_Cons)
      with lone show ?thesis using "1.IH"(3) [OF _ refl] "1.prems" more
        by (simp add: step step2 del: at_Cons cong: if_cong)
    next
      case line
      have line2: "\<not> at (bp @ rest) i end_of_line_dot" "(bp @ rest) ! (i + 1) = LF"
        "(bp @ rest) ! j = bp ! j" "(bp @ rest) ! (j + 1) = bp ! (j + 1)"
        using line more j by (auto simp: at_append nth_append simp del: at_Cons)
      have eq: "j2 = j" "cp2 = cp1"
        using end_header_line_append [of i bp cp xr rest] more line hl hl2 "1.prems" by auto
      show ?thesis
      proof (cases "bp ! j = CR \<and> bp ! (j + 1) = LF")
        case body: True
        let ?c = "cp1\<lparr>Next := j + 2, Body := j + 2, State := CSgetbody\<rparr>"
        have "ARTparseheader_loop xr bp i cp = ARTparsebody_loop bp (j + 2) ?c"
          "ARTparseheader_loop xr (bp @ rest) i cp = ARTparsebody_loop (bp @ rest) (j + 2) ?c"
          using line line2 body by (simp_all add: step step2 eq ARTparsebody_def del: at_Cons)
        then show ?thesis using parsebody_batch [of "j + 2" bp ?c rest] j
          by (auto simp: receiving_def split: if_splits)
      next
        case more_header: False
        then have "ARTparseheader_loop xr bp i cp = ARTparseheader_loop xr bp (j + 1) cp1"
          "ARTparseheader_loop xr (bp @ rest) i cp = ARTparseheader_loop xr (bp @ rest) (j + 1) cp1"
          using line line2 by (auto simp: step step2 eq simp del: at_Cons)
        moreover have "j + 1 \<le> length bp" "State cp1 = CSgetheader" "CurHeader cp1 \<le> j + 1"
          using j cur sel "1.prems" by auto
        ultimately show ?thesis
          using "1.IH"(2) [OF _ refl, of j cp1] more line more_header hl
          by (simp del: at_Cons cong: if_cong)
      qed
    qed
  qed
qed

lemma ARTparse_data_batch:
  fixes xr :: bool
  assumes "receiving cp" "Next cp \<le> length bp" "State cp = CSgetheader \<longrightarrow> CurHeader cp \<le> Next cp"
  defines "cp' \<equiv> ARTparse_data xr bp cp"
  shows "(if receiving cp' then ARTparse_data xr (bp @ rest) cp' else cp') = ARTparse_data xr (bp @ rest) cp
    \<and> (receiving cp' \<longrightarrow> Next cp' \<le> length bp \<and> (State cp' = CSgetheader \<longrightarrow> CurHeader cp' \<le> Next cp'))"
proof (cases "State cp = CSgetheader")
  case True
  then show ?thesis using parseheader_batch [of "Next cp" bp cp xr rest] assms(2,3)
    by (auto simp: cp'_def ARTparse_data_def ARTparseheader_def ARTparsebody_def receiving_def split: if_splits)
next
  case False
  then have "State cp \<in> {CSgetbody, CSeatarticle}" using assms(1) by (auto simp: receiving_def)
  then show ?thesis using parsebody_batch [of "Next cp" bp cp rest] assms(2) False
    by (auto simp: cp'_def ARTparse_data_def ARTparsebody_def split: if_splits)
qed

text \<open>The parser called on one batch after the other, until the article is there.\<close>

fun parse_batches :: "bool \<Rightarrow> octets \<Rightarrow> channel \<Rightarrow> octets list \<Rightarrow> channel" where
  "parse_batches xr bp cp [] = cp"
| "parse_batches xr bp cp (d # ds) =
     (let cp' = ARTparse_data xr (bp @ d) cp in
      if receiving cp' then parse_batches xr (bp @ d) cp' ds else cp')"

lemma parse_batches_whole:
  assumes "ds \<noteq> []" "receiving cp" "Next cp \<le> length bp" "State cp = CSgetheader \<longrightarrow> CurHeader cp \<le> Next cp"
  shows "parse_batches xr bp cp ds = ARTparse_data xr (bp @ concat ds) cp"
  using assms
proof (induction ds arbitrary: bp cp)
  case (Cons d ds)
  let ?c = "ARTparse_data xr (bp @ d) cp"
  have b: "(if receiving ?c then ARTparse_data xr ((bp @ d) @ concat ds) ?c else ?c) = ARTparse_data xr ((bp @ d) @ concat ds) cp
    \<and> (receiving ?c \<longrightarrow> Next ?c \<le> length (bp @ d) \<and> (State ?c = CSgetheader \<longrightarrow> CurHeader ?c \<le> Next ?c))"
    using Cons.prems by (intro ARTparse_data_batch) auto
  show ?case
  proof (cases "receiving ?c \<and> ds \<noteq> []")
    case True
    then have "parse_batches xr (bp @ d) ?c ds = ARTparse_data xr ((bp @ d) @ concat ds) ?c"
      using b by (intro Cons.IH) auto
    then show ?thesis using True b by simp
  next
    case False
    then show ?thesis using b by (cases "ds = []") (auto simp: Let_def)
  qed
qed simp

text \<open>
  C15: the parse of an article does not depend on how the network cuts it into batches. Parsed batch
  by batch, with the parser's state kept from one call to the next, it leaves the channel as one
  parse of all the data would: the same state, offsets, header fields, counts and reply, in every
  member. (The limit of the size is not part of this: it is checked after each batch.)
\<close>

theorem parse_batches_independent:
  assumes "begin_article bp cp0 cp" and "ds \<noteq> []"
  shows "parse_batches xrefslave bp cp ds = ARTparse_data xrefslave (bp @ concat ds) cp"
  using assms
  by (intro parse_batches_whole) (auto simp: begin_article_def ARTprepare_def receiving_def)

theorem parse_batches_independent_witness:
  "parse_batches False [] example_begun [example_in1, example_in2] =
     ARTparse_data False (example_in1 @ example_in2) example_begun"
  using parse_batches_independent [of "[]" example_channel example_begun "[example_in1, example_in2]" False]
  by (simp add: begin_article_def example_begun_def example_channel_def)

end
