(* ===== verification/Artfields.thy ===== *)
theory Artfields
  imports Artparse_Batches
begin

text \<open>
  What the parser of \<open>innd/art.c\<close> (theory \<open>Artparse\<close>) makes of the text of a header: for an article
  made of fields, the table \<open>HdrContent\<close> that it hands on to \<open>ARTclean\<close> holds the values of the fields.
\<close>

section \<open>The text of an article\<close>

type_synonym field = "octets \<times> octets"

text \<open>
  A field is a name and a value. The value may be folded: a line end in it is a CRLF that white
  space follows. Neither has a NUL.
\<close>

definition name_ok :: "octets \<Rightarrow> bool" where
  "name_ok n \<longleftrightarrow> n \<noteq> [] \<and> list_all (\<lambda>c. c_isgraph c \<and> c \<noteq> CHR '':'') n"

function folds_ok :: "octets \<Rightarrow> bool" where
  "folds_ok [] = True"
| "folds_ok (c # cs) =
     (if c = CR then (case cs of d # w # r \<Rightarrow> d = LF \<and> ISWHITE w \<and> folds_ok r | _ \<Rightarrow> False)
      else c \<noteq> LF \<and> c \<noteq> NUL \<and> folds_ok cs)"
  by pat_completeness auto
termination by (relation "measure length") auto

fun fold_count :: "octets \<Rightarrow> int" where
  "fold_count [] = 0"
| "fold_count (c # cs) = (if c = CR then 1 + fold_count cs else fold_count cs)"

definition field_ok :: "field \<Rightarrow> bool" where
  "field_ok f \<longleftrightarrow> name_ok (fst f) \<and> folds_ok (snd f)"

definition field_text :: "field \<Rightarrow> octets" where
  "field_text f = fst f @ [CHR '':'', SP] @ snd f @ [CR, LF]"

section \<open>The loop over the lines of a field\<close>

lemma drop_nth:
  assumes "drop i bp = c # s"
  shows "i < length bp" "bp ! i = c" "drop (i + 1) bp = s"
proof -
  show "i < length bp" using assms by (metis drop_eq_Nil leI list.distinct(1))
  then show "bp ! i = c" "drop (i + 1) bp = s" using assms by (simp_all add: drop_eq_Cons)
qed

lemma drop_length: "drop i bp = s \<Longrightarrow> i \<le> length bp \<Longrightarrow> length bp - i = length s"
  by auto

lemma at_drop0: "at bp i x = at (drop i bp) 0 x"
  by (simp add: at_def substr_def)

definition plain_octet :: "char \<Rightarrow> bool" where
  "plain_octet c \<longleftrightarrow> c \<noteq> CR \<and> c \<noteq> LF \<and> c \<noteq> NUL"

lemma scan_plain:
  assumes "list_all plain_octet p" "drop i bp = p @ s"
  shows "ARTparseheader_loop xr bp i cp = ARTparseheader_loop xr bp (i + length p) cp"
  using assms
proof (induction p arbitrary: i)
  case (Cons c p)
  have d: "i < length bp" "bp ! i = c" "drop (i + 1) bp = p @ s"
    using drop_nth [of i bp c "p @ s"] Cons.prems(2) by auto
  have "ARTparseheader_loop xr bp i cp = ARTparseheader_loop xr bp (i + 1) cp"
    using d Cons.prems(1) by (simp add: parseheader_other note_octet_def plain_octet_def)
  then show ?case using Cons.IH [OF _ d(3)] Cons.prems(1) by simp
qed simp

text \<open>A CRLF inside the header: white space behind it goes on with the field.\<close>

lemma scan_fold:
  assumes "drop i bp = CR # LF # w # s" "ISWHITE w" "2 \<le> length s" "Start cp + 1 < i"
  shows "ARTparseheader_loop xr bp i cp = ARTparseheader_loop xr bp (i + 3) (cp\<lparr>HeaderLines := HeaderLines cp + 1\<rparr>)"
proof -
  have d: "i < length bp" "bp ! i = CR" "bp ! (i + 1) = LF" "bp ! (i + 2) = w"
    using drop_nth [OF assms(1)] drop_nth [of "i + 1" bp LF] drop_nth [of "i + 2" bp w] by auto
  moreover have "\<not> length bp - i < 5" using arg_cong [OF assms(1), of length] assms(3) by simp
  moreover have "\<not> at bp i end_of_line_dot" using d assms(2) by (auto simp: ISWHITE_def)
  moreover have "end_header_line xr bp i cp = (i + 2, cp\<lparr>HeaderLines := HeaderLines cp + 1\<rparr>)"
    using d assms(2,4) by (auto simp: end_header_line_def ISWHITE_def)
  ultimately show ?thesis using assms(2,4)
    by (auto simp: parseheader_CR starts_with_dot_def ISWHITE_def eval_nat_numeral simp del: at_Cons)
qed

lemma scan_value:
  assumes "folds_ok v" "drop i bp = v @ s" "2 \<le> length s" "Start cp + 1 < i"
  shows "ARTparseheader_loop xr bp i cp =
    ARTparseheader_loop xr bp (i + length v) (cp\<lparr>HeaderLines := HeaderLines cp + fold_count v\<rparr>)"
  using assms
proof (induction v arbitrary: i cp rule: folds_ok.induct)
  case (2 c cs)
  show ?case
  proof (cases "c = CR")
    case True
    then obtain w r where cs: "cs = LF # w # r" "ISWHITE w" "folds_ok r"
      using "2.prems"(1) by (auto split: list.splits)
    have "ARTparseheader_loop xr bp i cp = ARTparseheader_loop xr bp (i + 3) (cp\<lparr>HeaderLines := HeaderLines cp + 1\<rparr>)"
      using "2.prems" cs True by (intro scan_fold [of _ _ w "r @ s"]) auto
    also have "drop (i + 3) bp = r @ s"
      using drop_nth(3) [of i bp CR "LF # w # r @ s"] drop_nth(3) [of "i + 1" bp LF "w # r @ s"]
        drop_nth(3) [of "i + 2" bp w "r @ s"] "2.prems"(2) cs True by (simp add: eval_nat_numeral)
    then have "ARTparseheader_loop xr bp (i + 3) (cp\<lparr>HeaderLines := HeaderLines cp + 1\<rparr>) =
        ARTparseheader_loop xr bp (i + 3 + length r) (cp\<lparr>HeaderLines := HeaderLines cp + 1 + fold_count r\<rparr>)"
      using "2.IH"(1) [OF True cs(1) refl] cs(3) "2.prems"(3,4) by simp
    finally have "ARTparseheader_loop xr bp i cp =
        ARTparseheader_loop xr bp (i + 3 + length r) (cp\<lparr>HeaderLines := HeaderLines cp + 1 + fold_count r\<rparr>)" .
    moreover have "i + 3 + length r = i + length (c # cs)" using cs(1) by simp
    moreover have "HeaderLines cp + 1 + fold_count r = HeaderLines cp + fold_count (c # cs)"
      using cs True by (auto simp: ISWHITE_def)
    ultimately show ?thesis by (simp only:)
  next
    case False
    then have c: "plain_octet c" "folds_ok cs" using "2.prems"(1) by (auto simp: plain_octet_def)
    then have "ARTparseheader_loop xr bp i cp = ARTparseheader_loop xr bp (i + 1) cp"
      using scan_plain [of "[c]" i bp "cs @ s"] "2.prems"(2) by simp
    then show ?thesis using "2.IH"(2) [OF False c(2), of "i + 1" cp] False "2.prems"(2-4) drop_nth(3) [of i bp c "cs @ s"]
      by simp
  qed
qed simp

lemma scan_end:
  fixes xr :: bool
  assumes "drop i bp = CR # LF # c # d # s" "\<not> ISWHITE c" "c = CHR ''.'' \<longrightarrow> d \<noteq> CR" "s \<noteq> []" "Start cp + 1 < i"
  defines "cp1 \<equiv> (ARTcheckheader xr bp (cp\<lparr>HeaderLines := HeaderLines cp + 1\<rparr>) (i + 2 - CurHeader cp))\<lparr>CurHeader := i + 2\<rparr>"
  shows "ARTparseheader_loop xr bp i cp =
    (if c = CR \<and> d = LF
     then ARTparsebody bp (cp1\<lparr>Next := i + 4, Body := i + 4, State := CSgetbody\<rparr>)
     else ARTparseheader_loop xr bp (i + 3) cp1)"
proof -
  have d: "i < length bp" "bp ! i = CR" "bp ! (i + 1) = LF" "bp ! (i + 2) = c" "bp ! (i + 3) = d"
    using drop_nth [OF assms(1)] drop_nth [of "i + 1" bp LF] drop_nth [of "i + 2" bp c] drop_nth [of "i + 3" bp d]
    by (auto simp: eval_nat_numeral)
  have "length bp - i = length s + 4" using arg_cong [OF assms(1), of length] by simp
  then have len: "\<not> length bp - i < 5" using assms(4) by (cases s) auto
  have no: "\<not> at bp i end_of_line_dot" using d assms(3) by (auto simp: eval_nat_numeral)
  have nd: "\<not> starts_with_dot bp (Start cp) i" using assms(5) by (simp add: starts_with_dot_def)
  have hl: "end_header_line xr bp i cp = (i + 2, cp1)"
    using d assms(2,5) by (simp add: end_header_line_def cp1_def ISWHITE_def)
  have "Suc (Suc i) + 1 = i + 3" "i + 2 + 2 = i + 4" by simp_all
  then show ?thesis
    unfolding parseheader_CR [OF d(1,2) nd len hl] using no d
    by (simp add: eval_nat_numeral del: at_Cons)
qed

section \<open>One field checked\<close>

definition trim :: "octets \<Rightarrow> octets" where
  "trim v = rev (dropWhile ISWHITE (rev (dropWhile ISWHITE v)))"

definition same_name :: "octets \<Rightarrow> octets \<Rightarrow> bool" where
  "same_name n m \<longleftrightarrow> map c_tolower n = map c_tolower m"

definition trimmed :: "bool \<Rightarrow> nat \<Rightarrow> bool" where
  "trimmed xr i \<longleftrightarrow> i = HDR__MESSAGE_ID \<or> i = HDR__SUPERSEDES \<or> (xr \<and> i = HDR__XREF)"

definition value_of :: "bool \<Rightarrow> nat \<Rightarrow> octets \<Rightarrow> octets" where
  "value_of xr i v = (if trimmed xr i then trim v else v)"

lemma name_ok_facts:
  assumes "name_ok n"
  shows "n \<noteq> []" "NUL \<notin> set n" "CHR '':'' \<notin> set n" "list_all plain_octet n" "\<forall>c\<in>set n. \<not> ISWHITE c"
proof -
  have g: "\<forall>c\<in>set n. 33 \<le> ord c \<and> c \<noteq> CHR '':''" using assms by (auto simp: name_ok_def list_all_iff c_isgraph_def)
  have z: "ord CR = 13" "ord LF = 10" "ord SP = 32" "ord TAB = 9" by (simp_all add: ord_def)
  have p: "c \<noteq> NUL \<and> c \<noteq> CR \<and> c \<noteq> LF \<and> c \<noteq> SP \<and> c \<noteq> TAB" if "c \<in> set n" for c
    using g [rule_format, OF that] by (auto simp: z)
  show "NUL \<notin> set n" "list_all plain_octet n" "\<forall>c\<in>set n. \<not> ISWHITE c"
    using p by (fastforce simp: list_all_iff plain_octet_def ISWHITE_def)+
  show "n \<noteq> []" "CHR '':'' \<notin> set n" using assms g by (auto simp: name_ok_def)
qed

lemma substr_drop: "drop p bp = t @ u \<Longrightarrow> substr bp p (length t) = t"
  by (simp add: substr_def)

lemma skip_white_take:
  "drop p bp = t @ u \<Longrightarrow> skip_white bp p (length t) = p + length (takeWhile ISWHITE t)"
proof (induction t arbitrary: p)
  case (Cons c t)
  then show ?case using drop_nth [of p bp c "t @ u"] by simp
qed simp

lemma trim_white_drop:
  "drop p bp = t @ u \<Longrightarrow> t \<noteq> [] \<longrightarrow> \<not> ISWHITE (hd t) \<Longrightarrow>
     trim_white bp p (length t) = length (rev (dropWhile ISWHITE (rev t)))"
proof (induction t arbitrary: u rule: rev_induct)
  case (snoc c t)
  have len: "p + length t < length bp"
    using arg_cong [OF snoc.prems(1), of length] by simp
  have "drop p bp ! length t = c" using snoc.prems(1) by (simp add: nth_append)
  then have c: "bp ! (p + length t) = c" using len by simp
  show ?case
  proof (cases "t = []")
    case True
    then show ?thesis using snoc.prems(2) by simp
  next
    case False
    then have "t \<noteq> [] \<longrightarrow> \<not> ISWHITE (hd t)" using snoc.prems(2) by simp
    then show ?thesis using snoc.IH [of "c # u"] snoc.prems(1) c False by simp
  qed
qed simp

lemma trim_skip: "ISWHITE c \<Longrightarrow> trim (c # v) = trim v"
  by (simp add: trim_def)

lemma length_trim: "length (trim v) \<le> length (dropWhile ISWHITE v)"
  by (metis length_dropWhile_le length_rev trim_def)

lemma trim_prefix: "\<exists>w. dropWhile ISWHITE v = trim v @ w"
  unfolding trim_def
  by (metis append_eq_append_conv_if rev_append rev_rev_ident takeWhile_dropWhile_id)

text \<open>The octets that \<open>ARTcheckheader\<close> takes for the value of a field are those of the value.\<close>

lemma field_value_text:
  assumes "drop h bp = field_text (n, v) @ s"
  shows "\<exists>p. field_value bp xr i h (length (field_text (n, v))) (h + length n) = (p, int (length (value_of xr i v)))
    \<and> substr bp p (length (value_of xr i v)) = value_of xr i v"
proof -
  let ?c = "h + length n"
  have d: "drop (?c + 1) bp = (SP # v) @ CR # LF # s" "drop (?c + 2) bp = v @ CR # LF # s"
    using arg_cong [OF assms, of "drop (length n + 1)"] arg_cong [OF assms, of "drop (length n + 2)"]
    by (simp_all add: field_text_def add.commute add.left_commute)
  show ?thesis
  proof (cases "trimmed xr i")
    case False
    then show ?thesis using d(2)
      by (auto simp: field_value_def trimmed_def value_of_def field_text_def substr_drop)
  next
    case True
    define w where "w = takeWhile ISWHITE (SP # v)"
    define t where "t = dropWhile ISWHITE (SP # v)"
    have wt: "SP # v = w @ t" by (simp add: w_def t_def)
    have n: "h + length (field_text (n, v)) - 2 - (?c + 1) = length (SP # v)"
      by (simp add: field_text_def)
    have sk: "skip_white bp (?c + 1) (length (SP # v)) = ?c + 1 + length w"
      unfolding w_def by (rule skip_white_take [OF d(1)])
    have dt: "drop (?c + 1 + length w) bp = t @ CR # LF # s"
      using arg_cong [OF d(1) [unfolded wt], of "drop (length w)"] by (simp add: add.commute add.left_commute)
    have m: "h + length (field_text (n, v)) - 2 - (?c + 1 + length w) = length t"
      using arg_cong [OF wt, of length] by (simp add: field_text_def)
    have "t \<noteq> [] \<longrightarrow> \<not> ISWHITE (hd t)" unfolding t_def by (metis hd_dropWhile)
    then have tr: "trim_white bp (?c + 1 + length w) (length t) = length (trim v)"
      using trim_white_drop [OF dt] trim_skip [of SP v] by (simp add: trim_def t_def)
    obtain u where "t = trim v @ u" using trim_prefix [of "SP # v"] trim_skip [of SP v] by (auto simp: t_def)
    then have "substr bp (?c + 1 + length w) (length (trim v)) = trim v"
      using dt by (simp add: substr_drop)
    moreover have "field_value bp xr i h (length (field_text (n, v))) ?c = (?c + 1 + length w, int (length (trim v)))"
      using True unfolding field_value_def n sk trimmed_def [symmetric] Let_def m tr by simp
    ultimately show ?thesis using True by (auto simp: value_of_def)
  qed
qed

lemma memchr_first:
  assumes "drop h bp = n @ c # s" "c \<notin> set n" "length n < sz"
  shows "memchr bp h sz c = Some (h + length n)"
proof -
  have nth: "bp ! (h + k) = (n @ c # s) ! k" if "k \<le> length n" for k
    using that arg_cong [OF assms(1), of "\<lambda>x. x ! k"] arg_cong [OF assms(1), of length] by (simp add: nth_drop)
  have "bp ! m \<noteq> c" if "h \<le> m" "m < h + length n" for m
    using that nth [of "m - h"] assms(2) by (auto simp: nth_append in_set_conv_nth)
  then show ?thesis using nth [of "length n"] assms(3) by (simp add: memchr_Some)
qed

text \<open>What a field adds to the contents.\<close>

definition put_value :: "nat \<Rightarrow> nat \<times> int \<Rightarrow> HDRCONTENT \<Rightarrow> HDRCONTENT" where
  "put_value i pn hc =
     (if Length hc \<noteq> 0 then (if header_type i = HTreq then hc\<lparr>Length := - 1\<rparr> else hc)
      else hc\<lparr>Value := Some (fst pn), Length := snd pn\<rparr>)"

lemma ARTcheckheader_field:
  fixes xr :: bool
  assumes "drop (CurHeader cp) bp = field_text (n, v) @ s" "name_ok n"
  defines "cp' \<equiv> ARTcheckheader xr bp cp (length (field_text (n, v)))"
  shows "Error cp' = Error cp \<and> HdrContent cp' =
    (case ARTfindheader (hd n) n of
       None \<Rightarrow> HdrContent cp
     | Some i \<Rightarrow> (HdrContent cp)[i := put_value i
         (field_value bp xr i (CurHeader cp) (length (field_text (n, v))) (CurHeader cp + length n)) (HdrContent cp ! i)]) \<and>
    BytesHeader cp' = (if ARTfindheader (hd n) n = Some HDR__BYTES then Some (CurHeader cp) else BytesHeader cp)"
proof -
  let ?h = "CurHeader cp" and ?sz = "length (field_text (n, v))"
  note n = name_ok_facts [OF assms(2)]
  have d: "drop ?h bp = n @ CHR '':'' # SP # v @ CR # LF # s" using assms(1) by (simp add: field_text_def)
  have colon: "memchr bp ?h ?sz CHR '':'' = Some (?h + length n)"
    using memchr_first [OF d n(3)] by (simp add: field_text_def)
  have "drop (?h + length n) bp = CHR '':'' # SP # v @ CR # LF # s"
    using arg_cong [OF d, of "drop (length n)"] by (simp add: add.commute)
  then have white: "ISWHITE (bp ! (?h + length n + 1))"
    using drop_nth(3) [of "?h + length n" bp] drop_nth(2) [of "?h + length n + 1" bp SP] by auto
  have "substr bp ?h (length n) = n" using d by (simp add: substr_def)
  then have name: "c_str (substr bp ?h (length n)) = n" using n(2) by (auto simp: c_str_def takeWhile_eq_all_conv)
  have first: "bp ! ?h = hd n" using d n(1) drop_nth(2) [of ?h bp "hd n"] by (cases n) auto
  have nowhite: "find (\<lambda>p. ISWHITE (bp ! p)) (rev [?h + 1..<?h + length n]) = None"
  proof -
    have "\<not> ISWHITE (bp ! p)" if "?h \<le> p" "p < ?h + length n" for p
    proof -
      have lt: "p - ?h < length n" using that by arith
      then have "bp ! p = n ! (p - ?h)"
        using that arg_cong [OF d, of "\<lambda>x. x ! (p - ?h)"] arg_cong [OF d, of length]
        by (simp add: nth_append)
      then show ?thesis using n(5) lt by simp
    qed
    then show ?thesis by (auto simp: find_None_iff)
  qed
  show ?thesis
  proof (cases "ARTfindheader (hd n) n")
    case None
    then show ?thesis unfolding cp'_def ARTcheckheader_def Let_def colon
      using white nowhite name first by simp
  next
    case (Some i)
    then show ?thesis unfolding cp'_def ARTcheckheader_def Let_def colon
      using white name first by (simp add: put_value_def split: prod.split)
  qed
qed

section \<open>All fields\<close>

text \<open>The contents exactly, for fields that begin at \<open>h\<close>, and where the last Bytes field begins.\<close>

fun place_fields :: "bool \<Rightarrow> octets \<Rightarrow> nat \<Rightarrow> HDRCONTENT list \<Rightarrow> field list \<Rightarrow> HDRCONTENT list" where
  "place_fields xr bp h hcs [] = hcs"
| "place_fields xr bp h hcs ((n, v) # fs) =
     place_fields xr bp (h + length (field_text (n, v)))
       (case ARTfindheader (hd n) n of
          None \<Rightarrow> hcs
        | Some i \<Rightarrow> hcs[i := put_value i (field_value bp xr i h (length (field_text (n, v))) (h + length n)) (hcs ! i)]) fs"

fun bytes_place :: "nat \<Rightarrow> nat option \<Rightarrow> field list \<Rightarrow> nat option" where
  "bytes_place h b [] = b"
| "bytes_place h b ((n, v) # fs) = bytes_place (h + length (field_text (n, v)))
     (if ARTfindheader (hd n) n = Some HDR__BYTES then Some h else b) fs"

definition field_values :: "bool \<Rightarrow> nat \<Rightarrow> field list \<Rightarrow> octets list" where
  "field_values xr i fs = map (\<lambda>f. value_of xr i (snd f)) (filter (\<lambda>f. same_name (fst f) (header_name i)) fs)"

text \<open>
  What the parser keeps of the fields of one name: nothing when all are empty, the first that is not,
  and for a required header the mark of a duplicate when another field follows that one.
\<close>

definition content_is :: "octets \<Rightarrow> HDRCONTENT \<Rightarrow> ARTHEADERTYPE \<Rightarrow> octets list \<Rightarrow> bool" where
  "content_is bp hc ty vs =
     (case dropWhile (\<lambda>v. v = []) vs of
        [] \<Rightarrow> Length hc = 0
      | v # ws \<Rightarrow>
          if ty = HTreq \<and> ws \<noteq> [] then Length hc = - 1
          else Length hc = int (length v) \<and> (\<exists>p. Value hc = Some p \<and> substr bp p (length v) = v))"

definition contents_are :: "bool \<Rightarrow> octets \<Rightarrow> HDRCONTENT list \<Rightarrow> field list \<Rightarrow> bool" where
  "contents_are xr bp hcs fs \<longleftrightarrow> length hcs = 76 \<and>
     (\<forall>i<76. content_is bp (hcs ! i) (header_type i) (field_values xr i fs))"

lemma content_is_put:
  assumes "content_is bp hc (header_type i) vs" "substr bp p (length x) = x"
  shows "content_is bp (put_value i (p, int (length x)) hc) (header_type i) (vs @ [x])"
proof (cases "dropWhile (\<lambda>v. v = []) vs")
  case Nil
  then have "dropWhile (\<lambda>v. v = []) (vs @ [x]) = (if x = [] then [] else [x])"
    by (auto simp: dropWhile_append dropWhile_eq_Nil_conv)
  moreover have "Length hc = 0" using assms(1) Nil by (simp add: content_is_def)
  ultimately show ?thesis using assms(2) by (simp add: content_is_def put_value_def)
next
  case (Cons v ws)
  then have dw: "dropWhile (\<lambda>v. v = []) (vs @ [x]) = v # ws @ [x]"
    by (metis (no_types, lifting) append_Cons dropWhile_append list.distinct(1) dropWhile_eq_Nil_conv)
  have "v \<noteq> []" using Cons by (metis (mono_tags, lifting) hd_dropWhile list.distinct(1) list.sel(1))
  then have "Length hc \<noteq> 0" using assms(1) Cons by (auto simp: content_is_def split: if_splits)
  then show ?thesis using assms(1) Cons dw by (auto simp: content_is_def put_value_def split: if_splits)
qed

lemma contents_are_field:
  assumes "contents_are xr bp (HdrContent cp) fs" "drop (CurHeader cp) bp = field_text (n, v) @ s" "name_ok n"
  shows "contents_are xr bp (HdrContent (ARTcheckheader xr bp cp (length (field_text (n, v))))) (fs @ [(n, v)])"
proof -
  let ?h = "CurHeader cp"
  note n = name_ok_facts [OF assms(3)]
  have hc: "HdrContent (ARTcheckheader xr bp cp (length (field_text (n, v)))) =
    (case ARTfindheader (hd n) n of
       None \<Rightarrow> HdrContent cp
     | Some i \<Rightarrow> (HdrContent cp)[i := put_value i
         (field_value bp xr i ?h (length (field_text (n, v))) (?h + length n)) (HdrContent cp ! i)])"
    using ARTcheckheader_field [OF assms(2,3)] by simp
  have same: "same_name n (header_name i) \<longleftrightarrow> ARTfindheader (hd n) n = Some i" if "i < 76" for i
    using ARTfindheader_complete [of i n] ARTfindheader_sound [of "hd n" n i] n(2) that
    by (auto simp: same_name_def)
  have lt: "i < 76" if "ARTfindheader (hd n) n = Some i" for i
    using ARTfindheader_sound [OF that n(2)] by simp
  show ?thesis
  proof (cases "ARTfindheader (hd n) n")
    case None
    then have "\<not> same_name n (header_name i)" if "i < 76" for i using same that by auto
    then show ?thesis using assms(1) hc None by (simp add: contents_are_def field_values_def)
  next
    case (Some k)
    obtain p where p: "field_value bp xr k ?h (length (field_text (n, v))) (?h + length n) = (p, int (length (value_of xr k v)))"
      "substr bp p (length (value_of xr k v)) = value_of xr k v"
      using field_value_text [OF assms(2), of xr k] by blast
    have "field_values xr i (fs @ [(n, v)]) = (if i = k then field_values xr i fs @ [value_of xr k v] else field_values xr i fs)"
      if "i < 76" for i
      using same [OF that] Some by (auto simp: field_values_def)
    then show ?thesis using assms(1) hc Some p lt [OF Some] content_is_put [of bp "HdrContent cp ! k" k _ p]
      by (auto simp: contents_are_def nth_list_update)
  qed
qed

lemma contents_are_start: "contents_are xr bp (HdrContent (ARTprepare cp)) []"
  by (simp add: contents_are_def content_is_def field_values_def ARTprepare_def MAX_ARTHEADER_def)

lemma fields_parsed:
  assumes "fs \<noteq> []" "list_all field_ok fs"
    and "drop (CurHeader cp) bp = concat (map field_text fs) @ CR # LF # rest" "rest \<noteq> []"
    and "i = CurHeader cp \<or> i = CurHeader cp + 1" "Start cp \<le> CurHeader cp"
    and "contents_are xr bp (HdrContent cp) done"
  shows "\<exists>cp'. ARTparseheader_loop xr bp i cp = ARTparsebody bp cp' \<and> State cp' = CSgetbody \<and>
    Next cp' = CurHeader cp + length (concat (map field_text fs)) + 2 \<and> Body cp' = Next cp' \<and>
    Error cp' = Error cp \<and> contents_are xr bp (HdrContent cp') (done @ fs) \<and>
    HdrContent cp' = place_fields xr bp (CurHeader cp) (HdrContent cp) fs \<and>
    BytesHeader cp' = bytes_place (CurHeader cp) (BytesHeader cp) fs \<and> Start cp' = Start cp"
  using assms
proof (induction fs arbitrary: cp i "done")
  case (Cons f fs)
  obtain n v where f: "f = (n, v)" by fastforce
  have ok: "name_ok n" "folds_ok v" using Cons.prems(2) f by (auto simp: field_ok_def)
  note n = name_ok_facts [OF ok(1)]
  let ?h = "CurHeader cp" and ?t = "field_text (n, v)"
  define s where "s = concat (map field_text fs) @ CR # LF # rest"
  have dh: "drop ?h bp = ?t @ s" using Cons.prems(3) by (simp add: f s_def)
  let ?a = "?h + length n + 2" and ?e = "?h + length n + 2 + length v"
  have da: "drop ?a bp = v @ CR # LF # s"
    using arg_cong [OF dh, of "drop (length n + 2)"] by (simp add: field_text_def add.commute add.left_commute)
  have de: "drop ?e bp = CR # LF # s"
    using arg_cong [OF da, of "drop (length v)"] by (simp add: add.commute add.left_commute)
  have pl: "list_all plain_octet (n @ [CHR '':'', SP])" using n(4) by (simp add: plain_octet_def)
  define p where "p = (if i = ?h then n else tl n) @ [CHR '':'', SP]"
  have p: "list_all plain_octet p" "drop i bp = p @ v @ CR # LF # s" "i + length p = ?a"
  proof -
    have "\<exists>c m. n = c # m" using n(1) by (cases n) auto
    then obtain c m where cm: "n = c # m" by blast
    show "list_all plain_octet p" using pl cm by (simp add: p_def)
    show "drop i bp = p @ v @ CR # LF # s"
      using Cons.prems(5) dh drop_nth(3) [of ?h bp c "m @ [CHR '':'', SP] @ v @ CR # LF # s"]
      by (auto simp: p_def field_text_def cm)
    show "i + length p = ?a" using Cons.prems(5) by (auto simp: p_def cm)
  qed
  define cp0 where "cp0 = cp\<lparr>HeaderLines := HeaderLines cp + fold_count v\<rparr>"
  have at_end: "ARTparseheader_loop xr bp i cp = ARTparseheader_loop xr bp ?e cp0"
  proof -
    have "ARTparseheader_loop xr bp i cp = ARTparseheader_loop xr bp ?a cp"
      using scan_plain [OF p(1,2)] p(3) by simp
    also have "\<dots> = ARTparseheader_loop xr bp ?e cp0"
      unfolding cp0_def using Cons.prems(6) n(1) by (intro scan_value [OF ok(2) da]) (auto simp: Suc_le_eq)
    finally show ?thesis .
  qed
  define c where "c = cp0\<lparr>HeaderLines := HeaderLines cp0 + 1\<rparr>"
  have c: "CurHeader c = ?h" "HdrContent c = HdrContent cp" "Error c = Error cp" "BytesHeader c = BytesHeader cp" "Start c = Start cp" by (simp_all add: c_def cp0_def)
  define cp1 where "cp1 = (ARTcheckheader xr bp c (?e + 2 - ?h))\<lparr>CurHeader := ?e + 2\<rparr>"
  have sz: "?e + 2 - ?h = length ?t" by (simp add: field_text_def)
  have "contents_are xr bp (HdrContent (ARTcheckheader xr bp c (length ?t))) (done @ [(n, v)])"
    using c dh Cons.prems(7) ok(1) by (intro contents_are_field) simp_all
  moreover have "Error (ARTcheckheader xr bp c (length ?t)) = Error cp"
    using ARTcheckheader_field [of c bp n v s xr] c dh ok(1) by simp
  ultimately have c1: "contents_are xr bp (HdrContent cp1) (done @ [(n, v)])" "Error cp1 = Error cp"
    unfolding cp1_def sz by simp_all
  have c2: "place_fields xr bp (?h + length ?t) (HdrContent cp1) fs = place_fields xr bp ?h (HdrContent cp) ((n, v) # fs)"
    "bytes_place (?h + length ?t) (BytesHeader cp1) fs = bytes_place ?h (BytesHeader cp) ((n, v) # fs)" "Start cp1 = Start cp"
    using ARTcheckheader_field [of c bp n v s xr] c dh ok(1) unfolding cp1_def sz by (simp_all cong: option.case_cong)
  have sc: "Start cp0 + 1 < ?e" using Cons.prems(6) n(1) by (cases n) (auto simp: cp0_def)
  show ?case
  proof (cases fs)
    case Nil
    then have de2: "drop ?e bp = CR # LF # CR # LF # rest" using de by (simp add: s_def)
    have "ARTparseheader_loop xr bp ?e cp0 = ARTparsebody bp (cp1\<lparr>Next := ?e + 4, Body := ?e + 4, State := CSgetbody\<rparr>)"
      using scan_end [OF de2 _ _ Cons.prems(4) sc, of xr] by (simp add: cp1_def c_def cp0_def)
    then show ?thesis using at_end c1 c2 Nil f
      by (intro exI [of _ "cp1\<lparr>Next := ?e + 4, Body := ?e + 4, State := CSgetbody\<rparr>"]) (simp add: field_text_def)
  next
    case (Cons g gs)
    obtain m u where g: "g = (m, u)" by fastforce
    have ok2: "name_ok m" "folds_ok u" using Cons.prems(2) Cons g by (auto simp: field_ok_def)
    have "\<exists>x y z. s = x # y # z \<and> \<not> ISWHITE x \<and> plain_octet x \<and> (x = CHR ''.'' \<longrightarrow> y \<noteq> CR) \<and> z \<noteq> []"
    proof -
      obtain x m' where m: "m = x # m'" using name_ok_facts(1) [OF ok2(1)] by (cases m) auto
      have x: "\<not> ISWHITE x" "plain_octet x" and m': "list_all plain_octet m'"
        using name_ok_facts(4,5) [OF ok2(1)] m by auto
      show ?thesis using x m' Cons g m by (cases m') (auto simp: s_def field_text_def plain_octet_def)
    qed
    then obtain x y z where s: "s = x # y # z" "\<not> ISWHITE x" "plain_octet x" "x = CHR ''.'' \<longrightarrow> y \<noteq> CR" "z \<noteq> []"
      by blast
    have "ARTparseheader_loop xr bp ?e cp0 = ARTparseheader_loop xr bp (?e + 3) cp1"
      using scan_end [OF de [unfolded s(1)] s(2,4,5) sc, of xr] s(3) c(1)
      by (simp add: cp1_def c_def cp0_def plain_octet_def)
    moreover have "\<exists>cp'. ARTparseheader_loop xr bp (?e + 3) cp1 = ARTparsebody bp cp' \<and> State cp' = CSgetbody \<and>
      Next cp' = CurHeader cp1 + length (concat (map field_text fs)) + 2 \<and> Body cp' = Next cp' \<and>
      Error cp' = Error cp1 \<and> contents_are xr bp (HdrContent cp') ((done @ [(n, v)]) @ fs) \<and>
      HdrContent cp' = place_fields xr bp (CurHeader cp1) (HdrContent cp1) fs \<and>
      BytesHeader cp' = bytes_place (CurHeader cp1) (BytesHeader cp1) fs \<and> Start cp' = Start cp1"
    proof (rule Cons.IH)
      have "drop (?e + 2) bp = s" using arg_cong [OF de, of "drop 2"] by (simp add: add.commute)
      then show "drop (CurHeader cp1) bp = concat (map field_text fs) @ CR # LF # rest" by (simp add: cp1_def s_def)
    qed (use Cons Cons.prems c1 in \<open>auto simp: cp1_def c_def cp0_def\<close>)
    moreover have "CurHeader cp1 = ?h + length ?t" by (simp add: cp1_def field_text_def)
    ultimately show ?thesis using at_end c1(2) c2 by (simp add: f add.assoc)
  qed
qed simp

lemma parsebody_keeps:
  "HdrContent (ARTparsebody_loop bp i cp) = HdrContent cp \<and>
   (NUL \<notin> set (drop i bp) \<longrightarrow> Error (ARTparsebody_loop bp i cp) = Error cp) \<and>
   Body (ARTparsebody_loop bp i cp) = Body cp \<and> BytesHeader (ARTparsebody_loop bp i cp) = BytesHeader cp \<and>
   Start (ARTparsebody_loop bp i cp) = Start cp"
proof (induction bp i cp rule: ARTparsebody_loop.induct)
  case (1 bp i cp)
  have no: "NUL \<notin> set (drop (i + k) bp)" if "NUL \<notin> set (drop i bp)" for k
    using that by (metis add.commute drop_drop in_set_dropD)
  have here: "bp ! i \<noteq> NUL" if "NUL \<notin> set (drop i bp)" "i < length bp"
    using that by (auto simp: drop_eq_Cons)
  consider (stop) "length bp \<le> i" | (other) "i < length bp" "bp ! i \<noteq> CR"
    | (dot) "i < length bp" "bp ! i = CR" "starts_with_dot bp (Body cp) i"
    | (wait) "i < length bp" "bp ! i = CR" "\<not> starts_with_dot bp (Body cp) i" "length bp - i < 5"
    | (more) "i < length bp" "bp ! i = CR" "\<not> starts_with_dot bp (Body cp) i" "\<not> length bp - i < 5"
    by linarith
  then show ?case
  proof cases
    case other
    then show ?thesis using "1.IH"(1) [OF _ refl] no [of 1] here by (auto simp: parsebody_other note_octet_def ARTerror_def)
  next
    case more
    then show ?thesis using "1.IH"(2,3) [OF _ refl] no [of 1] no [of 2]
      by (auto simp: parsebody_CR got_article_def end_body_line_def Let_def simp del: at_Cons)
  qed (simp_all add: parsebody_stop parsebody_dot parsebody_wait got_article_def)
qed

lemma parsebody_ge: "i \<le> Next (ARTparsebody_loop bp i cp)"
proof (induction bp i cp rule: ARTparsebody_loop.induct)
  case (1 bp i cp)
  show ?case
  proof (cases "length bp \<le> i")
    case False
    show ?thesis
      using "1.IH"(1) [OF False refl] "1.IH"(2,3) [OF False refl]
      by (subst ARTparsebody_loop.simps) (auto simp: Let_def False got_article_def simp del: at_Cons)
  qed (simp add: parsebody_stop)
qed

lemma folds_ok_NUL: "folds_ok v \<Longrightarrow> NUL \<notin> set v"
proof (induction v rule: folds_ok.induct)
  case (2 c cs)
  then show ?case by (cases "c = CR") (auto simp: ISWHITE_def split: list.splits)
qed simp

lemma set_trim: "set (trim v) \<subseteq> set v"
proof
  fix x assume "x \<in> set (trim v)"
  then have "x \<in> set (dropWhile ISWHITE (rev (dropWhile ISWHITE v)))" by (simp add: trim_def)
  then show "x \<in> set v" by (metis set_dropWhileD set_rev)
qed

lemma field_values_NUL:
  assumes "list_all field_ok fs" "v \<in> set (field_values xr i fs)"
  shows "NUL \<notin> set v"
  using assms folds_ok_NUL set_trim
  by (fastforce simp: field_values_def field_ok_def value_of_def list_all_iff split: if_splits)

lemma content_is_HDR:
  assumes "content_is bp (HdrContent cp ! i) ty vs" "dropWhile (\<lambda>v. v = []) vs = v # ws" "NUL \<notin> set v"
    "\<not> (ty = HTreq \<and> ws \<noteq> [])"
  shows "Length (HdrContent cp ! i) = int (length v) \<and> HDR bp cp i = v"
proof -
  obtain p where "Length (HdrContent cp ! i) = int (length v)" "Value (HdrContent cp ! i) = Some p"
    "substr bp p (length v) = v"
    using assms by (auto simp: content_is_def)
  then show ?thesis using assms(3) by (auto simp: HDR_def c_str_def takeWhile_eq_all_conv)
qed

lemma parsed_fields:
  fixes xrefslave :: bool
  assumes "begin_article bp0 cp0 cp" and "ds \<noteq> []" and "fs \<noteq> []" and "list_all field_ok fs"
    and "drop (Start cp) (bp0 @ concat ds) = concat (map field_text fs) @ [CR, LF] @ rest" and "rest \<noteq> []"
  defines "cp' \<equiv> parse_batches xrefslave bp0 cp ds"
  shows "(\<forall>i<76.
      case dropWhile (\<lambda>v. v = []) (field_values xrefslave i fs) of
        [] \<Rightarrow> Length (HdrContent cp' ! i) = 0
      | v # ws \<Rightarrow>
          if header_type i = HTreq \<and> ws \<noteq> [] then Length (HdrContent cp' ! i) = - 1
          else Length (HdrContent cp' ! i) = int (length v) \<and> HDR (bp0 @ concat ds) cp' i = v)
    \<and> (NUL \<notin> set rest \<longrightarrow> Error cp' = [])
    \<and> drop (Body cp') (bp0 @ concat ds) = rest
    \<and> HdrContent cp' = place_fields xrefslave (bp0 @ concat ds) (Start cp)
        (replicate 76 \<lparr>Value = None, Length = 0, LastChar = CR\<rparr>) fs
    \<and> BytesHeader cp' = bytes_place (Start cp) None fs \<and> Start cp' = Start cp
    \<and> Body cp' = Start cp + length (concat (map field_text fs)) + 2 \<and> Body cp' \<le> Next cp'"
proof -
  let ?bp = "bp0 @ concat ds"
  have cp: "State cp = CSgetheader" "CurHeader cp = Start cp" "Next cp = Start cp" "Error cp = []"
    "receiving cp" "Next cp \<le> length bp0" "contents_are xrefslave ?bp (HdrContent cp) []"
    "HdrContent cp = replicate 76 \<lparr>Value = None, Length = 0, LastChar = CR\<rparr>" "BytesHeader cp = None"
    using assms(1) contents_are_start by (auto simp: begin_article_def receiving_def ARTprepare_def MAX_ARTHEADER_def)
  obtain cp1 where p: "ARTparseheader_loop xrefslave ?bp (Start cp) cp = ARTparsebody ?bp cp1"
    "Next cp1 = Start cp + length (concat (map field_text fs)) + 2" "Body cp1 = Next cp1" "Error cp1 = []"
    "contents_are xrefslave ?bp (HdrContent cp1) fs"
    "HdrContent cp1 = place_fields xrefslave ?bp (CurHeader cp) (HdrContent cp) fs"
    "BytesHeader cp1 = bytes_place (CurHeader cp) (BytesHeader cp) fs" "Start cp1 = Start cp"
    using fields_parsed [of fs cp ?bp rest "Start cp" xrefslave "[]"] assms(3-6) cp by auto
  have "cp' = ARTparse_data xrefslave ?bp cp"
    unfolding cp'_def using assms(2) cp by (intro parse_batches_whole) auto
  then have cp': "cp' = ARTparsebody_loop ?bp (Next cp1) cp1"
    using cp p(1) by (simp add: ARTparse_data_def ARTparseheader_def ARTparsebody_def)
  have body: "drop (Next cp1) ?bp = rest"
  proof -
    have "drop (Next cp1) ?bp = drop (length (concat (map field_text fs)) + 2) (drop (Start cp) ?bp)"
      unfolding p(2) drop_drop by (simp add: add_ac)
    then show ?thesis unfolding assms(5) by simp
  qed
  have ct: "content_is ?bp (HdrContent cp' ! i) (header_type i) (field_values xrefslave i fs)" if "i < 76" for i
    using p(5) that by (simp add: cp' parsebody_keeps contents_are_def)
  have "case dropWhile (\<lambda>v. v = []) (field_values xrefslave i fs) of
        [] \<Rightarrow> Length (HdrContent cp' ! i) = 0
      | v # ws \<Rightarrow>
          if header_type i = HTreq \<and> ws \<noteq> [] then Length (HdrContent cp' ! i) = - 1
          else Length (HdrContent cp' ! i) = int (length v) \<and> HDR ?bp cp' i = v" if i: "i < 76" for i
  proof (cases "dropWhile (\<lambda>v. v = []) (field_values xrefslave i fs)")
    case Nil
    have "Length (HdrContent cp' ! i) = 0" using ct [OF i] unfolding content_is_def Nil by simp
    then show ?thesis unfolding Nil by simp
  next
    case (Cons v ws)
    then have "v \<in> set (field_values xrefslave i fs)" by (metis list.set_intros(1) set_dropWhileD)
    then have "NUL \<notin> set v" using field_values_NUL assms(4) by blast
    then show ?thesis using ct [OF i] Cons content_is_HDR [OF ct [OF i] Cons] by (auto simp: content_is_def)
  qed
  moreover have "NUL \<notin> set rest \<longrightarrow> Error cp' = []"
    using parsebody_keeps [of ?bp "Next cp1" cp1, unfolded body] p(4) unfolding cp' by simp
  moreover have "drop (Body cp') ?bp = rest"
    using parsebody_keeps [of ?bp "Next cp1" cp1] body p(3) by (simp add: cp')
  moreover have "HdrContent cp' = place_fields xrefslave ?bp (Start cp) (replicate 76 \<lparr>Value = None, Length = 0, LastChar = CR\<rparr>) fs"
    "BytesHeader cp' = bytes_place (Start cp) None fs" "Start cp' = Start cp"
    "Body cp' = Start cp + length (concat (map field_text fs)) + 2" "Body cp' \<le> Next cp'"
    using parsebody_ge [of "Next cp1" ?bp cp1] parsebody_keeps [of ?bp "Next cp1" cp1] p(2,3,6-8) cp(2,8,9) by (simp_all add: cp')
  ultimately show ?thesis by blast
qed

text \<open>
  C17: the header fields that the parser hands on. For an article whose header is a sequence of
  fields (names of graphic characters without a colon, values that may be folded), cut into any batches,
  \<open>HDR\<close> gives for each system header, whatever the case of its letters in the article, the value of the
  first field of that name that is not empty, octet by octet and with its folds (the blanks around it
  dropped for message-IDs); no such field leaves the length 0, and a required header that comes again
  is marked with the length -1. No error is noted when the rest of the article has no NUL.
\<close>

theorem article_fields:
  fixes xrefslave :: bool
  assumes "begin_article bp0 cp0 cp" and "ds \<noteq> []" and "fs \<noteq> []" and "list_all field_ok fs"
    and "drop (Start cp) (bp0 @ concat ds) = concat (map field_text fs) @ [CR, LF] @ rest" and "rest \<noteq> []"
  defines "cp' \<equiv> parse_batches xrefslave bp0 cp ds"
  shows "(\<forall>i<76.
      case dropWhile (\<lambda>v. v = []) (field_values xrefslave i fs) of
        [] \<Rightarrow> Length (HdrContent cp' ! i) = 0
      | v # ws \<Rightarrow>
          if header_type i = HTreq \<and> ws \<noteq> [] then Length (HdrContent cp' ! i) = - 1
          else Length (HdrContent cp' ! i) = int (length v) \<and> HDR (bp0 @ concat ds) cp' i = v)
    \<and> (NUL \<notin> set rest \<longrightarrow> Error cp' = [])
    \<and> drop (Body cp') (bp0 @ concat ds) = rest"
  using parsed_fields [OF assms(1-6)] unfolding cp'_def by blast

text \<open>Two fields, one of them folded, in two batches; the body is a dot line.\<close>

definition example_fields :: "field list" where
  "example_fields = [(''subject'', ''hi''), (''X-y'', ''a'' @ [CR, LF, SP] @ ''b'')]"

definition example_batches :: "octets list" where
  "example_batches =
    [take 9 (concat (map field_text example_fields)),
     drop 9 (concat (map field_text example_fields)) @ [CR, LF] @ dot_line]"

theorem article_fields_witness:
  "let cp' = parse_batches False [] example_begun example_batches in
   HDR (concat example_batches) cp' 12 = ''hi'' \<and> Error cp' = [] \<and> drop (Body cp') (concat example_batches) = dot_line"
proof -
  have ok: "list_all field_ok example_fields" by code_simp
  have nm: "header_name 12 = ''Subject''" by (simp add: header_name_def ARTheaders_def)
  have "same_name ''subject'' ''Subject''" "\<not> same_name ''X-y'' ''Subject''" "\<not> trimmed False 12"
    by (code_simp, code_simp, code_simp)
  then have fv: "field_values False 12 example_fields = [''hi'']"
    by (simp add: field_values_def example_fields_def nm value_of_def)
  have b: "begin_article [] example_channel example_begun"
    by (simp add: begin_article_def example_begun_def example_channel_def)
  have "drop (Start example_begun) ([] @ concat example_batches) =
      concat (map field_text example_fields) @ [CR, LF] @ dot_line"
    by (simp add: example_batches_def example_begun_sel)
  note a = article_fields [OF b _ _ ok this, of False]
  have n: "example_batches \<noteq> []" "example_fields \<noteq> []" "dot_line \<noteq> []" "NUL \<notin> set dot_line"
    by (simp_all add: example_batches_def example_fields_def)
  have "HDR ([] @ concat example_batches) (parse_batches False [] example_begun example_batches) 12 = ''hi''"
    using a [OF n(1-3), THEN conjunct1, rule_format, of 12] unfolding fv by simp
  then show ?thesis using a [OF n(1-3)] n(4) by (simp add: Let_def)
qed

end
