(* ===== verification/Date.thy ===== *)
theory Date
  imports Hash
begin

text \<open>
  Dates (\<open>lib/date.c\<close>): generating the Date header field, and parsing the dates of NNTP commands
  and of articles. The conversions of the C library (\<open>gmtime\<close>, \<open>localtime\<close>, \<open>mktime\<close>) and the
  clock are arguments; the configuration is that of a system whose \<open>struct tm\<close> has \<open>tm_gmtoff\<close> and
  \<open>tm_zone\<close>. A pointer into a date is the rest of the string from it on; an advance past the NUL
  gives \<open>None\<close> for the whole function.
\<close>

section \<open>Tables\<close>

definition WEEKDAY :: "octets list" where
  "WEEKDAY = [''Sun'', ''Mon'', ''Tue'', ''Wed'', ''Thu'', ''Fri'', ''Sat'']"

definition MONTH :: "octets list" where
  "MONTH = [''Jan'', ''Feb'', ''Mar'', ''Apr'', ''May'', ''Jun'', ''Jul'', ''Aug'', ''Sep'', ''Oct'',
            ''Nov'', ''Dec'']"

definition OBS_MONTH :: "octets list" where
  "OBS_MONTH = [''January'', ''February'', ''March'', ''April'', ''May'', ''June'', ''July'', ''August'',
                ''September'', ''October'', ''November'', ''December'']"

definition MONTHDAYS :: "int list" where
  "MONTHDAYS = [31, 28, 31, 30, 31, 30, 31, 31, 30, 31, 30, 31]"

definition ZONE_OFFSET :: "(octets \<times> int) list" where
  "ZONE_OFFSET =
    [(''UT'', 0), (''GMT'', 0), (''EDT'', -4 * 60 * 60), (''EST'', -5 * 60 * 60), (''CDT'', -5 * 60 * 60),
     (''CST'', -6 * 60 * 60), (''MDT'', -6 * 60 * 60), (''MST'', -7 * 60 * 60), (''PDT'', -7 * 60 * 60),
     (''PST'', -8 * 60 * 60)]"

definition OBS_ZONE_OFFSET :: "(octets \<times> int) list" where
  "OBS_ZONE_OFFSET =
    [(''UTC'', 0), (''CUT'', 0), (''WET'', 0), (''BST'', 1 * 60 * 60), (''NDT'', (-2 * 60 + 30) * 60),
     (''NST'', (-3 * 60 + 30) * 60), (''ADT'', -3 * 60 * 60), (''AST'', -4 * 60 * 60), (''YDT'', -8 * 60 * 60),
     (''YST'', -9 * 60 * 60), (''AKDT'', -8 * 60 * 60), (''AKST'', -9 * 60 * 60), (''HADT'', -9 * 60 * 60),
     (''HAST'', -10 * 60 * 60), (''HST'', -10 * 60 * 60), (''CES'', 2 * 60 * 60), (''CEST'', 2 * 60 * 60),
     (''MEZ'', 1 * 60 * 60), (''MEZT'', 2 * 60 * 60), (''CET'', 1 * 60 * 60), (''MET'', 1 * 60 * 60),
     (''EET'', 2 * 60 * 60), (''MSK'', 3 * 60 * 60), (''MSD'', 4 * 60 * 60), (''WAST'', 8 * 60 * 60),
     (''WADT'', 9 * 60 * 60), (''HKT'', 8 * 60 * 60), (''CCT'', 8 * 60 * 60), (''JST'', 9 * 60 * 60),
     (''KST'', 9 * 60 * 60), (''KDT'', 9 * 60 * 60), (''CAST'', (9 * 60 + 30) * 60),
     (''CADT'', (10 * 60 + 30) * 60), (''EAST'', 10 * 60 * 60), (''EADT'', 11 * 60 * 60), (''NZST'', 12 * 60 * 60),
     (''NZST'', 13 * 60 * 60)]"

definition ISLEAP :: "int \<Rightarrow> bool" where
  "ISLEAP year \<longleftrightarrow> year mod 4 = 0 \<and> (year mod 100 \<noteq> 0 \<or> year mod 400 = 0)"

record tm =
  tm_sec :: int
  tm_min :: int
  tm_hour :: int
  tm_mday :: int
  tm_mon :: int
  tm_year :: int
  tm_wday :: int
  tm_gmtoff :: int
  tm_zone :: octets

section \<open>Generating dates\<close>

definition local_tz_offset :: "(int \<Rightarrow> tm) \<Rightarrow> int \<Rightarrow> int" where
  "local_tz_offset localtime date = tm_gmtoff (localtime date)"

text \<open>The conversion \<open>%02d\<close>.\<close>

definition fmt02d :: "int \<Rightarrow> octets" where
  "fmt02d i = (if 0 \<le> i \<and> i < 10 then ''0'' else []) @ dec_int i"

text \<open>The date and time as \<open>makedate\<close> prints them, before the comment with the time zone.\<close>

definition date_text :: "tm \<Rightarrow> bool \<Rightarrow> int \<Rightarrow> int \<Rightarrow> octets" where
  "date_text t east tz_hour tz_min =
     WEEKDAY ! nat (tm_wday t) @ '', '' @ dec_int (tm_mday t) @ '' '' @ MONTH ! nat (tm_mon t) @ '' '' @
     dec_int (1900 + tm_year t) @ '' '' @ fmt02d (tm_hour t) @ '':'' @ fmt02d (tm_min t) @ '':'' @
     fmt02d (tm_sec t) @ '' '' @ (if east then ''+'' else ''-'') @ fmt02d tz_hour @ fmt02d tz_min"

text \<open>What is in the buffer on success; \<open>None\<close> is the result false.\<close>

definition makedate :: "(int \<Rightarrow> tm) \<Rightarrow> (int \<Rightarrow> tm) \<Rightarrow> int \<Rightarrow> int \<Rightarrow> bool \<Rightarrow> nat \<Rightarrow> octets option" where
  "makedate gmtime localtime now date local buflen =
     (if buflen < 32 then None
      else
        let realdate = (if date = - 1 then now else date);
            t = (if local then localtime realdate else gmtime realdate);
            tz_offset = local_tz_offset localtime realdate;
            east = (local \<and> 0 \<le> tz_offset);
            tz_hour = (if local then \<bar>tz_offset\<bar> div 3600 else 0);
            tz_min = (if local then \<bar>tz_offset\<bar> mod 3600 div 60 else 0)
        in if tz_hour > 24 then None
           else
             let buff = take (buflen - 1) (date_text t east tz_hour tz_min);
                 tz_name = (if local then tm_zone t else ''UTC'')
             in Some (if length buff + 4 + length tz_name \<le> buflen then buff @ '' ('' @ tz_name @ '')'' else buff))"

section \<open>Calendar times\<close>

definition mktime_utc :: "tm \<Rightarrow> int" where
  "mktime_utc t =
     (if tm_mon t < 0 \<or> tm_mon t > 11 \<or> tm_year t < 70 then - 1
      else
        let years = (\<Sum>i\<leftarrow>[1970..tm_year t + 1899]. 365 + (if ISLEAP i then 1 else 0));
            months = (\<Sum>i\<leftarrow>[0..tm_mon t - 1]. MONTHDAYS ! nat i);
            leap = (if tm_mon t > 1 \<and> ISLEAP (tm_year t + 1900) then 1 else 0);
            h = 24 * (years + months + leap + tm_mday t - 1) + tm_hour t;
            m = 60 * h + tm_min t
        in 60 * m + tm_sec t)"

definition valid_tm :: "tm \<Rightarrow> bool" where
  "valid_tm t =
     (if tm_sec t > 60 \<or> tm_min t > 59 \<or> tm_hour t > 23 then False
      else if tm_mday t < 1 \<or> tm_mon t < 0 \<or> tm_mon t > 11 then False
      else if tm_mday t > MONTHDAYS ! nat (tm_mon t) \<and>
              (tm_mon t \<noteq> 1 \<or> tm_mday t > 29 \<or> \<not> ISLEAP (tm_year t + 1900)) then False
      else \<not> tm_year t < 70)"

definition digit2 :: "octets \<Rightarrow> nat \<Rightarrow> int" where
  "digit2 p i = (int (ord (p ! i)) - 48) * 10 + int (ord (p ! (i + 1))) - 48"

definition zero_tm :: tm where
  "zero_tm = \<lparr>tm_sec = 0, tm_min = 0, tm_hour = 0, tm_mday = 0, tm_mon = 0, tm_year = 0, tm_wday = 0,
              tm_gmtoff = 0, tm_zone = []\<rparr>"

text \<open>
  \<open>current\<close> is the calendar time now, in the zone that is asked for; \<open>mktime\<close> converts local time.
\<close>

definition parsedate_nntp :: "tm \<Rightarrow> (tm \<Rightarrow> int) \<Rightarrow> octets \<Rightarrow> octets \<Rightarrow> bool \<Rightarrow> int" where
  "parsedate_nntp current mktime date hour local =
     (if (length date \<noteq> 6 \<and> length date \<noteq> 8) \<or> length hour \<noteq> 6 then - 1
      else if \<not> list_all c_isdigit date then - 1
      else if \<not> list_all c_isdigit hour then - 1
      else
        let p = drop (length date - 6) date;
            t = zero_tm\<lparr>tm_year := digit2 p 0, tm_mon := digit2 p 2 - 1, tm_mday := digit2 p 4,
                        tm_hour := digit2 hour 0, tm_min := digit2 hour 2, tm_sec := digit2 hour 4\<rparr>;
            t = (if length date = 8
                 then t\<lparr>tm_year := tm_year t + (int (ord (date ! 0)) - 48) * 1000 + (int (ord (date ! 1)) - 48) * 100 - 1900\<rparr>
                 else
                   let century = tm_year current div 100;
                       century = (if tm_year t > tm_year current mod 100 then century - 1 else century)
                   in t\<lparr>tm_year := tm_year t + century * 100\<rparr>)
        in if \<not> valid_tm t then - 1
           else if local then mktime t else mktime_utc t)"

section \<open>Parsing by rules\<close>

datatype rule_type = TYPE_NUMBER | TYPE_LOOKUP | TYPE_OBS_MONTH | TYPE_DELIM

record rule =
  rtype :: rule_type
  delimiter :: char
  rtable :: "octets list"
  rmin :: nat
  rmax :: nat

text \<open>The pointer moved on by \<open>n\<close>; \<open>None\<close> if that is past the NUL.\<close>

definition ptr_add :: "octets \<Rightarrow> nat \<Rightarrow> octets option" where
  "ptr_add p n = (if n \<le> length p then Some (drop n p) else None)"

text \<open>\<open>strncasecmp (a, b, n) == 0\<close> on C strings.\<close>

definition strncaseeq :: "octets \<Rightarrow> octets \<Rightarrow> nat \<Rightarrow> bool" where
  "strncaseeq a b n \<longleftrightarrow> map c_tolower (take n a) = map c_tolower (take n b)"

definition c_isalpha :: "char \<Rightarrow> bool" where
  "c_isalpha c \<longleftrightarrow> c_isupper c \<or> c_islower c"

fun number_loop :: "octets \<Rightarrow> nat \<Rightarrow> nat \<Rightarrow> int \<Rightarrow> octets \<times> nat \<times> int" where
  "number_loop (c # p) count mx value =
     (if count < mx \<and> c_isdigit c then number_loop p (count + 1) mx (value * 10 + (int (ord c) - 48))
      else (c # p, count, value))"
| "number_loop [] count mx value = ([], count, value)"

text \<open>The parsers give the rest of the string and the value, \<open>None\<close> for NULL.\<close>

definition parse_number :: "octets \<Rightarrow> rule \<Rightarrow> (octets \<times> int) option" where
  "parse_number p rule =
     (case number_loop p 0 (rmax rule) 0 of (q, count, value) \<Rightarrow>
        if count < rmin rule \<or> count > rmax rule then None else Some (q, value))"

text \<open>The first entry of a table that matches, by its index.\<close>

definition table_find :: "('a \<Rightarrow> bool) \<Rightarrow> 'a list \<Rightarrow> nat option" where
  "table_find P t = find (\<lambda>i. P (t ! i)) [0..<length t]"

definition parse_lookup :: "octets \<Rightarrow> rule \<Rightarrow> (octets \<times> int) option option" where
  "parse_lookup p rule =
     (case table_find (\<lambda>e. strncaseeq e p (rmax rule)) (rtable rule) of
        None \<Rightarrow> Some None
      | Some i \<Rightarrow> map_option (\<lambda>q. Some (q, int i)) (ptr_add p (rmax rule)))"

definition parse_legacy_month :: "octets \<Rightarrow> (octets \<times> int) option" where
  "parse_legacy_month p =
     (let word = length (takeWhile c_isalpha p);
          n = (if deref (drop word p) = CHR ''.'' then word + 1 else word)
      in if n = 0 then None
         else map_option (\<lambda>i. (drop n p, int i))
           (if n = 3 \<or> (n = 4 \<and> p ! 3 = CHR ''.'') then table_find (\<lambda>e. strncaseeq e p 3) MONTH
            else table_find (\<lambda>e. n = length e \<and> strncaseeq e p n) OBS_MONTH))"

definition apply_rule :: "octets \<Rightarrow> rule \<Rightarrow> (octets \<times> int option) option option" where
  "apply_rule p rule =
     (case rtype rule of
        TYPE_DELIM \<Rightarrow> Some (if deref p \<noteq> delimiter rule then None else Some (tl p, None))
      | TYPE_LOOKUP \<Rightarrow> map_option (map_option (map_prod id Some)) (parse_lookup p rule)
      | TYPE_OBS_MONTH \<Rightarrow> Some (map_option (map_prod id Some) (parse_legacy_month p))
      | TYPE_NUMBER \<Rightarrow> Some (map_option (map_prod id Some) (parse_number p rule)))"

text \<open>The rules from the \<open>i\<close>-th value on.\<close>

fun parse_by_rule :: "octets \<Rightarrow> rule list \<Rightarrow> nat \<Rightarrow> int list \<Rightarrow> (octets \<times> int list) option option" where
  "parse_by_rule p [] i values = Some (Some (p, values))"
| "parse_by_rule p (rule # rules) i values =
     do { r \<leftarrow> apply_rule p rule;
          case r of
            None \<Rightarrow> Some None
          | Some (q, v) \<Rightarrow>
              parse_by_rule (skip_cfws q) rules (i + 1) (case v of None \<Rightarrow> values | Some x \<Rightarrow> values[i := x]) }"

text \<open>
  \<open>ZONE_OFFSET[i].name\<close> is compared with as many octets as the word has, but skipped in full.
\<close>

definition parse_legacy_timezone :: "octets \<Rightarrow> bool \<Rightarrow> (octets \<times> int) option option" where
  "parse_legacy_timezone p obsolete =
     (let mx = length (takeWhile c_isalpha p) in
      if mx = 0 then Some None
      else case table_find (\<lambda>z. strncaseeq (fst z) p mx) ZONE_OFFSET of
        Some i \<Rightarrow> map_option (\<lambda>q. Some (q, snd (ZONE_OFFSET ! i))) (ptr_add p (length (fst (ZONE_OFFSET ! i))))
      | None \<Rightarrow>
          if mx = 1 \<and> c_isalpha (deref p) \<and> deref p \<noteq> CHR ''J'' \<and> deref p \<noteq> CHR ''j'' then Some (Some (tl p, 0))
          else if obsolete then
            (case table_find (\<lambda>z. length (fst z) \<le> mx \<and> strncaseeq (fst z) p mx) OBS_ZONE_OFFSET of
               Some i \<Rightarrow>
                 map_option (\<lambda>q. Some (q, snd (OBS_ZONE_OFFSET ! i))) (ptr_add p (length (fst (OBS_ZONE_OFFSET ! i))))
             | None \<Rightarrow> Some None)
          else Some None)"

section \<open>Dates of articles\<close>

definition number_rule :: "nat \<Rightarrow> nat \<Rightarrow> rule" where
  "number_rule mn mx = \<lparr>rtype = TYPE_NUMBER, delimiter = NUL, rtable = [], rmin = mn, rmax = mx\<rparr>"

definition lookup_rule :: "octets list \<Rightarrow> rule" where
  "lookup_rule t = \<lparr>rtype = TYPE_LOOKUP, delimiter = NUL, rtable = t, rmin = 3, rmax = 3\<rparr>"

definition delim_rule :: "char \<Rightarrow> rule" where
  "delim_rule c = \<lparr>rtype = TYPE_DELIM, delimiter = c, rtable = [], rmin = 1, rmax = 1\<rparr>"

definition month_rule :: rule where
  "month_rule = \<lparr>rtype = TYPE_OBS_MONTH, delimiter = NUL, rtable = [], rmin = 3, rmax = 3\<rparr>"

definition base_rule :: "rule list" where
  "base_rule = [lookup_rule WEEKDAY, delim_rule (CHR '',''), number_rule 1 2, lookup_rule MONTH, number_rule 2 4,
                number_rule 2 2, delim_rule (CHR '':''), number_rule 2 2]"

definition seconds_rule :: "rule list" where
  "seconds_rule = [delim_rule (CHR '':''), number_rule 2 2]"

definition zone_rule :: "rule list" where
  "zone_rule = [number_rule 2 2, number_rule 2 2]"

definition fix_year :: "tm \<Rightarrow> tm" where
  "fix_year t =
     (if tm_year t < 50 then t\<lparr>tm_year := tm_year t + 100\<rparr>
      else if tm_year t \<ge> 1000 then t\<lparr>tm_year := tm_year t - 1900\<rparr>
      else t)"

text \<open>The optional seconds; the values are those of the rules before.\<close>

definition parse_seconds :: "rule list \<Rightarrow> octets \<Rightarrow> int list \<Rightarrow> tm \<Rightarrow> (octets \<times> int list \<times> tm) option option" where
  "parse_seconds rules p values t =
     (if deref p = CHR '':''
      then map_option (map_option (\<lambda>(q, v). (q, v, t\<lparr>tm_sec := v ! 1\<rparr>))) (parse_by_rule p rules 0 values)
      else Some (Some (p, values, t)))"

definition parse_zone :: "octets \<Rightarrow> int list \<Rightarrow> (octets \<times> int) option option" where
  "parse_zone p values =
     (if deref p = CHR ''-'' \<or> deref p = CHR ''+''
      then map_option (map_option (\<lambda>(q, v). (q, (v ! 0 * 60 + v ! 1) * 60 * (if deref p = CHR ''+'' then 1 else - 1))))
             (parse_by_rule (tl p) zone_rule 0 values)
      else parse_legacy_timezone p False)"

definition parsedate_rfc5322 :: "octets \<Rightarrow> int option" where
  "parsedate_rfc5322 date =
     (let p = skip_cfws date; vs = replicate 8 0 in
      do { r \<leftarrow> (if c_isalpha (deref p) then parse_by_rule p base_rule 0 vs
                else parse_by_rule p (drop 2 base_rule) 2 vs);
           case r of None \<Rightarrow> Some (- 1) | Some (p, vs) \<Rightarrow>
      do { let t = zero_tm\<lparr>tm_mday := vs ! 2, tm_mon := vs ! 3, tm_year := vs ! 4, tm_hour := vs ! 5, tm_min := vs ! 7\<rparr>;
           r \<leftarrow> parse_seconds seconds_rule p vs t;
           case r of None \<Rightarrow> Some (- 1) | Some (p, vs, t) \<Rightarrow>
      do { r \<leftarrow> parse_zone p vs;
           case r of None \<Rightarrow> Some (- 1) | Some (p, zone_offset) \<Rightarrow>
           Some (let t = fix_year t in
                 if skip_cfws p \<noteq> [] then - 1
                 else if \<not> valid_tm t then - 1
                 else let result = mktime_utc t in if result = - 1 then result else result - zone_offset) } } })"

section \<open>The lax parser\<close>

definition lax_base_rule :: "rule list" where
  "lax_base_rule = [number_rule 1 2, month_rule, number_rule 2 4, number_rule 1 2, delim_rule (CHR '':''), number_rule 1 2]"

definition lax_seconds_rule :: "rule list" where
  "lax_seconds_rule = [delim_rule (CHR '':''), number_rule 1 2]"

definition lax_zone_rule :: "rule list" where
  "lax_zone_rule = [number_rule 1 5]"

lemma skip_cfws_length: "length (skip_cfws_loop n p) \<le> length p"
proof (induction n p rule: skip_cfws_loop.induct)
  case (2 n c r)
  then show ?case by (auto simp: le_SucI split: if_splits dest: order.trans [OF _ diff_le_self])
qed simp

lemma number_loop_length: "number_loop p k mx v = (q, k', v') \<Longrightarrow> length q \<le> length p"
  by (induction p k mx v rule: number_loop.induct) (fastforce split: if_splits)+

lemma ptr_add_length: "ptr_add p n = Some q \<Longrightarrow> length q + n = length p"
  by (auto simp: ptr_add_def split: if_splits)

lemma apply_rule_length: "apply_rule p rule = Some (Some (q, v)) \<Longrightarrow> length q \<le> length p"
  by (auto simp: apply_rule_def parse_number_def parse_lookup_def parse_legacy_month_def Let_def
      split: rule_type.splits if_splits option.splits prod.splits dest: number_loop_length ptr_add_length)

lemma parse_by_rule_length: "parse_by_rule p rules i vs = Some (Some (q, vs')) \<Longrightarrow> length q \<le> length p"
proof (induction p rules i vs rule: parse_by_rule.induct)
  case (2 p rule rules i vs)
  then obtain q' v where a: "apply_rule p rule = Some (Some (q', v))" by (auto split: Option.bind_splits option.splits)
  with "2.prems" have "length q \<le> length (skip_cfws q')" by (auto intro: "2.IH" [OF a])
  also have "\<dots> \<le> length q'" unfolding skip_cfws_def by (rule skip_cfws_length)
  finally show ?case using apply_rule_length [OF a] by simp
qed simp

lemma table_find_Some: "table_find P t = Some i \<longleftrightarrow> i < length t \<and> P (t ! i) \<and> (\<forall>j<i. \<not> P (t ! j))"
  unfolding table_find_def by (auto simp: find_upt_Some)

lemma zone_name_length: "i < length ZONE_OFFSET \<Longrightarrow> 0 < length (fst (ZONE_OFFSET ! i))"
  "i < length OBS_ZONE_OFFSET \<Longrightarrow> 0 < length (fst (OBS_ZONE_OFFSET ! i))"
proof -
  have "\<forall>z\<in>set ZONE_OFFSET. 0 < length (fst z)" "\<forall>z\<in>set OBS_ZONE_OFFSET. 0 < length (fst z)" by code_simp+
  then show "i < length ZONE_OFFSET \<Longrightarrow> 0 < length (fst (ZONE_OFFSET ! i))"
    "i < length OBS_ZONE_OFFSET \<Longrightarrow> 0 < length (fst (OBS_ZONE_OFFSET ! i))" using nth_mem by blast+
qed

lemma parse_legacy_timezone_length:
  assumes "parse_legacy_timezone p obs = Some (Some (q, off))"
  shows "length q < length p"
proof -
  have p: "p \<noteq> []" using assms by (auto simp: parse_legacy_timezone_def)
  have z: "ptr_add p (length (fst (ZONE_OFFSET ! i))) = Some q \<Longrightarrow> i < length ZONE_OFFSET \<Longrightarrow> length q < length p"
    "ptr_add p (length (fst (OBS_ZONE_OFFSET ! i))) = Some q \<Longrightarrow> i < length OBS_ZONE_OFFSET \<Longrightarrow> length q < length p" for i
    subgoal using ptr_add_length [of p "length (fst (ZONE_OFFSET ! i))" q] zone_name_length(1) [of i] by linarith
    subgoal using ptr_add_length [of p "length (fst (OBS_ZONE_OFFSET ! i))" q] zone_name_length(2) [of i] by linarith
    done
  then show ?thesis
    using assms p unfolding parse_legacy_timezone_def Let_def
    by (auto simp: table_find_Some split: if_splits option.splits)
qed

function lax_zones :: "octets \<Rightarrow> int list \<Rightarrow> int \<Rightarrow> bool \<Rightarrow> (int \<times> bool) option option" where
  "lax_zones p values zone_offset have_zone =
     (if p = [] then Some (Some (zone_offset, have_zone))
      else if deref p = CHR ''-'' \<or> deref p = CHR ''+'' then
        do { r \<leftarrow> parse_by_rule (tl p) lax_zone_rule 0 values;
             case r of
               None \<Rightarrow> Some None
             | Some (q, vs) \<Rightarrow>
                 lax_zones (skip_cfws q) vs
                   ((if length (tl p) - length q < 3 then vs ! 0 * 60 * 60
                     else (vs ! 0 div 100 * 60 + vs ! 0 mod 100) * 60) * (if deref p = CHR ''+'' then 1 else - 1)) True }
      else
        do { r \<leftarrow> parse_legacy_timezone p True;
             case r of
               None \<Rightarrow> Some (Some (0, True))
             | Some (q, off) \<Rightarrow> lax_zones (skip_cfws q) values off True })"
  by pat_completeness auto
termination
proof (relation "measure (\<lambda>(p, vs, z, h). length p)")
  fix p :: octets and vs :: "int list" and r x q vs'
  assume "p \<noteq> []" "parse_by_rule (tl p) lax_zone_rule 0 vs = Some r" "r = Some x" "(q, vs') = x"
  then have "length q \<le> length (tl p)" using parse_by_rule_length by blast
  moreover have "length (skip_cfws q) \<le> length q" unfolding skip_cfws_def by (rule skip_cfws_length)
  ultimately have "length (skip_cfws q) < length p" using \<open>p \<noteq> []\<close> by (cases p) auto
  then show "((skip_cfws q, vs', (if length (tl p) - length q < 3 then vs' ! 0 * 60 * 60
      else (vs' ! 0 div 100 * 60 + vs' ! 0 mod 100) * 60) * (if deref p = CHR ''+'' then 1 else - 1), True), p, vs, z, h)
    \<in> measure (\<lambda>(p, vs, z, h). length p)" for z h by simp
next
  fix p :: octets and vs :: "int list" and r x q off
  assume "parse_legacy_timezone p True = Some r" "r = Some x" "(q, off) = x"
  then have "length q < length p" using parse_legacy_timezone_length by blast
  moreover have "length (skip_cfws q) \<le> length q" unfolding skip_cfws_def by (rule skip_cfws_length)
  ultimately show "((skip_cfws q, vs, off, True), p, vs, z, h) \<in> measure (\<lambda>(p, vs, z, h). length p)" for z h by simp
qed simp

declare lax_zones.simps [simp del]

definition parsedate_rfc5322_lax :: "(tm \<Rightarrow> int) \<Rightarrow> octets \<Rightarrow> int option" where
  "parsedate_rfc5322_lax mktime date =
     (let p = dropWhile (\<lambda>c. \<not> c_isdigit c \<and> c \<noteq> CHR '','') (skip_cfws date);
          p = (if deref p = CHR '','' then skip_cfws (tl p) else p)
      in
      do { r \<leftarrow> parse_by_rule p lax_base_rule 0 (replicate 6 0);
           case r of None \<Rightarrow> Some (- 1) | Some (p, vs) \<Rightarrow>
      do { let t = zero_tm\<lparr>tm_mday := vs ! 0, tm_mon := vs ! 1, tm_year := vs ! 2, tm_hour := vs ! 3, tm_min := vs ! 5\<rparr>;
           r \<leftarrow> parse_seconds lax_seconds_rule p vs t;
           case r of None \<Rightarrow> Some (- 1) | Some (p, vs, t) \<Rightarrow>
      do { r \<leftarrow> lax_zones p vs 0 False;
           case r of None \<Rightarrow> Some (- 1) | Some (zone_offset, have_zone) \<Rightarrow>
           Some (let t = fix_year t in
                 if \<not> valid_tm t then - 1
                 else let result = (if have_zone then mktime_utc t else mktime t)
                      in if result = - 1 then result else result - zone_offset) } } })"

section \<open>Seconds since the epoch\<close>

text \<open>The expression by which POSIX defines them; \<open>posix_yday\<close> is \<open>tm_yday\<close>.\<close>

definition posix_yday :: "tm \<Rightarrow> int" where
  "posix_yday t =
     [0, 31, 59, 90, 120, 151, 181, 212, 243, 273, 304, 334] ! nat (tm_mon t) + tm_mday t - 1 +
     (if tm_mon t > 1 \<and> ISLEAP (tm_year t + 1900) then 1 else 0)"

definition posix_time :: "tm \<Rightarrow> int" where
  "posix_time t =
     tm_sec t + tm_min t * 60 + tm_hour t * 3600 + posix_yday t * 86400 + (tm_year t - 70) * 31536000 +
     ((tm_year t - 69) div 4) * 86400 - ((tm_year t - 1) div 100) * 86400 + ((tm_year t + 299) div 400) * 86400"

lemma div_step: "0 < m \<Longrightarrow> (k + 1) div m = k div m + (if (k + 1) mod m = 0 then 1 else 0)" for k m :: int
proof -
  assume m: "0 < m"
  have k: "k = m * (k div m) + k mod m" by simp
  have b: "0 \<le> k mod m" "k mod m < m" using m by simp_all
  show ?thesis
  proof (cases "k mod m = m - 1")
    case True
    then have "k + 1 = m * (k div m + 1)" unfolding distrib_left mult_1_right using k by linarith
    then have "(k + 1) div m = k div m + 1" "(k + 1) mod m = 0" using m by simp_all
    then show ?thesis by simp
  next
    case False
    then have r: "0 \<le> k mod m + 1" "k mod m + 1 < m" using b by simp_all
    have e: "k + 1 = m * (k div m) + (k mod m + 1)" using k by linarith
    have "(k + 1) div m = k div m" "(k + 1) mod m = k mod m + 1"
      using int_div_pos_eq [OF e r] int_mod_pos_eq [OF e r] by simp_all
    moreover have "k mod m + 1 \<noteq> 0" using b(1) by linarith
    ultimately show ?thesis by simp
  qed
qed

lemma leap_days:
  "(\<Sum>i\<leftarrow>[1970..1969 + int n]. 365 + (if ISLEAP i then 1 else 0)) =
   int n * 365 + (int n + 1) div 4 - (int n + 69) div 100 + (int n + 369) div 400"
proof (induction n)
  case (Suc n)
  let ?y = "1970 + int n"
  have u: "[1970..1969 + int (Suc n)] = [1970..1969 + int n] @ [?y]"
    using upto_rec2 [of 1970 ?y] by simp
  have m: "(int n + 1 + 1) mod 4 = 0 \<longleftrightarrow> ?y mod 4 = 0" "(int n + 69 + 1) mod 100 = 0 \<longleftrightarrow> ?y mod 100 = 0"
    "(int n + 369 + 1) mod 400 = 0 \<longleftrightarrow> ?y mod 400 = 0" by presburger+
  have d: "(int (Suc n) + 1) div 4 = (int n + 1) div 4 + (if ?y mod 4 = 0 then 1 else 0)"
    "(int (Suc n) + 69) div 100 = (int n + 69) div 100 + (if ?y mod 100 = 0 then 1 else 0)"
    "(int (Suc n) + 369) div 400 = (int n + 369) div 400 + (if ?y mod 400 = 0 then 1 else 0)"
    subgoal using div_step [of 4 "int n + 1"] unfolding m by simp
    subgoal using div_step [of 100 "int n + 69"] unfolding m by simp
    subgoal using div_step [of 400 "int n + 369"] unfolding m by simp
    done
  have "?y mod 400 = 0 \<Longrightarrow> ?y mod 100 = 0" "?y mod 100 = 0 \<Longrightarrow> ?y mod 4 = 0" by presburger+
  then have "(if ISLEAP ?y then 1 else 0 :: int) = (if ?y mod 4 = 0 then 1 else 0) - (if ?y mod 100 = 0 then 1 else 0) +
      (if ?y mod 400 = 0 then 1 else 0)" unfolding ISLEAP_def by presburger
  then show ?case unfolding u d map_append sum_list_append Suc by simp
qed simp

lemma month_days:
  assumes "0 \<le> m" and "m \<le> 11"
  shows "(\<Sum>i\<leftarrow>[0..m - 1]. MONTHDAYS ! nat i) = [0, 31, 59, 90, 120, 151, 181, 212, 243, 273, 304, 334] ! nat m"
proof -
  have "\<forall>m\<in>set [0..11]. (\<Sum>i\<leftarrow>[0..m - 1]. MONTHDAYS ! nat i) =
      [0, 31, 59, 90, 120, 151, 181, 212, 243, 273, 304, 334] ! nat m" by code_simp
  then show ?thesis using assms by auto
qed

lemma mktime_utc_eq:
  assumes "0 \<le> tm_mon t" and "tm_mon t \<le> 11" and "70 \<le> tm_year t"
  shows "mktime_utc t = posix_time t"
proof -
  have n: "int (nat (tm_year t - 70)) = tm_year t - 70" using assms(3) by simp
  have y: "(\<Sum>i\<leftarrow>[1970..tm_year t + 1899]. 365 + (if ISLEAP i then 1 else 0)) =
      (tm_year t - 70) * 365 + (tm_year t - 69) div 4 - (tm_year t - 1) div 100 + (tm_year t + 299) div 400"
    using leap_days [of "nat (tm_year t - 70)"] unfolding n by (simp add: algebra_simps)
  show ?thesis
    using assms unfolding mktime_utc_def Let_def y month_days [OF assms(1,2)] posix_time_def posix_yday_def
    by (simp add: algebra_simps)
qed

text \<open>
  C35: \<open>mktime_utc\<close>, which adds up years and months in loops, computes the seconds since the epoch
  as POSIX defines them, in all years from 1970 on, leap years of every kind included.
\<close>

theorem mktime_utc_posix:
  assumes "0 \<le> tm_mon t" and "tm_mon t \<le> 11" and "70 \<le> tm_year t"
  shows "mktime_utc t = posix_time t"
  by (rule mktime_utc_eq [OF assms])

theorem mktime_utc_posix_witness:
  "mktime_utc (zero_tm\<lparr>tm_year := 100, tm_mon := 1, tm_mday := 29, tm_hour := 12\<rparr>) = 951825600"
  using mktime_utc_posix [of "zero_tm\<lparr>tm_year := 100, tm_mon := 1, tm_mday := 29, tm_hour := 12\<rparr>"]
  by (simp add: zero_tm_def posix_time_def posix_yday_def)

section \<open>What is generated reads back\<close>

lemma number_loop_digits:
  assumes "list_all c_isdigit ds" and "k + length ds \<le> mx" and "k + length ds = mx \<or> \<not> c_isdigit (deref r)"
  shows "number_loop (ds @ r) k mx v = (r, k + length ds, fold (\<lambda>c v. v * 10 + (int (ord c) - 48)) ds v)"
  using assms
proof (induction ds arbitrary: k v)
  case Nil
  then show ?case by (cases r) auto
next
  case (Cons c ds)
  then show ?case using Cons.IH [of "k + 1"] by simp
qed

lemma fold_dec: "list_all c_isdigit ds \<Longrightarrow>
  fold (\<lambda>c v. v * 10 + (int (ord c) - 48)) ds (int n) = int (fold (\<lambda>c v. v * 10 + (ord c - 48)) ds n)"
proof (induction ds arbitrary: n)
  case (Cons c ds)
  then have e: "int n * 10 + (int (ord c) - 48) = int (n * 10 + (ord c - 48))" by (simp add: c_isdigit_def)
  have "list_all c_isdigit ds" using Cons.prems by simp
  from Cons.IH [OF this, of "n * 10 + (ord c - 48)"] show ?case by (simp only: fold_simps e)
qed simp

lemma dec_int_value:
  assumes "0 \<le> i"
  shows "list_all c_isdigit (dec_int i)" "fold (\<lambda>c v. v * 10 + (int (ord c) - 48)) (dec_int i) 0 = i"
proof -
  have d: "dec_int i = dec_nat (nat i)" using assms by (simp add: dec_int_def)
  show "list_all c_isdigit (dec_int i)" unfolding d by (rule dec_nat_digits)
  show "fold (\<lambda>c v. v * 10 + (int (ord c) - 48)) (dec_int i) 0 = i"
    using fold_dec [OF dec_nat_digits [of "nat i"], of 0] assms
    unfolding d dec_value_dec_nat [unfolded dec_value_def] by simp
qed

text \<open>A numeral of two digits, as \<open>%02d\<close> writes it.\<close>

lemma fmt02d_digits:
  assumes "0 \<le> i" and "i < 100"
  shows "list_all c_isdigit (fmt02d i)" "length (fmt02d i) = 2"
    "fold (\<lambda>c v. v * 10 + (int (ord c) - 48)) (fmt02d i) 0 = i"
proof -
  have z: "c_isdigit (CHR ''0'')" "int (ord (CHR ''0'')) = 48" by (simp_all add: c_isdigit_def ord_def)
  show "list_all c_isdigit (fmt02d i)" "fold (\<lambda>c v. v * 10 + (int (ord c) - 48)) (fmt02d i) 0 = i"
    using dec_int_value [OF assms(1)] z by (auto simp: fmt02d_def)
  show "length (fmt02d i) = 2"
  proof (cases "i < 10")
    case True
    then have "nat i < 10" by linarith
    then have "dec_nat (nat i) = [chr (48 + nat i)]" by (subst dec_nat.simps) simp
    then show ?thesis using True assms(1) by (simp add: fmt02d_def dec_int_def)
  next
    case False
    then have "\<not> nat i < 10" "nat i div 10 < 10" using assms(2) by linarith+
    then have "length (dec_nat (nat i)) = 2" by (subst dec_nat.simps, subst dec_nat.simps) simp
    then show ?thesis using False by (simp add: fmt02d_def dec_int_def)
  qed
qed

lemma skip_cfws_plain:
  "c \<notin> {SP, TAB, LF, CR, CHR ''('', CHR '')'', CHR 0x5C} \<Longrightarrow> skip_cfws (c # r) = c # r"
  "skip_cfws (SP # r) = skip_cfws r" "skip_cfws [] = []"
  by (simp_all add: skip_cfws_def)

lemma digit_no_cfws: "c_isdigit c \<or> c_isalpha c \<Longrightarrow> c \<notin> {SP, TAB, LF, CR, CHR ''('', CHR '')'', CHR 0x5C}"
  by (auto simp: c_isdigit_def c_isalpha_def c_isupper_def c_islower_def ord_def)

lemma skip_cfws_digits: "list_all c_isdigit ds \<Longrightarrow> ds \<noteq> [] \<Longrightarrow> skip_cfws (ds @ r) = ds @ r"
  using digit_no_cfws by (cases ds) (simp_all add: skip_cfws_plain(1))

text \<open>Steps of the rules on what \<open>date_text\<close> writes.\<close>

lemma rule_number:
  assumes "list_all c_isdigit ds" and "mn \<le> length ds" and "length ds \<le> mx"
    and "length ds = mx \<or> \<not> c_isdigit (deref r)"
  shows "parse_by_rule (ds @ r) (number_rule mn mx # rules) i vs =
    parse_by_rule (skip_cfws r) rules (i + 1) (vs[i := fold (\<lambda>c v. v * 10 + (int (ord c) - 48)) ds 0])"
  using number_loop_digits [OF assms(1), of 0 mx r 0] assms
  by (simp add: apply_rule_def parse_number_def number_rule_def)

lemma rule_delim: "parse_by_rule (c # r) (delim_rule c # rules) i vs = parse_by_rule (skip_cfws r) rules (i + 1) vs"
  by (simp add: apply_rule_def delim_rule_def)

lemma find_cong_set: "(\<And>x. x \<in> set xs \<Longrightarrow> P x = Q x) \<Longrightarrow> find P xs = find Q xs"
  by (induction xs) auto

lemma table_find_cong: "(\<And>e. e \<in> set t \<Longrightarrow> P e = Q e) \<Longrightarrow> table_find P t = table_find Q t"
  unfolding table_find_def by (rule find_cong_set) simp

lemma rule_lookup:
  assumes "table_find (\<lambda>e. strncaseeq e w 3) t = Some k" and "length w = 3"
  shows "parse_by_rule (w @ r) (lookup_rule t # rules) i vs = parse_by_rule (skip_cfws r) rules (i + 1) (vs[i := int k])"
proof -
  have "table_find (\<lambda>e. strncaseeq e (w @ r) 3) t = Some k"
    using assms by (simp add: strncaseeq_def)
  then show ?thesis using assms(2) by (simp add: apply_rule_def parse_lookup_def lookup_rule_def ptr_add_def)
qed

lemma table_lookups:
  assumes "0 \<le> k"
  shows "k \<le> 6 \<Longrightarrow> table_find (\<lambda>e. strncaseeq e (WEEKDAY ! nat k) 3) WEEKDAY = Some (nat k) \<and>
      length (WEEKDAY ! nat k) = 3 \<and> c_isalpha (deref (WEEKDAY ! nat k))"
    "k \<le> 11 \<Longrightarrow> table_find (\<lambda>e. strncaseeq e (MONTH ! nat k) 3) MONTH = Some (nat k) \<and>
      length (MONTH ! nat k) = 3 \<and> c_isalpha (deref (MONTH ! nat k))"
proof -
  have "\<forall>k\<in>set [0..6]. table_find (\<lambda>e. strncaseeq e (WEEKDAY ! nat k) 3) WEEKDAY = Some (nat k) \<and>
      length (WEEKDAY ! nat k) = 3 \<and> c_isalpha (deref (WEEKDAY ! nat k))"
    "\<forall>k\<in>set [0..11]. table_find (\<lambda>e. strncaseeq e (MONTH ! nat k) 3) MONTH = Some (nat k) \<and>
      length (MONTH ! nat k) = 3 \<and> c_isalpha (deref (MONTH ! nat k))" by code_simp+
  then show "k \<le> 6 \<Longrightarrow> table_find (\<lambda>e. strncaseeq e (WEEKDAY ! nat k) 3) WEEKDAY = Some (nat k) \<and>
      length (WEEKDAY ! nat k) = 3 \<and> c_isalpha (deref (WEEKDAY ! nat k))"
    "k \<le> 11 \<Longrightarrow> table_find (\<lambda>e. strncaseeq e (MONTH ! nat k) 3) MONTH = Some (nat k) \<and>
      length (MONTH ! nat k) = 3 \<and> c_isalpha (deref (MONTH ! nat k))" using assms by auto
qed

lemma skip_cfws_word: "length w = 3 \<Longrightarrow> c_isalpha (deref w) \<Longrightarrow> skip_cfws (w @ r) = w @ r"
  using digit_no_cfws by (cases w) (simp_all add: skip_cfws_plain(1))

text \<open>A calendar time as the C library gives it, up to the year 9999.\<close>

definition tm_ok :: "tm \<Rightarrow> bool" where
  "tm_ok t \<longleftrightarrow> valid_tm t \<and> 0 \<le> tm_sec t \<and> 0 \<le> tm_min t \<and> 0 \<le> tm_hour t \<and> 0 \<le> tm_wday t \<and> tm_wday t \<le> 6 \<and>
     tm_year t \<le> 8099"

definition zone_ok :: "octets \<Rightarrow> bool" where
  "zone_ok z \<longleftrightarrow> set z \<inter> {CHR ''('', CHR '')'', CHR 0x5C} = {}"

lemma tm_ok_ranges:
  assumes "tm_ok t"
  shows "0 \<le> tm_sec t" "tm_sec t < 100" "0 \<le> tm_min t" "tm_min t < 100" "0 \<le> tm_hour t" "tm_hour t < 100"
    "1 \<le> tm_mday t" "tm_mday t \<le> 31" "0 \<le> tm_mon t" "tm_mon t \<le> 11" "70 \<le> tm_year t" "tm_year t \<le> 8099"
    "0 \<le> tm_wday t" "tm_wday t \<le> 6"
proof -
  have m: "0 \<le> tm_mon t" "tm_mon t \<le> 11" and
    d: "tm_mday t \<le> MONTHDAYS ! nat (tm_mon t) \<or> tm_mday t \<le> 29"
    using assms by (auto simp: tm_ok_def valid_tm_def split: if_splits)
  have "\<forall>i\<in>set [0..11]. MONTHDAYS ! nat i \<le> 31" by code_simp
  then have "MONTHDAYS ! nat (tm_mon t) \<le> 31" using m by auto
  then show "tm_mday t \<le> 31" using d by linarith
  show "0 \<le> tm_sec t" "tm_sec t < 100" "0 \<le> tm_min t" "tm_min t < 100" "0 \<le> tm_hour t" "tm_hour t < 100"
    "1 \<le> tm_mday t" "0 \<le> tm_mon t" "tm_mon t \<le> 11" "70 \<le> tm_year t" "tm_year t \<le> 8099"
    "0 \<le> tm_wday t" "tm_wday t \<le> 6"
    using assms by (auto simp: tm_ok_def valid_tm_def split: if_splits)
qed

lemma dec_int_length2:
  "1 \<le> i \<Longrightarrow> i \<le> 31 \<Longrightarrow> 1 \<le> length (dec_int i) \<and> length (dec_int i) \<le> 2"
  "1000 \<le> i \<Longrightarrow> i \<le> 9999 \<Longrightarrow> length (dec_int i) = 4"
proof -
  have l: "length (dec_nat (nat i)) \<le> k" if "i < 10 ^ k" "0 < k" for k
    using that dec_nat_length [of "nat i" k] by (simp add: nat_less_iff zless_nat_eq_int_zless)
  show "1 \<le> i \<Longrightarrow> i \<le> 31 \<Longrightarrow> 1 \<le> length (dec_int i) \<and> length (dec_int i) \<le> 2"
    using l [of 2] dec_nat_neq_Nil [of "nat i"] by (cases "dec_nat (nat i)") (auto simp: dec_int_def)
  assume i: "1000 \<le> i" "i \<le> 9999"
  define n where "n = nat i"
  have n: "1000 \<le> n" "n < 10000" using i by (simp_all add: n_def)
  have s: "\<not> n < 10" "\<not> n div 10 < 10" "\<not> n div 10 div 10 < 10" "n div 10 div 10 div 10 < 10" using n by simp_all
  have "length (dec_nat n) = 4"
    by (subst dec_nat.simps, simp only: s if_False, subst dec_nat.simps, simp only: s if_False,
        subst dec_nat.simps, simp only: s if_False, subst dec_nat.simps) (use s in simp)
  then show "length (dec_int i) = 4" using i by (simp add: dec_int_def n_def)
qed

lemma skip_colon: "skip_cfws (CHR '':'' # r) = CHR '':'' # r" "skip_cfws (CHR '','' # r) = CHR '','' # r"
  "skip_cfws (CHR ''+'' # r) = CHR ''+'' # r" "skip_cfws (CHR ''-'' # r) = CHR ''-'' # r"
  by (simp_all add: skip_cfws_plain)

lemma not_digit_seps: "\<not> c_isdigit (CHR '':'')" "\<not> c_isdigit SP" "\<not> c_isdigit (CHR '','')"
  by (simp_all add: c_isdigit_def ord_def)

lemma parse_base:
  assumes "tm_ok t" and "r = CHR '':'' # r'"
  shows "parse_by_rule (WEEKDAY ! nat (tm_wday t) @ '', '' @ dec_int (tm_mday t) @ '' '' @ MONTH ! nat (tm_mon t) @ '' '' @
      dec_int (1900 + tm_year t) @ '' '' @ fmt02d (tm_hour t) @ '':'' @ fmt02d (tm_min t) @ r) base_rule 0 (replicate 8 0) =
    Some (Some (r, [tm_wday t, 0, tm_mday t, tm_mon t, 1900 + tm_year t, tm_hour t, 0, tm_min t]))"
proof -
  note tr = tm_ok_ranges [OF assms(1)]
  note w = table_lookups(1) [OF tr(13,14)] and m = table_lookups(2) [OF tr(9,10)]
  have md: "1 \<le> length (dec_int (tm_mday t))" "length (dec_int (tm_mday t)) \<le> 2" "dec_int (tm_mday t) \<noteq> []"
    using dec_int_length2(1) [OF tr(7,8)] by auto
  have y: "length (dec_int (1900 + tm_year t)) = 4" using dec_int_length2(2) [of "1900 + tm_year t"] tr(11,12) by simp
  have yn: "dec_int (1900 + tm_year t) \<noteq> []" using y by auto
  have v: "list_all c_isdigit (dec_int (tm_mday t))" "list_all c_isdigit (dec_int (1900 + tm_year t))"
    "fold (\<lambda>c v. v * 10 + (int (ord c) - 48)) (dec_int (tm_mday t)) 0 = tm_mday t"
    "fold (\<lambda>c v. v * 10 + (int (ord c) - 48)) (dec_int (1900 + tm_year t)) 0 = 1900 + tm_year t"
    using dec_int_value [of "tm_mday t"] dec_int_value [of "1900 + tm_year t"] tr(7,11) by simp_all
  note h = fmt02d_digits [OF tr(5,6)] and mi = fmt02d_digits [OF tr(3,4)]
  have n: "fmt02d (tm_hour t) \<noteq> []" "fmt02d (tm_min t) \<noteq> []" using h(2) mi(2) by auto
  have r: "\<not> c_isdigit (deref r)" "skip_cfws r = r" using assms(2) by (simp_all add: not_digit_seps skip_colon)
  have e: "replicate 8 (0::int) = [0, 0, 0, 0, 0, 0, 0, 0]" by (simp add: numeral_eq_Suc)
  have wl: "int (nat (tm_wday t)) = tm_wday t" "int (nat (tm_mon t)) = tm_mon t" using tr(9,13) by simp_all
  have le: "(2::nat) \<le> 4" by simp
  show ?thesis
    unfolding base_rule_def e append_Cons append_Nil
    by (simp only: rule_lookup [OF conjunct1 [OF w] conjunct1 [OF conjunct2 [OF w]]] skip_colon rule_delim skip_cfws_plain(2)
          skip_cfws_digits [OF v(1) md(3)] skip_cfws_digits [OF v(2) yn] skip_cfws_digits [OF h(1) n(1)]
          skip_cfws_digits [OF mi(1) n(2)] rule_number [OF v(1)] rule_number [OF v(2)] rule_number [OF h(1)]
          rule_number [OF mi(1)] md y h mi not_digit_seps deref_simps not_False_eq_True r v wl simp_thms le order.refl
          skip_cfws_word [OF conjunct1 [OF conjunct2 [OF m]] conjunct2 [OF conjunct2 [OF m]]]
          rule_lookup [OF conjunct1 [OF m] conjunct1 [OF conjunct2 [OF m]]] parse_by_rule.simps(1)) simp
qed

lemma parse_seconds_text:
  assumes "0 \<le> s" and "s < 100" and "sg = CHR ''+'' \<or> sg = CHR ''-''" and "length vs = 8"
  shows "parse_seconds seconds_rule (CHR '':'' # fmt02d s @ SP # sg # r) vs t =
    Some (Some (sg # r, vs[1 := s], t\<lparr>tm_sec := s\<rparr>))"
proof -
  note f = fmt02d_digits [OF assms(1,2)]
  have n: "fmt02d s \<noteq> []" using f(2) by auto
  have "parse_by_rule (CHR '':'' # fmt02d s @ SP # sg # r) seconds_rule 0 vs = Some (Some (sg # r, vs[1 := s]))"
    using assms(3) unfolding seconds_rule_def
    by (auto simp only: rule_delim skip_cfws_digits [OF f(1) n] rule_number [OF f(1)] f order.refl simp_thms
          skip_cfws_plain(2) skip_colon parse_by_rule.simps(1) One_nat_def add_0)
  then show ?thesis using assms(4) by (simp add: parse_seconds_def)
qed

lemma parse_zone_text:
  assumes "0 \<le> h" "h < 100" "0 \<le> m" "m < 100" and "skip_cfws r = []" and "length vs = 8"
  shows "parse_zone ((if east then CHR ''+'' else CHR ''-'') # fmt02d h @ fmt02d m @ r) vs =
    Some (Some ([], (h * 60 + m) * 60 * (if east then 1 else - 1)))"
proof -
  note fh = fmt02d_digits [OF assms(1,2)] and fm = fmt02d_digits [OF assms(3,4)]
  have n: "fmt02d m \<noteq> []" using fm(2) by auto
  have "parse_by_rule (fmt02d h @ fmt02d m @ r) zone_rule 0 vs = Some (Some ([], vs[0 := h, 1 := m]))"
    unfolding zone_rule_def
    by (simp only: rule_number [OF fh(1)] rule_number [OF fm(1)] fh fm order.refl simp_thms
          skip_cfws_digits [OF fm(1) n] assms(5) parse_by_rule.simps(1) add_0)
  then show ?thesis using assms(6) by (auto simp: parse_zone_def)
qed

lemma skip_comment:
  assumes "zone_ok z"
  shows "skip_cfws ('' ('' @ z @ '')'') = []"
proof -
  have "skip_cfws_loop 1 (z @ '')'') = []"
    using assms by (induction z) (auto simp: zone_ok_def)
  then show ?thesis by (simp add: skip_cfws_def)
qed

lemma mktime_utc_nonneg:
  assumes "tm_ok t"
  shows "0 \<le> mktime_utc t"
proof -
  note tr = tm_ok_ranges [OF assms]
  have "0 \<le> (\<Sum>i\<leftarrow>[1970..tm_year t + 1899]. 365 + (if ISLEAP i then 1 else (0::int)))"
    by (rule sum_list_nonneg) auto
  moreover have "\<forall>i\<in>set [0..11]. 0 \<le> MONTHDAYS ! nat i" by code_simp
  then have "0 \<le> (\<Sum>i\<leftarrow>[0..tm_mon t - 1]. MONTHDAYS ! nat i)" using tr(10) by (intro sum_list_nonneg) auto
  ultimately show ?thesis using tr(1,3,5,7,9-11) by (simp add: mktime_utc_def Let_def)
qed

lemma mktime_utc_cong:
  assumes "tm_sec t' = tm_sec t" "tm_min t' = tm_min t" "tm_hour t' = tm_hour t" "tm_mday t' = tm_mday t"
    "tm_mon t' = tm_mon t" "tm_year t' = tm_year t"
  shows "mktime_utc t' = mktime_utc t" "valid_tm t' = valid_tm t"
  unfolding mktime_utc_def valid_tm_def assms by simp_all

text \<open>What \<open>makedate\<close> writes is read by \<open>parsedate_rfc5322\<close> as the calendar time less the zone.\<close>

lemma parse_date_text:
  assumes "tm_ok t" and "0 \<le> h" "h < 100" "0 \<le> m" "m < 100" and "skip_cfws r = []"
  shows "parsedate_rfc5322 (date_text t east h m @ r) = Some (mktime_utc t - (h * 60 + m) * 60 * (if east then 1 else - 1))"
proof -
  note tr = tm_ok_ranges [OF assms(1)]
  let ?z = "(if east then CHR ''+'' else CHR ''-'') # fmt02d h @ fmt02d m @ r"
  let ?s = "CHR '':'' # fmt02d (tm_sec t) @ SP # ?z"
  let ?p = "WEEKDAY ! nat (tm_wday t) @ '', '' @ dec_int (tm_mday t) @ '' '' @ MONTH ! nat (tm_mon t) @ '' '' @
      dec_int (1900 + tm_year t) @ '' '' @ fmt02d (tm_hour t) @ '':'' @ fmt02d (tm_min t) @ ?s"
  have p: "date_text t east h m @ r = ?p" by (simp add: date_text_def)
  note w = table_lookups(1) [OF tr(13,14)]
  have sk: "skip_cfws ?p = ?p" "c_isalpha (deref ?p)"
    using skip_cfws_word [of "WEEKDAY ! nat (tm_wday t)"] w by (simp_all, cases "WEEKDAY ! nat (tm_wday t)", simp_all)
  let ?vs = "[tm_wday t, 0, tm_mday t, tm_mon t, 1900 + tm_year t, tm_hour t, 0, tm_min t]"
  let ?t = "zero_tm\<lparr>tm_mday := tm_mday t, tm_mon := tm_mon t, tm_year := 1900 + tm_year t, tm_hour := tm_hour t,
      tm_min := tm_min t\<rparr>"
  have b: "parse_by_rule ?p base_rule 0 (replicate 8 0) = Some (Some (?s, ?vs))"
    by (rule parse_base [OF assms(1)]) simp
  have s: "parse_seconds seconds_rule ?s ?vs ?t = Some (Some (?z, ?vs[1 := tm_sec t], ?t\<lparr>tm_sec := tm_sec t\<rparr>))"
    using parse_seconds_text [OF tr(1,2), of "if east then CHR ''+'' else CHR ''-''" ?vs "fmt02d h @ fmt02d m @ r" ?t]
    by simp
  have z: "parse_zone ?z (?vs[1 := tm_sec t]) = Some (Some ([], (h * 60 + m) * 60 * (if east then 1 else - 1)))"
    by (rule parse_zone_text [OF assms(2-6)]) simp
  have sel: "?vs ! 2 = tm_mday t" "?vs ! 3 = tm_mon t" "?vs ! 4 = 1900 + tm_year t" "?vs ! 5 = tm_hour t" "?vs ! 7 = tm_min t"
    by simp_all
  let ?f = "fix_year (?t\<lparr>tm_sec := tm_sec t\<rparr>)"
  have f: "tm_sec ?f = tm_sec t" "tm_min ?f = tm_min t" "tm_hour ?f = tm_hour t" "tm_mday ?f = tm_mday t"
    "tm_mon ?f = tm_mon t" "tm_year ?f = tm_year t"
    using tr(11,12) by (simp_all add: fix_year_def zero_tm_def)
  have v: "valid_tm ?f" using mktime_utc_cong(2) [OF f] assms(1) by (simp add: tm_ok_def)
  have "0 \<le> mktime_utc t" by (rule mktime_utc_nonneg [OF assms(1)])
  then show ?thesis
    unfolding p parsedate_rfc5322_def Let_def sk if_P [OF sk(2)] b sel bind.bind_lunit option.case prod.case s z
    by (simp add: skip_cfws_plain(3) mktime_utc_cong(1) [OF f] v)
qed

lemma date_text_length:
  assumes "tm_ok t" and "0 \<le> h" "h < 100" "0 \<le> m" "m < 100"
  shows "length (date_text t east h m) \<le> 31"
proof -
  note tr = tm_ok_ranges [OF assms(1)]
  have "length (dec_int (tm_mday t)) \<le> 2" "length (dec_int (1900 + tm_year t)) = 4"
    using dec_int_length2(1) [OF tr(7,8)] dec_int_length2(2) [of "1900 + tm_year t"] tr(11,12) by simp_all
  then show ?thesis
    using table_lookups(1) [OF tr(13,14)] table_lookups(2) [OF tr(9,10)] fmt02d_digits(2) [OF tr(1,2)]
      fmt02d_digits(2) [OF tr(3,4)] fmt02d_digits(2) [OF tr(5,6)] fmt02d_digits(2) [OF assms(2,3)]
      fmt02d_digits(2) [OF assms(4,5)]
    by (simp add: date_text_def)
qed

text \<open>
  C34: dates round-trip. The date that \<open>makedate\<close> writes into a buffer of at least 32 octets, for
  local time or for universal time, is not cut off, and \<open>parsedate_rfc5322\<close> reads it back as the
  time it was made for; the conversions of the C library are taken at their word, that a calendar
  time plus the offset of its zone is the time in the sense of POSIX.
\<close>

theorem date_roundtrip:
  assumes "r = (if date = - 1 then now else date)" and "t = (if local then localtime r else gmtime r)"
    and "tm_ok t" and "posix_time t = r + (if local then tm_gmtoff t else 0)"
    and "\<bar>tm_gmtoff t\<bar> < 25 * 3600" and "60 dvd tm_gmtoff t" and "zone_ok (tm_zone t)" and "32 \<le> buflen"
  shows "\<exists>s. makedate gmtime localtime now date local buflen = Some s \<and> length s < buflen \<and>
    parsedate_rfc5322 s = Some r"
proof -
  let ?o = "tm_gmtoff t"
  define east where "east \<longleftrightarrow> local \<and> 0 \<le> ?o"
  define h where "h = (if local then \<bar>?o\<bar> div 3600 else 0)"
  define m where "m = (if local then \<bar>?o\<bar> mod 3600 div 60 else 0)"
  define z where "z = (if local then tm_zone t else ''UTC'')"
  have b: "0 \<le> h" "h \<le> 24" "h < 100" "0 \<le> m" "m < 100"
    using assms(5) by (auto simp: h_def m_def)
  have "60 dvd \<bar>?o\<bar>" using assms(6) by simp
  then obtain k where k: "\<bar>?o\<bar> = 60 * k" by (rule dvdE)
  have "(60 * k) div (60 * 60) = k div 60" "(60 * k) mod (60 * 60) = 60 * (k mod 60)"
    by (rule div_mult_mult1, simp) (rule mod_mult_mult1)
  then have "\<bar>?o\<bar> div 3600 = k div 60" "\<bar>?o\<bar> mod 3600 div 60 = k mod 60" unfolding k by simp_all
  then have "(\<bar>?o\<bar> div 3600 * 60 + \<bar>?o\<bar> mod 3600 div 60) * 60 = \<bar>?o\<bar>" using k by (simp only: div_mult_mod_eq)
  then have off: "(h * 60 + m) * 60 * (if east then 1 else - 1) = (if local then ?o else 0)"
    by (simp add: h_def m_def east_def)
  let ?d = "date_text t east h m"
  have len: "length ?d \<le> 31" by (rule date_text_length [OF assms(3) b(1,3-5)])
  then have tk: "take (buflen - 1) ?d = ?d" using assms(8) by simp
  have zo: "zone_ok z" using assms(7) by (auto simp: z_def zone_ok_def)
  let ?c = "if length ?d + 4 + length z \<le> buflen then '' ('' @ z @ '')'' else []"
  have e: "makedate gmtime localtime now date local buflen = Some (?d @ ?c)"
  proof -
    have lt: "local \<Longrightarrow> localtime r = t" "\<not> local \<Longrightarrow> gmtime r = t" using assms(2) by simp_all
    show ?thesis
      unfolding makedate_def Let_def assms(1) [symmetric] local_tz_offset_def
      using assms(8) b(2) tk lt by (cases "local") (simp_all add: east_def h_def m_def z_def)
  qed
  have "skip_cfws ?c = []" using skip_comment [OF zo] by (simp add: skip_cfws_def)
  from parse_date_text [OF assms(3) b(1,3-5) this, of east]
  have "parsedate_rfc5322 (?d @ ?c) = Some (mktime_utc t - (if local then ?o else 0))" unfolding off .
  moreover have "mktime_utc t = posix_time t" using tm_ok_ranges [OF assms(3)] by (intro mktime_utc_eq) simp_all
  moreover have "length (?d @ ?c) < buflen" using len assms(8) by simp
  ultimately show ?thesis using e assms(4) by (intro exI [of _ "?d @ ?c"]) simp
qed

definition example_tm :: tm where
  "example_tm = \<lparr>tm_sec = 18, tm_min = 45, tm_hour = 23, tm_mday = 31, tm_mon = 7, tm_year = 102, tm_wday = 6,
                 tm_gmtoff = -25200, tm_zone = ''PDT''\<rparr>"

theorem date_roundtrip_witness:
  "\<exists>s. makedate (\<lambda>_. zero_tm) (\<lambda>_. example_tm) 0 1030862718 True 64 = Some s \<and> parsedate_rfc5322 s = Some 1030862718"
proof -
  have "tm_ok example_tm"
    by (simp add: tm_ok_def valid_tm_def example_tm_def MONTHDAYS_def)
  then show ?thesis
    using date_roundtrip [of 1030862718 1030862718 0 example_tm True "\<lambda>_. example_tm" "\<lambda>_. zero_tm" 64]
    by (auto simp: posix_time_def posix_yday_def ISLEAP_def zone_ok_def example_tm_def)
qed

lemma find_letter: "strncaseeq (a # s) [c] (Suc 0) \<longleftrightarrow> c_tolower c = c_tolower a"
  by (auto simp: strncaseeq_def)

lemma zone_letter:
  "table_find (\<lambda>z. strncaseeq (fst z) [c] 1) ZONE_OFFSET =
    (let l = c_tolower c in
     if l = CHR ''u'' then Some 0 else if l = CHR ''g'' then Some 1 else if l = CHR ''e'' then Some 2
     else if l = CHR ''c'' then Some 4 else if l = CHR ''m'' then Some 6 else if l = CHR ''p'' then Some 8 else None)"
proof -
  have t: "c_tolower (CHR ''U'') = CHR ''u''" "c_tolower (CHR ''G'') = CHR ''g''" "c_tolower (CHR ''E'') = CHR ''e''"
    "c_tolower (CHR ''C'') = CHR ''c''" "c_tolower (CHR ''M'') = CHR ''m''" "c_tolower (CHR ''P'') = CHR ''p''" by code_simp+
  have u: "[0..<10] = [0, 1, 2, 3, 4, 5, 6, 7, 8, 9::nat]" by (simp add: upt_rec)
  show ?thesis
    unfolding table_find_def ZONE_OFFSET_def Let_def by (simp add: u find_letter t)
qed

text \<open>
  The military zones. RFC 5322 asks that every single letter but J is read as a zone of offset
  zero, and so does the comment of \<open>parse_legacy_timezone\<close>. For U, G, E, C, M and P, with which the
  name of another zone begins, the code takes that zone and steps over all of its name, past the
  end of the string.
\<close>

theorem military_zones:
  "parse_legacy_timezone [c] False =
    (if \<not> c_isalpha c then Some None
     else if c_tolower c \<in> set ''ugecmp'' then None
     else if c = CHR ''J'' \<or> c = CHR ''j'' then Some None
     else Some (Some ([], 0)))"
  using zone_letter [of c]
  by (auto simp: parse_legacy_timezone_def Let_def ptr_add_def ZONE_OFFSET_def)

text \<open>
  The lax parser: whether a numeric zone is hours or hours and minutes goes by the number of octets
  up to the next word, so that a comment behind an hour makes it minutes: \<open>+5\<close> is five hours,
  \<open>+5 (x)\<close> five minutes.
\<close>

lemma lax_zone_comment:
  "lax_zones ''+5'' [0, 0, 0, 0, 0, 0] 0 False = Some (Some (5 * 3600, True))"
  "lax_zones ''+5 (x)'' [0, 0, 0, 0, 0, 0] 0 False = Some (Some (5 * 60, True))"
proof -
  have d: "c_isdigit (CHR ''5'')" "\<not> c_isdigit SP" "int (ord (CHR ''5'')) = 53" by code_simp+
  have s: "skip_cfws '' (x)'' = []" "skip_cfws [] = []" by (simp_all add: skip_cfws_def)
  show "lax_zones ''+5'' [0, 0, 0, 0, 0, 0] 0 False = Some (Some (5 * 3600, True))"
    by (subst lax_zones.simps, subst lax_zones.simps)
      (simp add: lax_zone_rule_def apply_rule_def number_rule_def parse_number_def d s)
  show "lax_zones ''+5 (x)'' [0, 0, 0, 0, 0, 0] 0 False = Some (Some (5 * 60, True))"
    by (subst lax_zones.simps, subst lax_zones.simps)
      (simp add: lax_zone_rule_def apply_rule_def number_rule_def parse_number_def d s)
qed

end
