(* ===== verification/Artclean.thy ===== *)
theory Artclean
  imports Artfields Date
begin

text \<open>
  The check of a received article (\<open>ARTclean\<close> of \<open>innd/art.c\<close>) and the split of its newsgroups
  (\<open>NGsplit\<close> of \<open>innd/ng.c\<close>). It works on the channel that the parser leaves (theory \<open>Artparse\<close>), with the
  message-ID check of \<open>Headers\<close> and the lax date parser of \<open>Date\<close>. The last theorem joins the parser and
  the check: which articles, as texts, are accepted, and what is kept of them.
\<close>

section \<open>Newsgroups\<close>

definition NG_ISSEP :: "char \<Rightarrow> bool" where
  "NG_ISSEP c \<longleftrightarrow> c = CHR '',''"

text \<open>
  \<open>None\<close> is the return at a colon. The loop's own increment steps over the octet that ended a name.
\<close>

function NGsplit_loop :: "octets \<Rightarrow> octets list \<Rightarrow> octets list option" where
  "NGsplit_loop p list =
     (let p1 = dropWhile (\<lambda>c. NG_ISSEP c \<or> ISWHITE c) p;
          name = takeWhile (\<lambda>c. \<not> NG_ISSEP c \<and> \<not> ISWHITE c) p1;
          p2 = drop (length name) p1 in
      if p1 = [] then Some list
      else if CHR '':'' \<in> set name then None
      else if p2 = [] then Some (list @ [name])
      else NGsplit_loop (tl p2) (list @ [name]))"
  by pat_completeness auto
termination
proof (relation "measure (\<lambda>(p, list). length p)", goal_cases)
  case (2 p list p1 name p2)
  have "length p1 \<le> length p" using 2(1) by (simp add: length_dropWhile_le)
  moreover have "length (tl p2) < length p1" using 2(3,4,6) by (cases p1) auto
  ultimately show ?case by simp
qed simp

declare NGsplit_loop.simps [simp del]

text \<open>The number of names and the list; after a colon the list is not meant to be used.\<close>

definition NGsplit :: "octets \<Rightarrow> nat \<times> octets list" where
  "NGsplit p = (case NGsplit_loop p [] of None \<Rightarrow> (0, []) | Some l \<Rightarrow> (length l, l))"

section \<open>The check\<close>

record artconf =
  linecountfuzz :: nat
  artcutoff :: nat
  laxmid :: bool

text \<open>The members of \<open>ARTDATA\<close> that the check fills in.\<close>

record artinfo =
  Arrived :: int
  Expires :: int
  Posted :: int
  Groupcount :: nat
  Newsgroups :: "octets list"

definition DATE_FUZZ :: int where "DATE_FUZZ = 24 * 60 * 60"

definition HDR__DATE :: nat where "HDR__DATE = 2"
definition HDR__EXPIRES :: nat where "HDR__EXPIRES = 4"
definition HDR__LINES :: nat where "HDR__LINES = 6"
definition HDR__NEWSGROUPS :: nat where "HDR__NEWSGROUPS = 8"
definition HDR__INJECTION_DATE :: nat where "HDR__INJECTION_DATE = 64"

text \<open>
  \<open>atol\<close>: white space, a sign, digits. A number beyond the range of \<open>long\<close> is cut to it, as \<open>strtol\<close>
  does, and \<open>atoi\<close> keeps its low 32 bits.
\<close>

definition atol :: "octets \<Rightarrow> int" where
  "atol s =
     (let s = dropWhile c_isspace s;
          neg = (deref s = CHR ''-'');
          s = (if neg \<or> deref s = CHR ''+'' then tl s else s);
          n = int (dec_value (takeWhile c_isdigit s)) in
      if neg then max (- (2 ^ 63)) (- n) else min (2 ^ 63 - 1) n)"

definition atoi :: "octets \<Rightarrow> int" where
  "atoi s = sint (word_of_int (atol s) :: 32 word)"

definition quoted :: "octets \<Rightarrow> octets" where
  "quoted s = [CHR 0x22] @ s @ [CHR 0x22]"

definition short :: "octets \<Rightarrow> octets" where
  "short p = MaxLength p (Some 0)"

text \<open>The first required header that is missing or came twice.\<close>

definition lacking :: "channel \<Rightarrow> nat option" where
  "lacking cp = find (\<lambda>i. header_type i = HTreq \<and> \<not> HDR_FOUND cp i) [0..<MAX_ARTHEADER]"

definition save_lastchars :: "octets \<Rightarrow> channel \<Rightarrow> channel" where
  "save_lastchars bp cp = fold (\<lambda>i cp. if HDR_FOUND cp i then HDR_LASTCHAR_SAVE bp cp i else cp) [0..<MAX_ARTHEADER] cp"

definition ARTclean ::
  "artconf \<Rightarrow> (tm \<Rightarrow> int) \<Rightarrow> int \<Rightarrow> octets \<Rightarrow> bool \<Rightarrow> channel \<Rightarrow> artinfo \<Rightarrow> (bool \<times> channel \<times> artinfo) option" where
  "ARTclean conf mktime now bp ihave cp info =
     (let info = info\<lparr>Arrived := now, Expires := 0, Posted := 0\<rparr>;
          cp = save_lastchars bp cp;
          fail = (\<lambda>cp info msg. Some (False, cp\<lparr>Error := (if ihave then ''437 '' else ''439 '') @ msg\<rparr>, info)) in
      case lacking cp of
        Some i \<Rightarrow>
          fail cp info ((if Length (HdrContent cp ! i) < 0 then ''Duplicate '' else ''Missing '')
                        @ quoted (header_name i) @ '' header'')
      | None \<Rightarrow>
      if \<not> IsValidMessageID (Some (HDR bp cp HDR__MESSAGE_ID)) True (laxmid conf) then
        fail (cp\<lparr>HdrContent := (HdrContent cp)[HDR__MESSAGE_ID := (HdrContent cp ! HDR__MESSAGE_ID)\<lparr>Length := 0\<rparr>]\<rparr>)
          info (''Bad '' @ quoted ''Message-ID'' @ '' header'')
      else if linecountfuzz conf \<noteq> 0 \<and> HDR_FOUND cp HDR__LINES \<and>
              int (linecountfuzz conf) < \<bar>Lines cp - atoi (HDR bp cp HDR__LINES)\<bar>
      then fail cp info (''Linecount '' @ short (HDR bp cp HDR__LINES) @ '' != '' @ dec_int (Lines cp) @
             '' +- '' @ dec_nat (linecountfuzz conf))
      else
        do { d \<leftarrow> parsedate_rfc5322_lax mktime (HDR bp cp HDR__DATE);
             if d = - 1 then
               fail cp (info\<lparr>Posted := d\<rparr>) (''Bad '' @ quoted ''Date'' @ '' header -- '' @ quoted (short (HDR bp cp HDR__DATE)))
             else
        do { let injected = HDR_FOUND cp HDR__INJECTION_DATE;
             let p = HDR bp cp (if injected then HDR__INJECTION_DATE else HDR__DATE);
             d \<leftarrow> (if injected then parsedate_rfc5322_lax mktime p else Some d);
             let info = info\<lparr>Posted := d\<rparr>;
             if injected \<and> d = - 1 then
               fail cp info (''Bad '' @ quoted ''Injection-Date'' @ '' header -- '' @ quoted (short p))
             else if artcutoff conf \<noteq> 0 \<and> d < now - int (artcutoff conf) * 24 * 60 * 60 then
               fail cp info (''Too old -- '' @ quoted (short p))
             else if now + DATE_FUZZ < d then
               fail cp info (''Article injected or posted in the future -- '' @ quoted (short p))
             else
        do { e \<leftarrow> (if HDR_FOUND cp HDR__EXPIRES then parsedate_rfc5322_lax mktime (HDR bp cp HDR__EXPIRES)
                   else Some (Expires info));
             let info = info\<lparr>Expires := (if e = - 1 then 0 else e)\<rparr>;
             let (n, groups) = NGsplit (HDR bp cp HDR__NEWSGROUPS);
             let info = info\<lparr>Groupcount := n, Newsgroups := groups\<rparr>;
             if n = 0 then fail cp info (''Unwanted character in '' @ quoted ''Newsgroups'' @ '' header'')
             else Some (True, cp, info) } } })"

section \<open>The names of the newsgroups\<close>

abbreviation ng_end :: "char \<Rightarrow> bool" where "ng_end c \<equiv> NG_ISSEP c \<or> ISWHITE c"

text \<open>The pieces between separators and blanks, and those of them that are not empty.\<close>

fun pieces :: "octets \<Rightarrow> octets list" where
  "pieces [] = [[]]"
| "pieces (c # cs) = (if ng_end c then [] # pieces cs else (c # hd (pieces cs)) # tl (pieces cs))"

definition ng_words :: "octets \<Rightarrow> octets list" where
  "ng_words p = filter (\<lambda>w. w \<noteq> []) (pieces p)"

lemma pieces_neq_Nil [simp]: "pieces p \<noteq> []"
  by (cases p) auto

lemma ng_words_end: "ng_end c \<Longrightarrow> ng_words (c # p) = ng_words p"
  by (auto simp: ng_words_def)

lemma ng_words_dropWhile: "ng_words (dropWhile ng_end p) = ng_words p"
  by (induction p) (auto simp: ng_words_end)

lemma pieces_word: "\<forall>c\<in>set w. \<not> ng_end c \<Longrightarrow> pieces (w @ p) = (w @ hd (pieces p)) # tl (pieces p)"
  by (induction w) auto

lemma ng_words_word:
  assumes "\<forall>c\<in>set w. \<not> ng_end c" "w \<noteq> []"
  shows "ng_words w = [w]" "ng_end c \<Longrightarrow> ng_words (w @ c # p) = w # ng_words p"
  using assms pieces_word [OF assms(1), of "[]"] pieces_word [OF assms(1), of "c # p"]
  by (auto simp: ng_words_def)

lemma NGsplit_loop_words:
  "NGsplit_loop p l = (if CHR '':'' \<in> set p then None else Some (l @ ng_words p))"
proof (induction p l rule: NGsplit_loop.induct)
  case (1 p l)
  define p1 where "p1 = dropWhile ng_end p"
  define name where "name = takeWhile (\<lambda>c. \<not> NG_ISSEP c \<and> \<not> ISWHITE c) p1"
  define p2 where "p2 = drop (length name) p1"
  have unf: "NGsplit_loop p l = (if p1 = [] then Some l else if CHR '':'' \<in> set name then None
      else if p2 = [] then Some (l @ [name]) else NGsplit_loop (tl p2) (l @ [name]))"
    unfolding p1_def name_def p2_def by (rule NGsplit_loop.simps [unfolded Let_def])
  have w: "ng_words p = ng_words p1" by (simp add: p1_def ng_words_dropWhile)
  have colon: "CHR '':'' \<in> set p \<longleftrightarrow> CHR '':'' \<in> set p1"
  proof -
    have "\<not> ng_end CHR '':''" by (simp add: NG_ISSEP_def ISWHITE_def)
    then show ?thesis unfolding p1_def by (induction p) auto
  qed
  have p1: "p1 = name @ p2"
    unfolding p2_def name_def dropWhile_eq_drop [symmetric] by (rule takeWhile_dropWhile_id [symmetric])
  have name: "\<forall>c\<in>set name. \<not> ng_end c" unfolding name_def by (auto dest: set_takeWhileD)
  show ?case
  proof (cases "p1 = []")
    case True
    then show ?thesis using unf w colon by (simp add: ng_words_def)
  next
    case False
    then have nn: "name \<noteq> []"
      using hd_dropWhile [of ng_end p] unfolding p1_def [symmetric] by (cases p1) (auto simp: name_def)
    show ?thesis
    proof (cases p2)
      case Nil
      then show ?thesis using unf w colon p1 False ng_words_word(1) [OF name nn] by simp
    next
      case (Cons c r)
      have "p2 = dropWhile (\<lambda>c. \<not> NG_ISSEP c \<and> \<not> ISWHITE c) p1"
        unfolding p2_def name_def by (simp add: dropWhile_eq_drop)
      then have c: "ng_end c"
        using Cons hd_dropWhile [of "\<lambda>c. \<not> NG_ISSEP c \<and> \<not> ISWHITE c" p1] by (metis list.distinct(1) list.sel(1))
      then have "c \<noteq> CHR '':''" by (auto simp: NG_ISSEP_def ISWHITE_def)
      moreover have "NGsplit_loop (tl p2) (l @ [name]) = (if CHR '':'' \<in> set r then None else Some (l @ name # ng_words r))"
        if "CHR '':'' \<notin> set name"
        using "1.IH" [OF p1_def name_def p2_def False that] Cons by simp
      ultimately show ?thesis using unf w colon p1 False Cons ng_words_word(2) [OF name nn c] by auto
    qed
  qed
qed

lemma NGsplit_words:
  "NGsplit p = (if CHR '':'' \<in> set p then (0, []) else (length (ng_words p), ng_words p))"
  by (simp add: NGsplit_def NGsplit_loop_words)

section \<open>Headers read back\<close>

lemma HDR_LASTCHAR_SAVE_nth:
  "\<exists>x. HdrContent (HDR_LASTCHAR_SAVE bp cp i) ! j = (HdrContent cp ! j)\<lparr>LastChar := x\<rparr>"
proof -
  have same: "\<exists>x. hc = hc\<lparr>LastChar := x\<rparr>" for hc :: HDRCONTENT by (rule exI [of _ "LastChar hc"]) simp
  show ?thesis
    using same by (cases "i = j"; cases "j < length (HdrContent cp)")
      (auto simp: HDR_LASTCHAR_SAVE_def Let_def nth_list_update nth_list_update_neq list_update_beyond split: option.split)
qed

lemma HDR_LASTCHAR_SAVE_sel:
  "HDR bp (HDR_LASTCHAR_SAVE bp cp i) j = HDR bp cp j"
  "Length (HdrContent (HDR_LASTCHAR_SAVE bp cp i) ! j) = Length (HdrContent cp ! j)"
  "Lines (HDR_LASTCHAR_SAVE bp cp i) = Lines cp" "Error (HDR_LASTCHAR_SAVE bp cp i) = Error cp"
proof -
  obtain x where "HdrContent (HDR_LASTCHAR_SAVE bp cp i) ! j = (HdrContent cp ! j)\<lparr>LastChar := x\<rparr>"
    using HDR_LASTCHAR_SAVE_nth by blast
  then show "HDR bp (HDR_LASTCHAR_SAVE bp cp i) j = HDR bp cp j"
    "Length (HdrContent (HDR_LASTCHAR_SAVE bp cp i) ! j) = Length (HdrContent cp ! j)"
    by (simp_all add: HDR_def split: option.split)
  show "Lines (HDR_LASTCHAR_SAVE bp cp i) = Lines cp" "Error (HDR_LASTCHAR_SAVE bp cp i) = Error cp"
    by (simp_all add: HDR_LASTCHAR_SAVE_def Let_def split: option.split)
qed

lemma save_lastchars_sel:
  "HDR bp (save_lastchars bp cp) j = HDR bp cp j \<and>
   Length (HdrContent (save_lastchars bp cp) ! j) = Length (HdrContent cp ! j) \<and>
   Lines (save_lastchars bp cp) = Lines cp \<and> Error (save_lastchars bp cp) = Error cp"
proof -
  have "HDR bp (fold (\<lambda>i cp. if HDR_FOUND cp i then HDR_LASTCHAR_SAVE bp cp i else cp) xs cp) j = HDR bp cp j \<and>
   Length (HdrContent (fold (\<lambda>i cp. if HDR_FOUND cp i then HDR_LASTCHAR_SAVE bp cp i else cp) xs cp) ! j)
      = Length (HdrContent cp ! j) \<and>
   Lines (fold (\<lambda>i cp. if HDR_FOUND cp i then HDR_LASTCHAR_SAVE bp cp i else cp) xs cp) = Lines cp \<and>
   Error (fold (\<lambda>i cp. if HDR_FOUND cp i then HDR_LASTCHAR_SAVE bp cp i else cp) xs cp) = Error cp" for xs
    by (induction xs arbitrary: cp) (simp_all add: HDR_LASTCHAR_SAVE_sel)
  then show ?thesis by (simp add: save_lastchars_def)
qed

section \<open>Which articles are accepted\<close>

text \<open>The field of a header that the check sees: none when there is none that is not empty, or when a
  required one is repeated.\<close>

definition the_field :: "bool \<Rightarrow> field list \<Rightarrow> nat \<Rightarrow> octets option" where
  "the_field xr fs i =
     (case dropWhile (\<lambda>v. v = []) (field_values xr i fs) of
        [] \<Rightarrow> None
      | v # ws \<Rightarrow> if header_type i = HTreq \<and> ws \<noteq> [] then None else Some v)"

definition lines_ok :: "artconf \<Rightarrow> octets option \<Rightarrow> int \<Rightarrow> bool" where
  "lines_ok conf l n \<longleftrightarrow> linecountfuzz conf = 0 \<or>
     (case l of None \<Rightarrow> True | Some l \<Rightarrow> \<bar>n - atoi l\<bar> \<le> int (linecountfuzz conf))"

definition age_ok :: "artconf \<Rightarrow> int \<Rightarrow> int \<Rightarrow> bool" where
  "age_ok conf now posted \<longleftrightarrow>
     (artcutoff conf = 0 \<or> now - int (artcutoff conf) * 24 * 60 * 60 \<le> posted) \<and> posted \<le> now + DATE_FUZZ"

text \<open>The date of the article: the one of its injection has precedence, but both must be dates.\<close>

definition posting_date :: "(tm \<Rightarrow> int) \<Rightarrow> octets \<Rightarrow> octets option \<Rightarrow> int option" where
  "posting_date mktime date injected =
     do { d \<leftarrow> parsedate_rfc5322_lax mktime date;
          e \<leftarrow> (case injected of None \<Rightarrow> Some d | Some i \<Rightarrow> parsedate_rfc5322_lax mktime i);
          if d = - 1 \<or> e = - 1 then None else Some e }"

definition acceptable :: "artconf \<Rightarrow> (tm \<Rightarrow> int) \<Rightarrow> int \<Rightarrow> (nat \<Rightarrow> octets option) \<Rightarrow> int \<Rightarrow> int option" where
  "acceptable conf mktime now F n =
     (if (\<forall>i\<in>{0..<76}. header_type i = HTreq \<longrightarrow> F i \<noteq> None) \<and>
         IsValidMessageID (F HDR__MESSAGE_ID) True (laxmid conf) \<and> lines_ok conf (F HDR__LINES) n \<and>
         CHR '':'' \<notin> set (the (F HDR__NEWSGROUPS)) \<and> ng_words (the (F HDR__NEWSGROUPS)) \<noteq> []
      then do { d \<leftarrow> posting_date mktime (the (F HDR__DATE)) (F HDR__INJECTION_DATE);
                if age_ok conf now d then Some d else None }
      else None)"

lemma lacking_None: "lacking cp = None \<longleftrightarrow> (\<forall>i\<in>{0..<76}. header_type i = HTreq \<longrightarrow> HDR_FOUND cp i)"
  by (auto simp: lacking_def find_None_iff MAX_ARTHEADER_def simp del: upt_rec_numeral)

lemma required: "header_type HDR__MESSAGE_ID = HTreq" "header_type HDR__DATE = HTreq" "header_type HDR__NEWSGROUPS = HTreq"
  by (simp_all add: header_type_def ARTheaders_def HDR__MESSAGE_ID_def HDR__DATE_def HDR__NEWSGROUPS_def)

lemma HDR_numbers: "HDR__MESSAGE_ID < 76" "HDR__DATE < 76" "HDR__NEWSGROUPS < 76" "HDR__LINES < 76"
  "HDR__INJECTION_DATE < 76" "HDR__EXPIRES < 76"
  by (simp_all add: HDR__MESSAGE_ID_def HDR__DATE_def HDR__NEWSGROUPS_def HDR__LINES_def
      HDR__INJECTION_DATE_def HDR__EXPIRES_def)

lemma ARTclean_acceptable:
  assumes "\<And>i. i < 76 \<Longrightarrow> HDR_FOUND cp i = (F i \<noteq> None)" "\<And>i v. i < 76 \<Longrightarrow> F i = Some v \<Longrightarrow> HDR bp cp i = v"
    and "ARTclean conf mktime now bp ihave cp info = Some (ok, cp', info')"
  shows "case acceptable conf mktime now F (Lines cp) of
      Some d \<Rightarrow> ok \<and> Posted info' = d \<and> Newsgroups info' = ng_words (the (F HDR__NEWSGROUPS)) \<and> Error cp' = Error cp
    | None \<Rightarrow> \<not> ok \<and> (\<exists>msg. Error cp' = (if ihave then ''437 '' else ''439 '') @ msg)"
proof -
  let ?cp = "save_lastchars bp cp"
  have found: "HDR_FOUND ?cp i = (F i \<noteq> None)" if "i < 76" for i
    using assms(1) [OF that] by (simp add: HDR_FOUND_def save_lastchars_sel)
  have hdr: "HDR bp ?cp i = v" if "i < 76" "F i = Some v" for i v
    using assms(2) [OF that] by (simp add: save_lastchars_sel)
  note sel = save_lastchars_sel [of bp cp 0]
  note run = assms(3) [unfolded ARTclean_def Let_def]
  show ?thesis
  proof (cases "lacking ?cp")
    case (Some i)
    then have "\<not> (\<forall>i\<in>{0..<76}. header_type i = HTreq \<longrightarrow> F i \<noteq> None)"
      using lacking_None [of ?cp] found by force
    then have "acceptable conf mktime now F (Lines cp) = None" unfolding acceptable_def by (simp only: if_False simp_thms)
    then show ?thesis using run Some by (auto split: if_splits)
  next
    case None
    then have req: "\<forall>i\<in>{0..<76}. header_type i = HTreq \<longrightarrow> F i \<noteq> None"
      using lacking_None [of ?cp] found by auto
    obtain mid date groups where F: "F HDR__MESSAGE_ID = Some mid" "F HDR__DATE = Some date" "F HDR__NEWSGROUPS = Some groups"
      using req required HDR_numbers by (metis atLeastLessThan_iff bot_nat_0.extremum not_None_eq)
    note h = hdr [OF HDR_numbers(1) F(1)] hdr [OF HDR_numbers(2) F(2)] hdr [OF HDR_numbers(3) F(3)]
    have lines: "lines_ok conf (F HDR__LINES) (Lines cp) \<longleftrightarrow>
        \<not> (linecountfuzz conf \<noteq> 0 \<and> HDR_FOUND ?cp HDR__LINES \<and>
           int (linecountfuzz conf) < \<bar>Lines ?cp - atoi (HDR bp ?cp HDR__LINES)\<bar>)"
      using found [OF HDR_numbers(4)] hdr [OF HDR_numbers(4)] sel
      by (auto simp: lines_ok_def split: option.split)
    note run = run [unfolded None option.case h]
    have acc: "acceptable conf mktime now F (Lines cp) =
      (if IsValidMessageID (Some mid) True (laxmid conf) \<and> lines_ok conf (F HDR__LINES) (Lines cp) \<and>
          CHR '':'' \<notin> set groups \<and> ng_words groups \<noteq> []
       then do { d \<leftarrow> posting_date mktime date (F HDR__INJECTION_DATE); if age_ok conf now d then Some d else None }
       else None)"
      using req by (simp add: acceptable_def F del: upt_rec_numeral)
    show ?thesis
    proof (cases "IsValidMessageID (Some mid) True (laxmid conf) \<and> lines_ok conf (F HDR__LINES) (Lines cp)")
      case False
      then have "acceptable conf mktime now F (Lines cp) = None" unfolding acc by auto
      then show ?thesis using run False unfolding lines by (auto split: if_splits)
    next
      case True
      then have valid: "\<not> \<not> IsValidMessageID (Some mid) True (laxmid conf)"
        "\<not> (linecountfuzz conf \<noteq> 0 \<and> HDR_FOUND ?cp HDR__LINES \<and>
           int (linecountfuzz conf) < \<bar>Lines ?cp - atoi (HDR bp ?cp HDR__LINES)\<bar>)"
        unfolding lines by auto
      note run = run [unfolded if_not_P [OF valid(1)] if_not_P [OF valid(2)]]
      have acc: "acceptable conf mktime now F (Lines cp) =
        (if CHR '':'' \<notin> set groups \<and> ng_words groups \<noteq> []
         then do { d \<leftarrow> posting_date mktime date (F HDR__INJECTION_DATE); if age_ok conf now d then Some d else None }
         else None)" unfolding acc using True by simp
      obtain d where d: "parsedate_rfc5322_lax mktime date = Some d"
        using run by (cases "parsedate_rfc5322_lax mktime date") auto
      show ?thesis
      proof (cases "d = - 1")
        case True
        then have "acceptable conf mktime now F (Lines cp) = None"
          unfolding acc by (auto simp: posting_date_def d split: option.split bind_splits)
        then show ?thesis using run True d by auto
      next
        case False
        define e where "e = (case F HDR__INJECTION_DATE of None \<Rightarrow> Some d | Some i \<Rightarrow> parsedate_rfc5322_lax mktime i)"
        have p: "posting_date mktime date (F HDR__INJECTION_DATE) = do { e \<leftarrow> e; if e = - 1 then None else Some e }"
          using False by (simp add: posting_date_def d e_def)
        let ?inj = "HDR_FOUND ?cp HDR__INJECTION_DATE"
        have e: "(if ?inj then parsedate_rfc5322_lax mktime (HDR bp ?cp (if ?inj then HDR__INJECTION_DATE else HDR__DATE))
            else Some d) = e"
          using found [OF HDR_numbers(5)] hdr [OF HDR_numbers(5)]
          by (cases "F HDR__INJECTION_DATE") (auto simp: e_def)
        note run = run [unfolded d bind.bind_lunit if_not_P [OF False] e]
        obtain x where x: "e = Some x" using run by (cases e) auto
        have x1: "?inj" if "x = - 1" using that False x found [OF HDR_numbers(5)] by (auto simp: e_def split: option.splits)
        show ?thesis
        proof (cases "x \<noteq> - 1 \<and> age_ok conf now x")
          case False
          then have "acceptable conf mktime now F (Lines cp) = None" unfolding acc p x by auto
          then show ?thesis using run x1 False
            by (auto simp: x age_ok_def not_le not_less split: if_splits)
        next
          case True
          then have nf: "\<not> (?inj \<and> x = - 1)" "\<not> (artcutoff conf \<noteq> 0 \<and> x < now - int (artcutoff conf) * 24 * 60 * 60)"
            "\<not> now + DATE_FUZZ < x" by (auto simp: age_ok_def)
          note run = run [unfolded x bind.bind_lunit if_not_P [OF nf(1)] if_not_P [OF nf(2)] if_not_P [OF nf(3)]]
          have acc: "acceptable conf mktime now F (Lines cp) =
            (if CHR '':'' \<notin> set groups \<and> ng_words groups \<noteq> [] then Some x else None)"
            unfolding acc p x using True by simp
          show ?thesis using run sel unfolding acc
            by (auto simp: NGsplit_words F split: if_splits bind_splits)
        qed
      qed
    qed
  qed
qed

lemma parsed_found:
  fixes xrefslave :: bool
  assumes "begin_article bp0 cp0 cp" "ds \<noteq> []" "fs \<noteq> []" "list_all field_ok fs"
    "drop (Start cp) (bp0 @ concat ds) = concat (map field_text fs) @ [CR, LF] @ rest" "rest \<noteq> []" "i < 76"
  defines "cp' \<equiv> parse_batches xrefslave bp0 cp ds"
  shows "HDR_FOUND cp' i = (the_field xrefslave fs i \<noteq> None)"
    "the_field xrefslave fs i = Some v \<Longrightarrow> HDR (bp0 @ concat ds) cp' i = v"
proof -
  have p: "case dropWhile (\<lambda>v. v = []) (field_values xrefslave i fs) of
        [] \<Rightarrow> Length (HdrContent cp' ! i) = 0
      | v # ws \<Rightarrow>
          if header_type i = HTreq \<and> ws \<noteq> [] then Length (HdrContent cp' ! i) = - 1
          else Length (HdrContent cp' ! i) = int (length v) \<and> HDR (bp0 @ concat ds) cp' i = v"
    unfolding cp'_def using parsed_fields [OF assms(1-6), of xrefslave] assms(7) by blast
  have "HDR_FOUND cp' i = (the_field xrefslave fs i \<noteq> None) \<and>
    (\<forall>v. the_field xrefslave fs i = Some v \<longrightarrow> HDR (bp0 @ concat ds) cp' i = v)"
  proof (cases "dropWhile (\<lambda>v. v = []) (field_values xrefslave i fs)")
    case Nil
    have "Length (HdrContent cp' ! i) = 0" using p unfolding Nil by simp
    then show ?thesis unfolding the_field_def Nil by (simp add: HDR_FOUND_def)
  next
    case (Cons v ws)
    then have "v \<noteq> []" by (metis (mono_tags, lifting) hd_dropWhile list.distinct(1) list.sel(1))
    then show ?thesis using p unfolding the_field_def Cons by (auto simp: HDR_FOUND_def split: if_splits)
  qed
  then show "HDR_FOUND cp' i = (the_field xrefslave fs i \<noteq> None)"
    "the_field xrefslave fs i = Some v \<Longrightarrow> HDR (bp0 @ concat ds) cp' i = v" by blast+
qed

text \<open>
  C5: which articles the check accepts. For an article made of fields, received in any batches, the
  check that follows the parser accepts it just when every required header (Date, From, Message-ID,
  Newsgroups, Path, Subject) has exactly one field that is not empty, the message-ID is valid, the line
  count is near enough to a Lines field, the Date and the Injection-Date, if there is one, are dates and
  the latter, or else the former, is neither too old nor in the future, and the newsgroups are one name
  at least, without a colon. Then the time of posting and the newsgroups are those of the fields, and no
  error is set; otherwise the reply has the code of the command. (A check that does not return has read
  past the end of a date; see the findings on the date parser.)
\<close>

theorem ARTclean_accepts:
  fixes xrefslave :: bool
  assumes "begin_article bp0 cp0 cp" and "ds \<noteq> []" and "fs \<noteq> []" and "list_all field_ok fs"
    and "drop (Start cp) (bp0 @ concat ds) = concat (map field_text fs) @ [CR, LF] @ rest" and "rest \<noteq> []"
    and "cp' = parse_batches xrefslave bp0 cp ds"
    and "ARTclean conf mktime now (bp0 @ concat ds) ihave cp' info = Some (ok, cp'', info')"
  shows "case acceptable conf mktime now (the_field xrefslave fs) (Lines cp') of
      Some d \<Rightarrow> ok \<and> Posted info' = d \<and> Newsgroups info' = ng_words (the (the_field xrefslave fs HDR__NEWSGROUPS)) \<and>
        Error cp'' = Error cp'
    | None \<Rightarrow> \<not> ok \<and> (\<exists>msg. Error cp'' = (if ihave then ''437 '' else ''439 '') @ msg)"
  by (rule ARTclean_acceptable [OF _ _ assms(8)]) (simp_all add: parsed_found [OF assms(1-6)] assms(7))

lemma ARTclean_returns:
  assumes "\<And>i. i \<in> {HDR__DATE, HDR__INJECTION_DATE, HDR__EXPIRES} \<Longrightarrow> HDR_FOUND cp i \<Longrightarrow>
      parsedate_rfc5322_lax mktime (HDR bp cp i) \<noteq> None"
  shows "ARTclean conf mktime now bp ihave cp info \<noteq> None"
proof -
  let ?cp = "save_lastchars bp cp"
  have d: "\<exists>d. parsedate_rfc5322_lax mktime (HDR bp ?cp i) = Some d"
    if "i \<in> {HDR__DATE, HDR__INJECTION_DATE, HDR__EXPIRES}" "HDR_FOUND ?cp i" for i
    using assms [OF that(1)] that(2) by (simp add: HDR_FOUND_def save_lastchars_sel)
  have date: "HDR_FOUND ?cp HDR__DATE" if "lacking ?cp = None"
    using that required(2) HDR_numbers(2) by (simp add: lacking_None del: upt_rec_numeral)
  show ?thesis
  proof (cases "lacking ?cp")
    case None
    then obtain x where x: "parsedate_rfc5322_lax mktime (HDR bp ?cp HDR__DATE) = Some x"
      using d date by blast
    let ?inj = "HDR_FOUND ?cp HDR__INJECTION_DATE"
    obtain y where y: "(if ?inj then parsedate_rfc5322_lax mktime (HDR bp ?cp (if ?inj then HDR__INJECTION_DATE else HDR__DATE))
        else Some x) = Some y"
      using d [of HDR__INJECTION_DATE] by (cases ?inj) auto
    have z: "\<exists>z. (if HDR_FOUND ?cp HDR__EXPIRES then parsedate_rfc5322_lax mktime (HDR bp ?cp HDR__EXPIRES) else Some v) = Some z" for v
      using d [of HDR__EXPIRES] by (cases "HDR_FOUND ?cp HDR__EXPIRES") auto
    then obtain z where z: "\<And>v. (if HDR_FOUND ?cp HDR__EXPIRES then parsedate_rfc5322_lax mktime (HDR bp ?cp HDR__EXPIRES)
        else Some v) = Some (z v)" by metis
    show ?thesis
      unfolding ARTclean_def Let_def None option.case x bind.bind_lunit y z
      by (simp only: option.distinct if_distrib [of "\<lambda>r. r \<noteq> None"] split: prod.split) simp
  qed (simp add: ARTclean_def Let_def)
qed

definition example_article :: "field list" where
  "example_article =
     [(''Path'', ''a!b''), (''From'', ''c''), (''Newsgroups'', ''d.e, f''), (''Subject'', ''g''),
      (''Message-ID'', ''<h@i>''), (''Date'', ''1 Jan 2001 00:00 +0000'')]"

definition example_conf :: artconf where
  "example_conf = \<lparr>linecountfuzz = 0, artcutoff = 10, laxmid = False\<rparr>"

definition example_info :: artinfo where
  "example_info = \<lparr>Arrived = 0, Expires = 0, Posted = 0, Groupcount = 0, Newsgroups = []\<rparr>"

lemma required_headers: "filter (\<lambda>i. header_type i = HTreq) [0..<76] = [2, 5, 7, 8, 9, 12]"
  by code_simp

lemma example_article_fields:
  "the_field False example_article 2 = Some ''1 Jan 2001 00:00 +0000''"
  "the_field False example_article 4 = None" "the_field False example_article 5 = Some ''c''"
  "the_field False example_article 7 = Some ''<h@i>''" "the_field False example_article 8 = Some ''d.e, f''"
  "the_field False example_article 9 = Some ''a!b''" "the_field False example_article 12 = Some ''g''"
  "the_field False example_article 64 = None"
  by code_simp+

lemma example_date: "parsedate_rfc5322_lax (\<lambda>t. 0) ''1 Jan 2001 00:00 +0000'' = Some 978307200"
  by code_simp

lemma example_acceptable:
  "acceptable example_conf (\<lambda>t. 0) 978307200 (the_field False example_article) n = Some 978307200"
proof -
  have "\<forall>i\<in>{0..<76}. header_type i = HTreq \<longrightarrow> the_field False example_article i \<noteq> None"
  proof (intro ballI impI)
    fix i :: nat assume "i \<in> {0..<76}" "header_type i = HTreq"
    then have "i \<in> set (filter (\<lambda>i. header_type i = HTreq) [0..<76])" by simp
    then show "the_field False example_article i \<noteq> None"
      unfolding required_headers using example_article_fields by auto
  qed
  moreover have "IsValidMessageID (Some ''<h@i>'') True False" by code_simp
  moreover have "ng_words ''d.e, f'' = [''d.e'', ''f'']" by code_simp
  ultimately show ?thesis
    unfolding acceptable_def HDR__MESSAGE_ID_def HDR__LINES_def HDR__NEWSGROUPS_def HDR__DATE_def HDR__INJECTION_DATE_def
    by (simp add: example_article_fields lines_ok_def example_conf_def posting_date_def example_date age_ok_def
        DATE_FUZZ_def del: upt_rec_numeral)
qed

theorem ARTclean_accepts_witness:
  "\<exists>cp' info'. ARTclean example_conf (\<lambda>t. 0) 978307200
      (concat (map field_text example_article) @ [CR, LF] @ dot_line) True
      (parse_batches False [] example_begun [concat (map field_text example_article) @ [CR, LF] @ dot_line]) example_info
    = Some (True, cp', info') \<and> Posted info' = 978307200"
proof -
  let ?t = "concat (map field_text example_article) @ [CR, LF] @ dot_line"
  let ?cp = "parse_batches False [] example_begun [?t]"
  have b: "begin_article [] example_channel example_begun"
    by (simp add: begin_article_def example_begun_def example_channel_def)
  have ok: "list_all field_ok example_article" by code_simp
  have n: "[?t] \<noteq> []" "example_article \<noteq> []" "dot_line \<noteq> []" by (simp_all add: example_article_def)
  have t: "drop (Start example_begun) ([] @ concat [?t]) = ?t" by (simp add: example_begun_sel)
  note found = parsed_found [OF b n(1,2) ok t n(3), of _ False]
  have "parsedate_rfc5322_lax (\<lambda>t. 0) (HDR ?t ?cp i) \<noteq> None"
    if "i \<in> {HDR__DATE, HDR__INJECTION_DATE, HDR__EXPIRES}" "HDR_FOUND ?cp i" for i
    using that found [of i] example_article_fields example_date
    by (auto simp: HDR__DATE_def HDR__INJECTION_DATE_def HDR__EXPIRES_def)
  then have "ARTclean example_conf (\<lambda>t. 0) 978307200 ?t True ?cp example_info \<noteq> None" by (rule ARTclean_returns)
  then obtain okv cp' info' where r: "ARTclean example_conf (\<lambda>t. 0) 978307200 ([] @ concat [?t]) True ?cp example_info = Some (okv, cp', info')"
    by fastforce
  show ?thesis
    using ARTclean_accepts [OF b n(1,2) ok t n(3) refl r] r by (auto simp: example_acceptable)
qed

end
