(* ===== verification/Artfeed.thy ===== *)
theory Artfeed
  imports Artclean
begin

text \<open>
  Which sites an accepted article is fed to (\<open>ARTpropagate\<close> of \<open>innd/art.c\<close>), with the routines that it
  decides by: the hosts of the Path (\<open>ARTparsepath\<close>, \<open>ListHas\<close>), the distributions (\<open>ARTparsedist\<close>,
  \<open>DISTwanted\<close>), the hash feeds (\<open>HashFeedMatch\<close>). The theorems give the decision for each site, show that
  no site is fed that is in the Path, and that of a master and its slaves one is fed at most.
\<close>

section \<open>Lists in headers\<close>

text \<open>The character class of \<open>ARTsetup\<close>.\<close>

definition ARThostchar :: "char \<Rightarrow> bool" where
  "ARThostchar c \<longleftrightarrow> c_isalnum c \<or> c = CHR ''.'' \<or> c = CHR ''-'' \<or> c = CHR ''_''"

function ARTparsepath_loop :: "octets \<Rightarrow> octets list \<Rightarrow> octets list" where
  "ARTparsepath_loop p list =
     (if p = [] then list
      else
        let p1 = dropWhile (\<lambda>c. \<not> ARThostchar c \<and> ISWHITE c) p;
            host = takeWhile (\<lambda>c. ARThostchar c \<and> \<not> ISWHITE c) p1;
            p2 = drop (length host) p1 in
        if p1 = [] then list
        else if p2 = [] then list @ [host]
        else ARTparsepath_loop (tl p2) (list @ [host]))"
  by pat_completeness auto
termination
proof (relation "measure (\<lambda>(p, list). length p)", goal_cases)
  case (2 p list p1 host p2)
  have "length p1 \<le> length p" using 2(2) by (simp add: length_dropWhile_le)
  moreover have "length (tl p2) < length p1" using 2(4,5,6) by (cases p1) auto
  ultimately show ?case by simp
qed simp

declare ARTparsepath_loop.simps [simp del]

definition ARTparsepath :: "octets \<Rightarrow> octets list" where
  "ARTparsepath p = ARTparsepath_loop p []"

function ARTparsedist_loop :: "octets \<Rightarrow> octets list \<Rightarrow> octets list" where
  "ARTparsedist_loop p list =
     (if p = [] then list
      else
        let p1 = dropWhile (\<lambda>c. c = CHR '','' \<or> ISWHITE c) p;
            dist = takeWhile (\<lambda>c. c \<noteq> CHR '','' \<and> \<not> ISWHITE c) p1;
            p2 = drop (length dist) p1 in
        if p1 = [] then list
        else if p2 = [] then list @ [dist]
        else ARTparsedist_loop (tl p2) (list @ [dist]))"
  by pat_completeness auto
termination
proof (relation "measure (\<lambda>(p, list). length p)", goal_cases)
  case (2 p list p1 dist p2)
  have "length p1 \<le> length p" using 2(2) by (simp add: length_dropWhile_le)
  moreover have "length (tl p2) < length p1" using 2(4,5,6) by (cases p1) auto
  ultimately show ?case by simp
qed simp

declare ARTparsedist_loop.simps [simp del]

definition ARTparsedist :: "octets \<Rightarrow> octets list" where
  "ARTparsedist p = ARTparsedist_loop p []"

definition ListHas :: "octets list \<Rightarrow> octets \<Rightarrow> bool" where
  "ListHas list p \<longleftrightarrow> list_ex (\<lambda>q. strcasecmp p q = 0) list"

text \<open>
  \<open>DISTwanted\<close>: the loop with \<open>sawbang\<close>. The first octets are compared before the whole, as they are, so
  that here a difference in the case of the first letter counts. The entry of a site that is empty behind
  its exclamation mark only matches an empty distribution.
\<close>

fun DISTwanted_loop :: "octets list \<Rightarrow> octets \<Rightarrow> bool \<Rightarrow> bool" where
  "DISTwanted_loop [] p sawbang = sawbang"
| "DISTwanted_loop (q # list) p sawbang =
     (if deref q = CHR ''!'' then
        (if deref p = deref (tl q) \<and> strcasecmp p (tl q) = 0 then False else DISTwanted_loop list p True)
      else if deref p = deref q \<and> strcasecmp p q = 0 then True
      else DISTwanted_loop list p sawbang)"

definition DISTwanted :: "octets list \<Rightarrow> octets \<Rightarrow> bool" where
  "DISTwanted list p = DISTwanted_loop list p False"

definition DISTwantany :: "octets list \<Rightarrow> octets list \<Rightarrow> bool" where
  "DISTwantany site article \<longleftrightarrow> article = [] \<or> list_ex (DISTwanted site) article"

section \<open>Hash feeds\<close>

datatype hashfeed_type = HASHFEED_QH | HASHFEED_MD5

record HASHFEEDLIST =
  hf_type :: hashfeed_type
  hf_begin :: nat
  hf_end :: nat
  hf_mod :: nat
  hf_offset :: nat

text \<open>
  Four octets of the digest, the most significant first. The cache of the last message-ID only saves
  the computation. The old contents of the context do not matter (see \<open>MD5\<close>).
\<close>

definition HashFeedMD5 :: "octets \<Rightarrow> nat \<Rightarrow> nat" where
  "HashFeedMD5 MessageID offset =
     (if 12 < offset then 0
      else foldl (\<lambda>v b. 256 * v + ord b) 0
        (take 4 (drop (12 - offset)
          (md5_hash \<lparr>count0 = 0, count1 = 0, buf = (0, 0, 0, 0), inb = replicate 64 NUL, datalen = 0,
                     digest = replicate 16 NUL\<rparr> MessageID))))"

definition HashFeedQH :: "octets \<Rightarrow> nat" where
  "HashFeedQH MessageID = sum_list (map ord MessageID) mod 2 ^ 32"

definition HashFeedMatch :: "HASHFEEDLIST list \<Rightarrow> octets \<Rightarrow> bool" where
  "HashFeedMatch hfs MessageID \<longleftrightarrow>
     list_ex (\<lambda>hf. let h = (case hf_type hf of HASHFEED_MD5 \<Rightarrow> HashFeedMD5 MessageID (hf_offset hf)
                                            | HASHFEED_QH \<Rightarrow> HashFeedQH MessageID) in
              hf_begin hf \<le> h mod hf_mod hf + 1 \<and> h mod hf_mod hf + 1 \<le> hf_end hf) hfs"

section \<open>Sites\<close>

text \<open>
  The members of \<open>SITE\<close>, but for those of an open feed (its channel, process and output buffer).
  \<open>Master\<close> and \<open>Funnel\<close> are indices into the table of sites, \<open>None\<close> standing for \<open>NOSITE\<close>, \<open>ng\<close> is the index
  of a group; a limit of 0 is no limit. \<open>Freed\<close> says that \<open>Name\<close> is \<open>NULL\<close>.
\<close>

datatype FEEDTYPE = FTerror | FTfile | FTchannel | FTexploder | FTfunnel | FTlogonly | FTprogram

record SITE =
  Name :: octets
  Freed :: bool
  Exclusions :: "octets list option"
  Distributions :: "octets list option"
  Patterns :: "octets list"
  Poison :: bool
  PoisonEntry :: bool
  Sendit :: bool
  Seenit :: bool
  IgnoreControl :: bool
  DistRequired :: bool
  IgnorePath :: bool
  ControlOnly :: bool
  DontWantNonExist :: bool
  NeedOverviewCreation :: bool
  FeedwithoutOriginator :: bool
  DropFiltered :: bool
  FeedTrash :: bool
  Hops :: int
  MaxGroupcount :: int
  MaxFollowcount :: int
  MaxCrosscount :: int
  Type :: FEEDTYPE
  ng :: "nat option"
  SpoolName :: octets
  StartWriting :: int
  StopWriting :: int
  StartSpooling :: int
  Param :: octets
  FileFlags :: octets
  MaxSize :: int
  MinSize :: int
  Nice :: int
  IsMaster :: bool
  Master :: "nat option"
  Funnel :: "nat option"
  FNLwantsnames :: bool
  FNLnames :: octets
  Flushpoint :: nat
  Originator :: "octets list option"
  HashFeedList :: "HASHFEEDLIST list"

text \<open>What is known of the article: its fields, its counts, and the arguments of \<open>ARTpropagate\<close>.\<close>

record feedinfo =
  fi_xtrace :: "octets option"
  fi_injection :: "octets option"
  fi_msgid :: octets
  fi_bytes :: int
  fi_groups :: int
  fi_follows :: int
  fi_hops :: "octets list"
  fi_dists :: "octets list"
  fi_control :: bool
  fi_overview :: bool
  fi_filtered :: bool

definition HDR__XTRACE :: nat where "HDR__XTRACE = 19"
definition HDR__INJECTION_INFO :: nat where "HDR__INJECTION_INFO = 42"

definition header_of :: "octets \<Rightarrow> channel \<Rightarrow> nat \<Rightarrow> octets option" where
  "header_of bp cp i = (if HDR_FOUND cp i then Some (HDR bp cp i) else None)"

section \<open>The decision for one site\<close>

definition wild :: "octets \<Rightarrow> octets \<Rightarrow> bool" where
  "wild T P \<longleftrightarrow> uwildmat T P = Some True"

fun originator_wanted :: "octets \<Rightarrow> octets list \<Rightarrow> bool \<Rightarrow> bool" where
  "originator_wanted T [] sendit = sendit"
| "originator_wanted T (q # qs) sendit =
     (if deref q = CHR ''@'' then (if wild T (tl q) then False else originator_wanted T qs sendit)
      else originator_wanted T qs (sendit \<or> wild T q))"

text \<open>The checks that name the server where the article was injected.\<close>

definition originator_ok :: "feedinfo \<Rightarrow> SITE \<Rightarrow> bool" where
  "originator_ok fi sp =
     (case Originator sp of
        None \<Rightarrow> True
      | Some list \<Rightarrow>
          (case fi_injection fi of
             Some info \<Rightarrow>
               (let begin = skip_cfws info in
                if begin = [] then False
                else originator_wanted
                  (takeWhile (\<lambda>c. c \<noteq> CHR '';'' \<and> c \<noteq> SP \<and> c \<noteq> TAB \<and> c \<noteq> CR) begin) list False)
           | None \<Rightarrow>
               (case fi_xtrace fi of
                  None \<Rightarrow> FeedwithoutOriginator sp
                | Some xt \<Rightarrow>
                    SP \<in> set xt \<and> originator_wanted (takeWhile (\<lambda>c. c \<noteq> SP) xt) list False)))"

text \<open>The conditions on the article alone, in the order of the code; \<open>Master\<close> is looked at below.\<close>

definition site_accepts :: "feedinfo \<Rightarrow> SITE \<Rightarrow> bool" where
  "site_accepts fi sp \<longleftrightarrow>
     originator_ok fi sp \<and>
     \<not> (MaxSize sp \<noteq> 0 \<and> MaxSize sp < fi_bytes fi) \<and>
     \<not> (MinSize sp \<noteq> 0 \<and> fi_bytes fi < MinSize sp) \<and>
     \<not> (Hops sp \<noteq> 0 \<and> Hops sp < int (length (fi_hops fi))) \<and>
     \<not> (\<not> IgnorePath sp \<and> ListHas (fi_hops fi) (Name sp)) \<and>
     \<not> (MaxGroupcount sp \<noteq> 0 \<and> MaxGroupcount sp < fi_groups fi) \<and>
     \<not> (MaxFollowcount sp \<noteq> 0 \<and> MaxFollowcount sp < fi_follows fi) \<and>
     \<not> (MaxCrosscount sp \<noteq> 0 \<and> MaxCrosscount sp < fi_groups fi + fi_follows fi * fi_follows fi) \<and>
     (HashFeedList sp \<noteq> [] \<longrightarrow> HashFeedMatch (HashFeedList sp) (fi_msgid fi)) \<and>
     (case Distributions sp of
        None \<Rightarrow> True | Some ds \<Rightarrow> fi_dists fi \<noteq> [] \<longrightarrow> DISTwantany ds (fi_dists fi)) \<and>
     \<not> (DistRequired sp \<and> fi_dists fi = []) \<and>
     (case Exclusions sp of None \<Rightarrow> True | Some xs \<Rightarrow> \<not> list_ex (ListHas (fi_hops fi)) xs) \<and>
     \<not> (fi_filtered fi \<and> DropFiltered sp)"

section \<open>The loops over the sites\<close>

definition propagate_site :: "feedinfo \<Rightarrow> nat \<Rightarrow> SITE list \<Rightarrow> SITE list" where
  "propagate_site fi i sites =
     (let sp = sites ! i;
          sp = (if IgnoreControl sp \<and> fi_control fi \<or> NeedOverviewCreation sp \<and> \<not> fi_overview fi
                then sp\<lparr>Sendit := False\<rparr> else sp);
          sites = sites[i := sp] in
      if Seenit sp \<or> \<not> Sendit sp then sites
      else
        let sp = sp\<lparr>Sendit := False\<rparr>; sites = sites[i := sp];
            master_seen = (case Master sp of None \<Rightarrow> False | Some m \<Rightarrow> Seenit (sites ! m)) in
        if master_seen \<or> \<not> site_accepts fi sp then sites
        else
          let sites = sites[i := sp\<lparr>Sendit := True, Seenit := True\<rparr>] in
          case Master sp of None \<Rightarrow> sites | Some m \<Rightarrow> sites[m := (sites ! m)\<lparr>Seenit := True\<rparr>])"

definition funnel_site :: "nat \<Rightarrow> SITE list \<Rightarrow> SITE list" where
  "funnel_site i sites =
     (let sp = sites ! i in
      case Funnel sp of
        Some f \<Rightarrow>
          if Sendit sp then
            let sites = sites[i := sp\<lparr>Sendit := False\<rparr>];
                funnel = (sites ! f)\<lparr>Sendit := True\<rparr>;
                funnel = (if FNLwantsnames funnel
                          then funnel\<lparr>FNLnames := FNLnames funnel @ (if FNLnames funnel = [] then [] else [SP]) @ Name sp\<rparr>
                          else funnel) in
            sites[f := funnel]
          else sites
      | None \<Rightarrow> sites)"

definition mark_sites :: "feedinfo \<Rightarrow> SITE list \<Rightarrow> SITE list" where
  "mark_sites fi sites = fold (propagate_site fi) [0..<length sites] sites"

definition funnel_sites :: "SITE list \<Rightarrow> SITE list" where
  "funnel_sites sites = fold funnel_site [0..<length sites] sites"

definition ARTpropagate :: "feedinfo \<Rightarrow> SITE list \<Rightarrow> SITE list" where
  "ARTpropagate fi sites = funnel_sites (mark_sites fi sites)"

section \<open>The sites that are chosen\<close>

text \<open>Two sites of one group: a master and its slave, or two slaves of one master.\<close>

definition related :: "SITE list \<Rightarrow> nat \<Rightarrow> nat \<Rightarrow> bool" where
  "related sites j i \<longleftrightarrow>
     Master (sites ! j) = Some i \<or> Master (sites ! i) = Some j \<or>
     Master (sites ! i) \<noteq> None \<and> Master (sites ! j) = Master (sites ! i)"

definition candidate :: "feedinfo \<Rightarrow> SITE \<Rightarrow> bool" where
  "candidate fi sp \<longleftrightarrow> Sendit sp \<and> \<not> (IgnoreControl sp \<and> fi_control fi) \<and>
     \<not> (NeedOverviewCreation sp \<and> \<not> fi_overview fi) \<and> site_accepts fi sp"

text \<open>A candidate is chosen when no site of its group before it in the table is.\<close>

function chosen :: "feedinfo \<Rightarrow> SITE list \<Rightarrow> nat \<Rightarrow> bool" where
  "chosen fi sites i \<longleftrightarrow>
     candidate fi (sites ! i) \<and> list_all (\<lambda>j. \<not> (chosen fi sites j \<and> related sites j i)) [0..<i]"
  by pat_completeness auto
termination
  by (relation "measure (\<lambda>(fi, sites, i). i)") auto

declare chosen.simps [simp del]

text \<open>
  The table as \<open>SITEsetup\<close> leaves it and \<open>ARTpost\<close> begins with it: no site has been seen, a master is
  the first entry of its name, a funnel does not feed another.
\<close>

definition sites_ok :: "SITE list \<Rightarrow> bool" where
  "sites_ok sites \<longleftrightarrow>
     (\<forall>i<length sites. \<not> Seenit (sites ! i) \<and> (\<forall>m. Master (sites ! i) = Some m \<longrightarrow> m < i) \<and>
        (\<forall>f. Funnel (sites ! i) = Some f \<longrightarrow> f < length sites \<and> Funnel (sites ! f) = None))"

lemma accepts_flags [simp]:
  "site_accepts fi (sp\<lparr>Sendit := s\<rparr>) = site_accepts fi sp"
  "site_accepts fi (sp\<lparr>Seenit := t\<rparr>) = site_accepts fi sp"
  by (simp_all add: site_accepts_def originator_ok_def cong: option.case_cong)

text \<open>The table when the sites before \<open>k\<close> have been dealt with.\<close>

definition marked :: "feedinfo \<Rightarrow> SITE list \<Rightarrow> nat \<Rightarrow> SITE list" where
  "marked fi sites k = map (\<lambda>i. (sites ! i)
     \<lparr>Sendit := (if i < k then chosen fi sites i else Sendit (sites ! i)),
      Seenit := (i < k \<and> chosen fi sites i \<or> (\<exists>j<k. chosen fi sites j \<and> Master (sites ! j) = Some i))\<rparr>)
     [0..<length sites]"

lemma marked_nth:
  "i < length sites \<Longrightarrow> marked fi sites k ! i = (sites ! i)
     \<lparr>Sendit := (if i < k then chosen fi sites i else Sendit (sites ! i)),
      Seenit := (i < k \<and> chosen fi sites i \<or> (\<exists>j<k. chosen fi sites j \<and> Master (sites ! j) = Some i))\<rparr>"
  "length (marked fi sites k) = length sites"
  by (simp_all add: marked_def)

lemma same_flags: "Sendit sp = s \<Longrightarrow> Seenit sp = t \<Longrightarrow> sp\<lparr>Sendit := s, Seenit := t\<rparr> = sp"
  by (cases sp) simp

lemma seenit_off: "\<not> Seenit sp \<Longrightarrow> sp\<lparr>Seenit := False\<rparr> = sp"
  by (cases sp) simp

lemma marked_0:
  assumes "sites_ok sites"
  shows "marked fi sites 0 = sites"
proof (rule nth_equalityI)
  fix i assume "i < length (marked fi sites 0)"
  then have "i < length sites" by (simp add: marked_nth)
  then have "\<not> Seenit (sites ! i)" "marked fi sites 0 ! i = (sites ! i)\<lparr>Sendit := Sendit (sites ! i), Seenit := False\<rparr>"
    using assms by (simp_all add: marked_nth sites_ok_def)
  then show "marked fi sites 0 ! i = sites ! i" using same_flags by metis
qed (simp add: marked_nth)

lemma propagate_site_marked:
  assumes "sites_ok sites" "k < length sites"
  shows "propagate_site fi k (marked fi sites k) = marked fi sites (Suc k)"
proof -
  let ?sp = "sites ! k" and ?M = "marked fi sites k"
  have before: "m < j" if "Master (sites ! j) = Some m" "j < length sites" for j m
    using assms(1) that by (auto simp: sites_ok_def)
  have unseen: "\<not> Seenit ?sp" using assms by (simp add: sites_ok_def)
  have nk: "Master (sites ! j) \<noteq> Some k" if "j < k" for j using that before [of j k] assms(2) by auto
  have "?M ! k = ?sp\<lparr>Sendit := Sendit ?sp, Seenit := False\<rparr>" using assms(2) nk by (simp add: marked_nth)
  then have Mk: "?M ! k = ?sp" using same_flags unseen by metis
  have Mlen: "k < length ?M" using assms(2) by (simp add: marked_nth)
  define seen where "seen = (case Master ?sp of None \<Rightarrow> False | Some m \<Rightarrow> Seenit (?M ! m))"
  have seen: "seen = (\<exists>j<k. chosen fi sites j \<and> related sites j k)"
  proof (cases "Master ?sp")
    case None
    then show ?thesis using nk by (auto simp: seen_def related_def)
  next
    case (Some m)
    then show ?thesis using nk before [OF Some assms(2)] assms(2) by (auto simp: seen_def related_def marked_nth)
  qed
  have ch: "chosen fi sites k \<longleftrightarrow> candidate fi ?sp \<and> \<not> seen"
    by (subst chosen.simps) (auto simp: seen list_all_iff)
  show ?thesis
  proof (cases "chosen fi sites k")
    case False
    have "propagate_site fi k ?M = ?M[k := ?sp\<lparr>Sendit := False\<rparr>]"
    proof -
      let ?drop = "IgnoreControl ?sp \<and> fi_control fi \<or> NeedOverviewCreation ?sp \<and> \<not> fi_overview fi"
      consider (drop) ?drop | (off) "\<not> ?drop" "\<not> Sendit ?sp" | (on) "\<not> ?drop" "Sendit ?sp" by blast
      then show ?thesis
      proof cases
        case drop
        show ?thesis unfolding propagate_site_def Mk Let_def if_P [OF drop] by simp
      next
        case off
        have "?sp\<lparr>Sendit := False\<rparr> = ?sp" using off(2) by (cases ?sp) simp
        moreover have "propagate_site fi k ?M = ?M[k := ?sp]"
          unfolding propagate_site_def Mk Let_def if_not_P [OF off(1)] using off(2) by simp
        ultimately show ?thesis by (simp only:)
      next
        case on
        have "(case Master (?sp\<lparr>Sendit := False\<rparr>) of None \<Rightarrow> False | Some m \<Rightarrow> Seenit (?M[k := ?sp, k := ?sp\<lparr>Sendit := False\<rparr>] ! m)) = seen"
          using before [OF _ assms(2)] unfolding seen_def by (cases "Master ?sp") auto
        moreover have "seen \<or> \<not> site_accepts fi (?sp\<lparr>Sendit := False\<rparr>)"
          using False ch on by (auto simp: candidate_def)
        ultimately show ?thesis
          unfolding propagate_site_def Mk Let_def if_not_P [OF on(1)] using on(2) unseen by simp
      qed
    qed
    also have "\<dots> = marked fi sites (Suc k)"
    proof (rule nth_equalityI)
      fix i assume "i < length (?M[k := ?sp\<lparr>Sendit := False\<rparr>])"
      then have i: "i < length sites" by (simp add: marked_nth)
      have ex: "(\<exists>j<Suc k. chosen fi sites j \<and> Master (sites ! j) = Some i) \<longleftrightarrow>
          (\<exists>j<k. chosen fi sites j \<and> Master (sites ! j) = Some i)" using False by (auto simp: less_Suc_eq)
      show "?M[k := ?sp\<lparr>Sendit := False\<rparr>] ! i = marked fi sites (Suc k) ! i"
      proof (cases "i = k")
        case True
        have "marked fi sites (Suc k) ! k = ?sp\<lparr>Sendit := False, Seenit := False\<rparr>"
          using False ex nk True by (simp add: marked_nth assms(2))
        then show ?thesis using True Mlen seenit_off [of "?sp\<lparr>Sendit := False\<rparr>"] unseen by simp
      next
        case ne: False
        then have "i < Suc k \<longleftrightarrow> i < k" by auto
        then show ?thesis using ne i by (simp add: marked_nth ex)
      qed
    qed (simp add: marked_nth)
    finally show ?thesis .
  next
    case True
    let ?on = "?sp\<lparr>Sendit := True, Seenit := True\<rparr>"
    from True ch have c: "candidate fi ?sp" "\<not> seen" by auto
    have on: "\<not> (IgnoreControl ?sp \<and> fi_control fi \<or> NeedOverviewCreation ?sp \<and> \<not> fi_overview fi)" "Sendit ?sp"
      "site_accepts fi ?sp" using c(1) by (auto simp: candidate_def)
    have ms: "(case Master (?sp\<lparr>Sendit := False\<rparr>) of None \<Rightarrow> False | Some m \<Rightarrow> Seenit (?M[k := ?sp, k := ?sp\<lparr>Sendit := False\<rparr>] ! m)) = seen"
      using before [OF _ assms(2)] unfolding seen_def by (cases "Master ?sp") auto
    have eq: "propagate_site fi k ?M = (case Master ?sp of None \<Rightarrow> ?M[k := ?on]
        | Some m \<Rightarrow> ?M[k := ?on, m := (?M[k := ?on] ! m)\<lparr>Seenit := True\<rparr>])"
      unfolding propagate_site_def Mk Let_def if_not_P [OF on(1)] ms using on unseen c(2) by (simp cong: option.case_cong)
    show ?thesis
    proof (rule nth_equalityI)
      show "length (propagate_site fi k ?M) = length (marked fi sites (Suc k))"
        by (simp add: eq marked_nth split: option.split)
      fix i assume "i < length (propagate_site fi k ?M)"
      then have i: "i < length sites" by (simp add: eq marked_nth split: option.splits)
      have ex: "(\<exists>j<Suc k. chosen fi sites j \<and> Master (sites ! j) = Some i) \<longleftrightarrow>
          Master ?sp = Some i \<or> (\<exists>j<k. chosen fi sites j \<and> Master (sites ! j) = Some i)"
        using True by (auto simp: less_Suc_eq)
      consider (self) "i = k" | (master) "i \<noteq> k" "Master ?sp = Some i" | (other) "i \<noteq> k" "Master ?sp \<noteq> Some i" by blast
      then show "propagate_site fi k ?M ! i = marked fi sites (Suc k) ! i"
      proof cases
        case self
        then have "propagate_site fi k ?M ! i = ?on"
          using before [OF _ assms(2)] Mlen by (fastforce simp: eq split: option.split)
        then show ?thesis using self i True by (simp add: marked_nth)
      next
        case master
        then have lt: "i < k" using before assms(2) by blast
        have "propagate_site fi k ?M ! i = (?M ! i)\<lparr>Seenit := True\<rparr>"
          using master i lt by (simp add: eq marked_nth(2))
        then show ?thesis using master i lt by (simp add: marked_nth(1) ex)
      next
        case other
        then have "propagate_site fi k ?M ! i = ?M ! i" by (auto simp: eq split: option.split)
        moreover have "i < Suc k \<longleftrightarrow> i < k" using other by auto
        ultimately show ?thesis using other i by (simp add: marked_nth(1) ex)
      qed
    qed
  qed
qed

lemma mark_sites_marked:
  assumes "sites_ok sites"
  shows "mark_sites fi sites = marked fi sites (length sites)"
proof -
  have "fold (propagate_site fi) [0..<k] sites = marked fi sites k" if "k \<le> length sites" for k
    using that by (induction k) (simp_all add: marked_0 assms propagate_site_marked)
  then show ?thesis by (simp add: mark_sites_def)
qed

text \<open>The funnels: the table when the sites before \<open>k\<close> have been dealt with.\<close>

lemma funnel_flags:
  assumes "i < length sites" "k < length sites" "\<And>f. Funnel (sites ! k) = Some f \<Longrightarrow> f < length sites \<and> f \<noteq> k"
  shows "Funnel (funnel_site k sites ! i) = Funnel (sites ! i)"
    and "Sendit (funnel_site k sites ! i) \<longleftrightarrow>
      (if i = k then Sendit (sites ! k) \<and> Funnel (sites ! k) = None
       else Sendit (sites ! i) \<or> Sendit (sites ! k) \<and> Funnel (sites ! k) = Some i)"
    and "length (funnel_site k sites) = length sites"
  using assms by (auto simp: funnel_site_def Let_def nth_list_update split: option.splits)

lemma funnel_sites_flags:
  assumes ok: "\<And>i f. i < length sites \<Longrightarrow> Funnel (sites ! i) = Some f \<Longrightarrow> f < length sites \<and> Funnel (sites ! f) = None"
    and i: "i < length sites"
  shows "Sendit (funnel_sites sites ! i) \<longleftrightarrow> Funnel (sites ! i) = None \<and>
    (Sendit (sites ! i) \<or> (\<exists>j<length sites. Sendit (sites ! j) \<and> Funnel (sites ! j) = Some i))"
proof -
  define after where "after k = fold funnel_site [0..<k] sites" for k
  have inv: "length (after k) = length sites \<and> (\<forall>i<length sites. Funnel (after k ! i) = Funnel (sites ! i) \<and>
      (Sendit (after k ! i) \<longleftrightarrow>
        (if Funnel (sites ! i) = None then Sendit (sites ! i) \<or> (\<exists>j<k. Sendit (sites ! j) \<and> Funnel (sites ! j) = Some i)
         else k \<le> i \<and> Sendit (sites ! i))))" if "k \<le> length sites" for k
    using that
  proof (induction k)
    case 0
    then show ?case by (simp add: after_def)
  next
    case (Suc k)
    have IH: "length (after k) = length sites" "\<And>i. i < length sites \<Longrightarrow> Funnel (after k ! i) = Funnel (sites ! i)"
      "\<And>i. i < length sites \<Longrightarrow> Sendit (after k ! i) \<longleftrightarrow>
        (if Funnel (sites ! i) = None then Sendit (sites ! i) \<or> (\<exists>j<k. Sendit (sites ! j) \<and> Funnel (sites ! j) = Some i)
         else k \<le> i \<and> Sendit (sites ! i))" using Suc by auto
    have step: "after (Suc k) = funnel_site k (after k)" by (simp add: after_def)
    have k: "k < length sites" using Suc.prems by simp
    have fun_ok: "f < length (after k) \<and> f \<noteq> k" if "Funnel (after k ! k) = Some f" for f
      using ok [OF k, of f] that IH(1) IH(2) [OF k] by auto
    note flags = funnel_flags [of _ "after k" k, OF _ _ fun_ok, unfolded IH(1), OF _ k, folded step]
    have "Sendit (after (Suc k) ! i) \<longleftrightarrow>
        (if Funnel (sites ! i) = None then Sendit (sites ! i) \<or> (\<exists>j<Suc k. Sendit (sites ! j) \<and> Funnel (sites ! j) = Some i)
         else Suc k \<le> i \<and> Sendit (sites ! i))" if i: "i < length sites" for i
    proof (cases "i = k")
      case True
      have "Funnel (sites ! k) \<noteq> Some k" using ok [OF k] by auto
      then show ?thesis using flags(2) [OF i] True IH(2,3) [OF k] k by (auto simp: less_Suc_eq)
    next
      case False
      then have le: "k \<le> i \<longleftrightarrow> Suc k \<le> i" by auto
      have to: "Funnel (sites ! k) = Some i \<Longrightarrow> Funnel (sites ! i) = None" using ok [OF k] by auto
      show ?thesis
        using flags(2) [OF i] False IH(2,3) [OF i] IH(2,3) [OF k] le to by (auto simp: less_Suc_eq split: if_splits)
    qed
    then show ?case using flags(1,3) IH k by auto
  qed
  have "funnel_sites sites = after (length sites)" by (simp add: funnel_sites_def after_def)
  then show ?thesis using inv [of "length sites"] i by auto
qed

lemma propagate_flags:
  assumes "sites_ok sites" "i < length sites"
  shows "Sendit (ARTpropagate fi sites ! i) \<longleftrightarrow> Funnel (sites ! i) = None \<and>
    (chosen fi sites i \<or> (\<exists>j<length sites. chosen fi sites j \<and> Funnel (sites ! j) = Some i))"
proof -
  let ?M = "marked fi sites (length sites)"
  have M: "Sendit (?M ! j) = chosen fi sites j" "Funnel (?M ! j) = Funnel (sites ! j)" if "j < length sites" for j
    using that by (simp_all add: marked_nth)
  have ok: "f < length ?M \<and> Funnel (?M ! f) = None" if "j < length ?M" "Funnel (?M ! j) = Some f" for j f
    using assms(1) that M unfolding sites_ok_def marked_nth(2) by metis
  have len: "length ?M = length sites" by (simp add: marked_nth)
  have "Sendit (funnel_sites ?M ! i) \<longleftrightarrow> Funnel (?M ! i) = None \<and>
    (Sendit (?M ! i) \<or> (\<exists>j<length ?M. Sendit (?M ! j) \<and> Funnel (?M ! j) = Some i))"
  proof (rule funnel_sites_flags)
    show "i < length ?M" unfolding len by (rule assms(2))
  qed (rule ok)
  moreover have "(\<exists>j<length ?M. Sendit (?M ! j) \<and> Funnel (?M ! j) = Some i) \<longleftrightarrow>
      (\<exists>j<length sites. chosen fi sites j \<and> Funnel (sites ! j) = Some i)"
    by (simp add: len M cong: conj_cong)
  ultimately show ?thesis
    unfolding ARTpropagate_def mark_sites_marked [OF assms(1)] M [OF assms(2)] by (simp only:)
qed


text \<open>An entry as \<open>SITEparseone\<close> clears it.\<close>

definition SITEnull :: SITE where
  "SITEnull = \<lparr>Name = [], Freed = False, Exclusions = None, Distributions = None, Patterns = [], Poison = False,
     PoisonEntry = False, Sendit = False, Seenit = False, IgnoreControl = False, DistRequired = False, IgnorePath = False,
     ControlOnly = False, DontWantNonExist = False, NeedOverviewCreation = False, FeedwithoutOriginator = False,
     DropFiltered = False, FeedTrash = False, Hops = 0, MaxGroupcount = 0, MaxFollowcount = 0, MaxCrosscount = 0,
     Type = FTerror, ng = None, SpoolName = [], StartWriting = 0, StopWriting = 0, StartSpooling = 0, Param = [],
     FileFlags = [CHR ''n''], MaxSize = 0, MinSize = 0, Nice = 0, IsMaster = False, Master = None, Funnel = None,
     FNLwantsnames = False, FNLnames = [], Flushpoint = 0, Originator = None, HashFeedList = []\<rparr>"

definition a_site :: "octets \<Rightarrow> SITE" where
  "a_site n = SITEnull\<lparr>Name := n, Sendit := True\<rparr>"

definition three_sites :: "SITE list" where
  "three_sites = [(a_site ''all!'')\<lparr>Sendit := False\<rparr>, (a_site ''news.one'')\<lparr>Funnel := Some 0\<rparr>,
     (a_site ''news.two'')\<lparr>Master := Some 1\<rparr>]"

definition an_article :: feedinfo where
  "an_article = \<lparr>fi_xtrace = None, fi_injection = None, fi_msgid = ''<a@b>'', fi_bytes = 100, fi_groups = 1,
     fi_follows = 1, fi_hops = [''news.three'', ''not-for-mail''], fi_dists = [], fi_control = False,
     fi_overview = True, fi_filtered = False\<rparr>"

lemma three_sites_ok: "sites_ok three_sites"
  by (auto simp: sites_ok_def three_sites_def a_site_def SITEnull_def less_Suc_eq eval_nat_numeral)


section \<open>The Path keeps articles from coming back\<close>

definition host_ok :: "octets \<Rightarrow> bool" where
  "host_ok h \<longleftrightarrow> h \<noteq> [] \<and> list_all ARThostchar h"

fun path_text :: "octets list \<Rightarrow> octets" where
  "path_text [] = []"
| "path_text [h] = h"
| "path_text (h # hs) = h @ CHR ''!'' # path_text hs"

lemma hostchar_facts: "ARThostchar c \<Longrightarrow> \<not> ISWHITE c" "\<not> ARThostchar CHR ''!''" "\<not> ARThostchar NUL"
proof -
  have "\<not> ARThostchar SP" "\<not> ARThostchar TAB" by code_simp+
  then show "ARThostchar c \<Longrightarrow> \<not> ISWHITE c" by (auto simp: ISWHITE_def)
  show "\<not> ARThostchar CHR ''!''" "\<not> ARThostchar NUL" by code_simp+
qed

lemma host_at_front:
  assumes "host_ok h"
  shows "dropWhile (\<lambda>c. \<not> ARThostchar c \<and> ISWHITE c) (h @ p) = h @ p"
    and "takeWhile (\<lambda>c. ARThostchar c \<and> \<not> ISWHITE c) (h @ CHR ''!'' # p) = h"
    and "takeWhile (\<lambda>c. ARThostchar c \<and> \<not> ISWHITE c) h = h"
  using assms hostchar_facts
  by (cases h; fastforce simp: host_ok_def list_all_iff takeWhile_append2 takeWhile_eq_all_conv)+

lemma ARTparsepath_text:
  "list_all host_ok hosts \<Longrightarrow> ARTparsepath_loop (path_text hosts) list = list @ hosts"
proof (induction hosts arbitrary: list rule: path_text.induct)
  case 1
  then show ?case by (simp add: ARTparsepath_loop.simps)
next
  case (2 h)
  then have h: "host_ok h" by simp
  have "dropWhile (\<lambda>c. \<not> ARThostchar c \<and> ISWHITE c) h = h" using host_at_front(1) [OF h, of "[]"] by simp
  then show ?case using h unfolding path_text.simps
    by (subst ARTparsepath_loop.simps) (simp only: Let_def host_at_front(3) [OF h], simp add: host_ok_def)
next
  case (3 h g hs)
  then have h: "host_ok h" by simp
  have "ARTparsepath_loop (h @ CHR ''!'' # path_text (g # hs)) list = ARTparsepath_loop (path_text (g # hs)) (list @ [h])"
    by (subst ARTparsepath_loop.simps) (simp add: host_at_front [OF h])
  then show ?case using 3 by simp
qed

lemma ListHas_key:
  assumes "list_all (\<lambda>q. NUL \<notin> set q) list" "NUL \<notin> set p"
  shows "ListHas list p \<longleftrightarrow> list_ex (\<lambda>q. map c_tolower q = map c_tolower p) list"
  using assms by (induction list) (auto simp: ListHas_def strcasecmp_zero name_key_eq)

lemma chosen_accepts: "chosen fi sites i \<Longrightarrow> site_accepts fi (sites ! i)"
  by (subst (asm) chosen.simps) (simp add: candidate_def)

lemma in_path_not_chosen:
  assumes "list_all host_ok hosts" "fi_hops fi = ARTparsepath (path_text hosts)"
    and "h \<in> set hosts" "map c_tolower h = map c_tolower (Name (sites ! i))" "\<not> IgnorePath (sites ! i)"
  shows "\<not> chosen fi sites i"
proof -
  have hops: "fi_hops fi = hosts" using assms(1,2) by (simp add: ARTparsepath_def ARTparsepath_text)
  have nul: "NUL \<notin> set q" if "q \<in> set hosts" for q
    using assms(1) that hostchar_facts(3) by (auto simp: list_all_iff host_ok_def)
  have map_NUL: "NUL \<in> set (map c_tolower l) \<longleftrightarrow> NUL \<in> set l" for l
    by (induction l) (auto, (metis tolower_NUL)+)
  have "NUL \<in> set (Name (sites ! i)) \<longleftrightarrow> NUL \<in> set h" using assms(4) map_NUL by metis
  then have "ListHas hosts (Name (sites ! i))"
    using nul assms(3,4) by (auto simp: ListHas_key list_all_iff list_ex_iff)
  then show ?thesis using chosen_accepts [of fi sites i] assms(5) hops by (auto simp: site_accepts_def)
qed



text \<open>
  C26: An article is not sent twice to a site with several entries: of two entries of one group (a master and its slave,
  or two slaves of one master, none of them a funnel) at most one gets it.
\<close>

theorem one_of_a_group:
  assumes "sites_ok sites" "i < length sites" "j < i" "related sites j i"
    and "\<forall>k<length sites. Funnel (sites ! k) \<noteq> Some i \<and> Funnel (sites ! k) \<noteq> Some j"
  shows "\<not> (Sendit (ARTpropagate fi sites ! j) \<and> Sendit (ARTpropagate fi sites ! i))"
proof
  assume "Sendit (ARTpropagate fi sites ! j) \<and> Sendit (ARTpropagate fi sites ! i)"
  then have "chosen fi sites j" "chosen fi sites i"
    using propagate_flags [OF assms(1), of j fi] propagate_flags [OF assms(1), of i fi] assms by auto
  then show False using assms(3,4) by (subst (asm) chosen.simps [of fi sites i]) (auto simp: list_all_iff)
qed

lemma one_of_a_group_witness:
  "\<not> (Sendit (ARTpropagate an_article three_sites ! 1) \<and> Sendit (ARTpropagate an_article three_sites ! 2))"
proof (rule one_of_a_group [OF three_sites_ok])
  show "related three_sites 1 2" by code_simp
  show "\<forall>k<length three_sites. Funnel (three_sites ! k) \<noteq> Some 2 \<and> Funnel (three_sites ! k) \<noteq> Some 1"
    by (auto simp: three_sites_def a_site_def SITEnull_def less_Suc_eq eval_nat_numeral)
qed (simp_all add: three_sites_def)

text \<open>
  Where the code falls short. When an entry stands before its master in the table, the master that it has marked
  as seen is skipped with its \<open>Sendit\<close> left on, and both are sent the article. \<open>DISTwanted\<close> compares the first
  letters as they are before it compares the words without regard to case.
\<close>

lemma master_after_slave:
  "map Sendit (ARTpropagate an_article [(a_site ''news.two'')\<lparr>Master := Some 1\<rparr>, a_site ''news.two'']) = [True, True]"
  by code_simp

lemma DISTwanted_first_letter:
  "DISTwanted [''world''] ''wORLD'' \<and> \<not> DISTwanted [''world''] ''World'' \<and> strcasecmp ''World'' ''world'' = 0"
  by code_simp

end
