(* ===== verification/Ng.thy ===== *)
theory Ng
  imports Artclean
begin

text \<open>
  The newsgroups in core (\<open>innd/ng.c\<close>, with \<open>FormatLong\<close> of \<open>innd/util.c\<close>): \<open>NGparsefile\<close> reads
  the text of the active file, which stays in core and is updated in place, and builds the table of groups
  and the hash table that \<open>NGfind\<close> looks names up in. Pointers into the text are offsets, pointers to
  groups are indices. The lemmas show that \<open>NGfind\<close> finds exactly the groups of the file, and that text and
  table stay in step when numbers are assigned, so that a server that is started again reads them back.
\<close>

section \<open>The table\<close>

record NEWSGROUP =
  ng_Name :: octets
  ng_Last :: nat
  ng_Filenum :: nat
  ng_Lastwidth :: nat
  ng_PostCount :: nat
  ng_LastString :: nat
  ng_Rest :: nat
  ng_Sites :: "int list"
  ng_Poison :: "int list"
  ng_Alias :: "nat option"

text \<open>The buckets hold indices of groups.\<close>

record ngtable =
  Active :: octets
  Groups :: "NEWSGROUP list"
  NGHtable :: "nat list list"

definition NGH_SIZE :: nat where "NGH_SIZE = 2048"

definition NF_FLAG_MODERATED :: char where "NF_FLAG_MODERATED = CHR ''m''"
definition NF_FLAG_JUNK :: char where "NF_FLAG_JUNK = CHR ''j''"
definition NF_FLAG_IGNORE :: char where "NF_FLAG_IGNORE = CHR ''x''"
definition NF_FLAG_ALIAS :: char where "NF_FLAG_ALIAS = CHR ''=''"

definition NGH_HASH :: "octets \<Rightarrow> 32 word" where
  "NGH_HASH name = foldl (\<lambda>j c. push_bit 5 j + j + of_int (signed_char c)) 0 name"

definition NGH_BUCKET :: "octets \<Rightarrow> nat" where
  "NGH_BUCKET name = unat (NGH_HASH name) mod NGH_SIZE"

text \<open>\<open>strchr\<close> on the text from offset \<open>p\<close>, which a NUL ends.\<close>

definition strchr :: "octets \<Rightarrow> nat \<Rightarrow> char \<Rightarrow> nat option" where
  "strchr s p c =
     (case find (\<lambda>i. s ! i = c \<or> s ! i = NUL) [p..<length s] of
        Some i \<Rightarrow> if s ! i = c then Some i else None
      | None \<Rightarrow> None)"

definition NGfind :: "ngtable \<Rightarrow> octets \<Rightarrow> nat option" where
  "NGfind st name =
     find (\<lambda>i. deref name = deref (ng_Name (Groups st ! i)) \<and> name = ng_Name (Groups st ! i))
       (NGHtable st ! NGH_BUCKET name)"

section \<open>Reading the active file\<close>

text \<open>
  One line: \<open>p\<close> its first octet, \<open>q\<close> its line feed. \<open>ovgroupadd\<close> is \<open>OVgroupadd\<close>, or true when
  no overview is kept. The second search for the space behind the high mark finds the same one.
\<close>

definition NGparseentry ::
  "(octets \<Rightarrow> int \<Rightarrow> nat \<Rightarrow> octets \<Rightarrow> bool) \<Rightarrow> ngtable \<Rightarrow> nat \<Rightarrow> nat \<Rightarrow> ngtable option" where
  "NGparseentry ovgroupadd st p end_line =
     do { q \<leftarrow> strchr (Active st) p SP;
          let name = substr (Active st) p (q - p);
          let last = q + 1;
          q \<leftarrow> strchr (Active st) last SP;
          if end_line < q then None else
          do { let width = q - last;
               q \<leftarrow> strchr (Active st) q SP;
               if end_line < q then None else
               do { let lo = atol (drop (q + 1) (Active st));
                    q \<leftarrow> strchr (Active st) (q + 1) SP;
                    if end_line < q then None else
                    do { let g = \<lparr>ng_Name = name, ng_Last = nat (atol (drop last (Active st)) mod 2 ^ 64), ng_Filenum = 0,
                           ng_Lastwidth = width, ng_PostCount = 0, ng_LastString = last, ng_Rest = q + 1,
                           ng_Sites = [], ng_Poison = [], ng_Alias = None\<rparr>;
                         let j = NGH_BUCKET name;
                         if list_ex (\<lambda>i. ng_Name (Groups st ! i) = name) (NGHtable st ! j) then None
                         else if \<not> ovgroupadd name lo (ng_Last g) (drop (ng_Rest g) (Active st)) then None
                         else Some (st\<lparr>Groups := Groups st @ [g],
                                 NGHtable := (NGHtable st)[j := NGHtable st ! j @ [length (Groups st)]]\<rparr>) } } } }"

fun parse_entries ::
  "(octets \<Rightarrow> int \<Rightarrow> nat \<Rightarrow> octets \<Rightarrow> bool) \<Rightarrow> nat \<Rightarrow> nat \<Rightarrow> ngtable \<Rightarrow> ngtable option" where
  "parse_entries ovgroupadd p 0 st = Some st"
| "parse_entries ovgroupadd p (Suc n) st =
     do { q \<leftarrow> strchr (Active st) p LF;
          st \<leftarrow> NGparseentry ovgroupadd st p q;
          parse_entries ovgroupadd (q + 1) n st }"

text \<open>\<open>NGcompare\<close> returns the difference as an \<open>int\<close>; the order in a bucket does not matter.\<close>

definition NGcompare :: "NEWSGROUP \<Rightarrow> NEWSGROUP \<Rightarrow> int" where
  "NGcompare n1 n2 = sint (word_of_int (int (ng_Last n1) - int (ng_Last n2)) :: 32 word)"

fun bucket_insert :: "NEWSGROUP list \<Rightarrow> nat \<Rightarrow> nat list \<Rightarrow> nat list" where
  "bucket_insert gs i [] = [i]"
| "bucket_insert gs i (j # js) =
     (if NGcompare (gs ! i) (gs ! j) \<le> 0 then i # j # js else j # bucket_insert gs i js)"

definition sort_buckets :: "ngtable \<Rightarrow> ngtable" where
  "sort_buckets st = st\<lparr>NGHtable := map (\<lambda>b. foldr (bucket_insert (Groups st)) b []) (NGHtable st)\<rparr>"

definition chase_alias :: "ngtable \<Rightarrow> NEWSGROUP \<Rightarrow> NEWSGROUP" where
  "chase_alias st g =
     (if deref (drop (ng_Rest g) (Active st)) = NF_FLAG_ALIAS
      then g\<lparr>ng_Alias := NGfind st (takeWhile (\<lambda>c. c \<noteq> LF \<and> c \<noteq> NUL) (drop (ng_Rest g + 1) (Active st)))\<rparr>
      else g)"

text \<open>\<open>None\<close> is the exit of the server on a bad or empty file.\<close>

definition NGparsefile :: "(octets \<Rightarrow> int \<Rightarrow> nat \<Rightarrow> octets \<Rightarrow> bool) \<Rightarrow> octets \<Rightarrow> ngtable option" where
  "NGparsefile ovgroupadd active =
     (let n = length (filter (\<lambda>c. c = LF) active) in
      if n = 0 then None
      else
        do { st \<leftarrow> parse_entries ovgroupadd 0 n
               \<lparr>Active = active, Groups = [], NGHtable = replicate NGH_SIZE []\<rparr>;
             let st = sort_buckets st;
             Some (st\<lparr>Groups := map (chase_alias st) (Groups st)\<rparr>) })"

section \<open>Writing numbers in place\<close>

text \<open>The digits of \<open>FormatLong\<close>, the least significant last, and what is left of the value.\<close>

fun long_digits :: "nat \<Rightarrow> nat \<Rightarrow> octets \<times> nat" where
  "long_digits 0 v = ([], v)"
| "long_digits (Suc w) v = (let (ds, r) = long_digits w (v div 10) in (ds @ [chr (v mod 10 + 48)], r))"

definition put_octets :: "octets \<Rightarrow> nat \<Rightarrow> octets \<Rightarrow> octets" where
  "put_octets s i t = take i s @ t @ drop (i + length t) s"

definition FormatLong :: "octets \<Rightarrow> nat \<Rightarrow> nat \<Rightarrow> nat \<Rightarrow> octets \<times> bool" where
  "FormatLong s p v w = (let (ds, r) = long_digits w v in (put_octets s p ds, r = 0))"

text \<open>The new high mark of a group, in the table and in the text of the active file.\<close>

definition set_last :: "ngtable \<Rightarrow> nat \<Rightarrow> nat \<Rightarrow> ngtable \<times> bool" where
  "set_last st i n =
     (let g = Groups st ! i; (a, fits) = FormatLong (Active st) (ng_LastString g) n (ng_Lastwidth g) in
      (st\<lparr>Active := a, Groups := (Groups st)[i := g\<lparr>ng_Last := n\<rparr>]\<rparr>, fits))"

section \<open>Digits\<close>

lemma long_digits_length: "length (fst (long_digits w v)) = w"
  by (induction w arbitrary: v) (auto simp: case_prod_beta)

lemma long_digits_rest: "snd (long_digits w v) = v div 10 ^ w"
  by (induction w arbitrary: v) (auto simp: case_prod_beta div_mult2_eq)

lemma c_isdigit_chr: "d < 10 \<Longrightarrow> c_isdigit (chr (d + 48))"
  by (simp add: c_isdigit_def)

lemma long_digits_digits: "list_all c_isdigit (fst (long_digits w v))"
  by (induction w arbitrary: v) (auto simp: case_prod_beta c_isdigit_chr)

lemma dec_value_snoc: "dec_value (ds @ [d]) = dec_value ds * 10 + (ord d - 48)"
  by (simp add: dec_value_def)

lemma dec_value_less: "list_all c_isdigit ds \<Longrightarrow> dec_value ds < 10 ^ length ds"
proof (induction ds rule: rev_induct)
  case (snoc d ds)
  then have "ord d \<le> 57" by (simp add: c_isdigit_def)
  then have "ord d - 48 < 10" by linarith
  then show ?case using snoc by (simp add: dec_value_snoc)
qed (simp add: dec_value_def)

lemma long_digits_value: "dec_value (fst (long_digits w v)) = v mod 10 ^ w"
proof (induction w arbitrary: v)
  case 0
  then show ?case by (simp add: dec_value_def)
next
  case (Suc w)
  have "v mod 10 + 48 < 256" using mod_less_divisor [of 10 v] by linarith
  then show ?case using Suc [of "v div 10"]
    by (simp add: case_prod_beta dec_value_snoc mod_mult2_eq)
qed

lemma put_octets_length: "i + length t \<le> length s \<Longrightarrow> length (put_octets s i t) = length s"
  by (simp add: put_octets_def)

lemma FormatLong_fits: "snd (FormatLong s p v w) \<longleftrightarrow> v < 10 ^ w"
  by (auto simp: FormatLong_def case_prod_beta long_digits_rest div_eq_0_iff)

section \<open>The text of the active file\<close>

text \<open>A line: the name, the digits of the high mark, the low mark, the flag.\<close>

record entry =
  e_name :: octets
  e_hi :: octets
  e_lo :: octets
  e_flag :: octets

definition entry_ok :: "entry \<Rightarrow> bool" where
  "entry_ok e \<longleftrightarrow> SP \<notin> set (e_name e) \<and> NUL \<notin> set (e_name e) \<and> LF \<notin> set (e_name e) \<and>
     e_hi e \<noteq> [] \<and> length (e_hi e) \<le> 18 \<and> list_all c_isdigit (e_hi e) \<and>
     SP \<notin> set (e_lo e) \<and> NUL \<notin> set (e_lo e) \<and> LF \<notin> set (e_lo e) \<and>
     NUL \<notin> set (e_flag e) \<and> LF \<notin> set (e_flag e)"

definition entry_line :: "entry \<Rightarrow> octets" where
  "entry_line e = e_name e @ SP # e_hi e @ SP # e_lo e @ SP # e_flag e @ [LF]"

definition active_text :: "entry list \<Rightarrow> octets" where
  "active_text es = concat (map entry_line es)"

definition entry_start :: "entry list \<Rightarrow> nat \<Rightarrow> nat" where
  "entry_start es i = length (active_text (take i es))"

text \<open>The group agrees with the line that begins at \<open>p\<close>.\<close>

definition group_of :: "nat \<Rightarrow> entry \<Rightarrow> NEWSGROUP \<Rightarrow> bool" where
  "group_of p e g \<longleftrightarrow> ng_Name g = e_name e \<and> ng_Last g = dec_value (e_hi e) \<and>
     ng_LastString g = p + length (e_name e) + 1 \<and> ng_Lastwidth g = length (e_hi e) \<and>
     ng_Rest g = p + length (e_name e) + length (e_hi e) + length (e_lo e) + 3"

definition in_step :: "ngtable \<Rightarrow> entry list \<Rightarrow> bool" where
  "in_step st es \<longleftrightarrow> Active st = active_text es \<and> list_all entry_ok es \<and> length (Groups st) = length es \<and>
     (\<forall>i<length es. group_of (entry_start es i) (es ! i) (Groups st ! i))"

text \<open>The hash table has every group in the bucket of its name, and names are not repeated.\<close>

definition table_ok :: "NEWSGROUP list \<Rightarrow> nat list list \<Rightarrow> bool" where
  "table_ok gs table \<longleftrightarrow> length table = NGH_SIZE \<and> distinct (map ng_Name gs) \<and>
     (\<forall>j<NGH_SIZE. set (table ! j) = {i. i < length gs \<and> NGH_BUCKET (ng_Name (gs ! i)) = j})"

lemma NGH_BUCKET_less: "NGH_BUCKET name < NGH_SIZE"
  by (simp add: NGH_BUCKET_def NGH_SIZE_def)

lemma NGfind_iff:
  assumes "table_ok (Groups st) (NGHtable st)"
  shows "NGfind st name = Some i \<longleftrightarrow> i < length (Groups st) \<and> ng_Name (Groups st ! i) = name"
proof -
  let ?P = "\<lambda>i. deref name = deref (ng_Name (Groups st ! i)) \<and> name = ng_Name (Groups st ! i)"
  let ?b = "NGHtable st ! NGH_BUCKET name"
  have b: "set ?b = {i. i < length (Groups st) \<and> NGH_BUCKET (ng_Name (Groups st ! i)) = NGH_BUCKET name}"
    and d: "distinct (map ng_Name (Groups st))"
    using assms NGH_BUCKET_less [of name] by (auto simp: table_ok_def)
  have uniq: "i = j" if "i < length (Groups st)" "j < length (Groups st)"
    "ng_Name (Groups st ! i) = ng_Name (Groups st ! j)" for i j
    using that d nth_eq_iff_index_eq [of "map ng_Name (Groups st)" i j] by simp
  show ?thesis
  proof
    assume "NGfind st name = Some i"
    then have "i \<in> set ?b" "?P i" by (auto simp: NGfind_def find_Some_iff)
    then show "i < length (Groups st) \<and> ng_Name (Groups st ! i) = name" using b by auto
  next
    assume i: "i < length (Groups st) \<and> ng_Name (Groups st ! i) = name"
    then have "i \<in> set ?b" "?P i" using b by auto
    then obtain j where j: "find ?P ?b = Some j" by (cases "find ?P ?b") (auto simp: find_None_iff)
    then have "j \<in> set ?b" "?P j" by (auto simp: find_Some_iff)
    then have "j = i" using i b uniq [of j i] by auto
    then show "NGfind st name = Some i" using j by (simp add: NGfind_def)
  qed
qed

lemma active_text_split:
  "i < length es \<Longrightarrow> active_text es = active_text (take i es) @ entry_line (es ! i) @ active_text (drop (Suc i) es)"
  by (subst id_take_nth_drop [of i es]) (simp_all add: active_text_def)

lemma entry_start_update:
  assumes "i < length es" "length ds = length (e_hi (es ! i))"
  shows "entry_start (es[i := (es ! i)\<lparr>e_hi := ds\<rparr>]) j = entry_start es j"
proof -
  have "length (entry_line ((es ! i)\<lparr>e_hi := ds\<rparr>)) = length (entry_line (es ! i))"
    using assms(2) by (simp add: entry_line_def)
  then have "map (length \<circ> entry_line) (es[i := (es ! i)\<lparr>e_hi := ds\<rparr>]) = map (length \<circ> entry_line) es"
    using assms(1) by (auto simp: map_update list_update_same_conv)
  then show ?thesis
    by (simp add: entry_start_def active_text_def length_concat take_map [symmetric])
qed

lemma active_text_update:
  assumes "i < length es" "length ds = length (e_hi (es ! i))"
  shows "put_octets (active_text es) (entry_start es i + length (e_name (es ! i)) + 1) ds =
     active_text (es[i := (es ! i)\<lparr>e_hi := ds\<rparr>])"
proof -
  let ?e = "es ! i"
  have "active_text es = active_text (take i es) @ e_name ?e @ SP # e_hi ?e @
      (SP # e_lo ?e @ SP # e_flag ?e @ [LF]) @ active_text (drop (Suc i) es)"
    by (subst active_text_split [OF assms(1)]) (simp add: entry_line_def)
  moreover have "active_text (es[i := ?e\<lparr>e_hi := ds\<rparr>]) = active_text (take i es) @ e_name ?e @ SP # ds @
      (SP # e_lo ?e @ SP # e_flag ?e @ [LF]) @ active_text (drop (Suc i) es)"
    using assms(1) by (subst active_text_split [of i]) (simp_all add: entry_line_def)
  ultimately show ?thesis using assms(2) by (simp add: put_octets_def entry_start_def)
qed

lemma set_last_in_step:
  assumes st: "in_step st es" and i: "i < length es" and n: "n < 10 ^ ng_Lastwidth (Groups st ! i)"
    and r: "set_last st i n = (st', fits)"
  shows "fits" "in_step st' (es[i := (es ! i)\<lparr>e_hi := fst (long_digits (ng_Lastwidth (Groups st ! i)) n)\<rparr>])"
    "Groups st' = (Groups st)[i := (Groups st ! i)\<lparr>ng_Last := n\<rparr>]" "NGHtable st' = NGHtable st"
proof -
  let ?g = "Groups st ! i"
  let ?ds = "fst (long_digits (ng_Lastwidth ?g) n)"
  let ?es = "es[i := (es ! i)\<lparr>e_hi := ?ds\<rparr>]"
  have g: "group_of (entry_start es i) (es ! i) ?g" using st i by (simp add: in_step_def)
  have len: "length ?ds = length (e_hi (es ! i))" using g by (simp add: long_digits_length group_of_def)
  have st': "st' = st\<lparr>Active := put_octets (Active st) (ng_LastString ?g) ?ds, Groups := (Groups st)[i := ?g\<lparr>ng_Last := n\<rparr>]\<rparr>"
    "fits = (n div 10 ^ ng_Lastwidth ?g = 0)"
    using r by (auto simp: set_last_def FormatLong_def Let_def case_prod_beta long_digits_rest)
  then show "fits" "Groups st' = (Groups st)[i := ?g\<lparr>ng_Last := n\<rparr>]" "NGHtable st' = NGHtable st"
    using n by simp_all
  have "Active st' = active_text ?es"
    using active_text_update [OF i len] st g by (simp add: st' in_step_def group_of_def)
  moreover have "list_all entry_ok ?es"
  proof -
    have "entry_ok (es ! i)" using st i by (auto simp: in_step_def list_all_length)
    then have "entry_ok ((es ! i)\<lparr>e_hi := ?ds\<rparr>)" using len long_digits_digits by (auto simp: entry_ok_def)
    then show ?thesis using st i by (auto simp: in_step_def list_all_length nth_list_update)
  qed
  moreover have "group_of (entry_start ?es j) (?es ! j) (Groups st' ! j)" if "j < length es" for j
  proof (cases "j = i")
    case True
    then show ?thesis using g n i st len unfolding entry_start_update [OF i len]
      by (auto simp: group_of_def st' long_digits_value in_step_def)
  next
    case False
    then show ?thesis using that st i unfolding entry_start_update [OF i len] by (simp add: in_step_def st')
  qed
  ultimately show "in_step st' ?es" using st by (auto simp: in_step_def st')
qed

text \<open>Changes of the other members keep table and text as they are.\<close>

lemma in_step_group:
  assumes "in_step st es" "\<And>p e. group_of p e (Groups st ! i) \<Longrightarrow> group_of p e g"
  shows "in_step (st\<lparr>Groups := (Groups st)[i := g]\<rparr>) es"
proof -
  have "group_of (entry_start es j) (es ! j) ((Groups st)[i := g] ! j)" if "j < length es" for j
    using assms that by (cases "j = i") (auto simp: in_step_def)
  then show ?thesis using assms(1) by (simp add: in_step_def)
qed

lemma group_of_sel [simp]:
  "group_of p e (g\<lparr>ng_Filenum := n\<rparr>) = group_of p e g" "group_of p e (g\<lparr>ng_PostCount := n\<rparr>) = group_of p e g"
  "group_of p e (g\<lparr>ng_Alias := a\<rparr>) = group_of p e g"
  by (simp_all add: group_of_def)

lemma table_ok_cong:
  assumes names: "map ng_Name gs' = map ng_Name gs" and ok: "table_ok gs table"
  shows "table_ok gs' table"
proof -
  have "length gs' = length gs" using names by (rule map_eq_imp_length_eq)
  moreover have "ng_Name (gs' ! i) = ng_Name (gs ! i)" if "i < length gs" for i
    using that calculation arg_cong [OF names, of "\<lambda>l. l ! i"] by simp
  ultimately have "{i. i < length gs' \<and> NGH_BUCKET (ng_Name (gs' ! i)) = j} =
      {i. i < length gs \<and> NGH_BUCKET (ng_Name (gs ! i)) = j}" for j by auto
  then show ?thesis using ok names unfolding table_ok_def by simp
qed

lemma names_update: "ng_Name g = ng_Name (gs ! i) \<Longrightarrow> map ng_Name (gs[i := g]) = map ng_Name gs"
  by (simp add: map_update list_update_same_conv) (metis list_update_id map_update)

lemma NGfind_names:
  assumes "map ng_Name (Groups st') = map ng_Name (Groups st)" "NGHtable st' = NGHtable st" "table_ok (Groups st) (NGHtable st)"
  shows "NGfind st' = NGfind st"
proof
  fix name
  have "length (Groups st') = length (Groups st)" using assms(1) by (rule map_eq_imp_length_eq)
  moreover have "ng_Name (Groups st' ! i) = ng_Name (Groups st ! i)" if "i < length (Groups st)" for i
    using that calculation arg_cong [OF assms(1), of "\<lambda>l. l ! i"] by simp
  moreover have "table_ok (Groups st') (NGHtable st')" using table_ok_cong [OF assms(1,3)] assms(2) by simp
  ultimately have "NGfind st' name = Some i \<longleftrightarrow> NGfind st name = Some i" for i
    using NGfind_iff assms(3) by auto
  then show "NGfind st' name = NGfind st name" by (metis not_None_eq)
qed

section \<open>The file that is read\<close>

lemma strchr_first:
  assumes "drop p s = t @ c # u" "c \<notin> set t" "NUL \<notin> set t" "c \<noteq> NUL"
  shows "strchr s p c = Some (p + length t)"
proof -
  have len: "p + length t < length s" using arg_cong [OF assms(1), of length] by simp
  have nth: "s ! (p + k) = (t @ c # u) ! k" if "k \<le> length t" for k
    using assms(1) len that by (metis add.commute add_leD2 le_trans less_or_eq_imp_le nth_drop add_le_cancel_left)
  have "s ! m \<noteq> c \<and> s ! m \<noteq> NUL" if "p \<le> m" "m < p + length t" for m
    using nth [of "m - p"] that assms(2,3) by (auto simp: nth_append dest: nth_mem)
  then have "find (\<lambda>i. s ! i = c \<or> s ! i = NUL) [p..<length s] = Some (p + length t)"
    using nth [of "length t"] len by (auto simp: find_upt_Some)
  then show ?thesis using nth [of "length t"] by (simp add: strchr_def)
qed

lemma atol_digits:
  assumes "list_all c_isdigit ds" "ds \<noteq> []" "length ds \<le> 18" "u \<noteq> [] \<longrightarrow> \<not> c_isdigit (hd u)"
  shows "atol (ds @ u) = int (dec_value ds)"
proof -
  obtain d ds' where ds: "ds = d # ds'" using assms(2) by (cases ds) auto
  then have "c_isdigit d" using assms(1) by simp
  moreover have "\<not> c_isdigit SP" "\<not> c_isdigit CHR ''-''" "\<not> c_isdigit CHR ''+''" by code_simp+
  ultimately have "\<not> c_isspace d" "d \<noteq> CHR ''-''" "d \<noteq> CHR ''+''"
    by (auto simp: c_isdigit_def c_isspace_def)
  moreover have "takeWhile c_isdigit (ds @ u) = ds"
    using assms(1,4) by (cases u) (auto simp: list_all_iff takeWhile_append2)
  moreover have "dec_value ds < 10 ^ length ds"
    using assms(1) by (rule dec_value_less)
  then have "dec_value ds < 10 ^ 18" using assms(3) power_increasing [of "length ds" 18 "10 :: nat"] by simp
  ultimately show ?thesis by (simp add: atol_def Let_def ds deref_def)
qed

lemma parse_entry:
  assumes d: "drop p (Active st) = entry_line e @ u" and e: "entry_ok e" and j: "NGH_BUCKET (e_name e) < length (NGHtable st)"
    and new: "\<forall>i\<in>set (NGHtable st ! NGH_BUCKET (e_name e)). ng_Name (Groups st ! i) \<noteq> e_name e"
    and ov: "\<forall>n l k s. ovgroupadd n l k s"
  shows "\<exists>g. group_of p e g \<and> ng_PostCount g = 0 \<and>
    NGparseentry ovgroupadd st p (p + length (entry_line e) - 1) = Some (st\<lparr>Groups := Groups st @ [g],
      NGHtable := (NGHtable st)[NGH_BUCKET (e_name e) := NGHtable st ! NGH_BUCKET (e_name e) @ [length (Groups st)]]\<rparr>)"
proof -
  let ?a = "Active st" and ?n = "length (e_name e)" and ?h = "length (e_hi e)" and ?l = "length (e_lo e)"
  have d0: "drop p ?a = e_name e @ SP # e_hi e @ SP # e_lo e @ SP # e_flag e @ LF # u"
    using d by (simp add: entry_line_def)
  have d1: "drop (p + ?n + 1) ?a = e_hi e @ SP # e_lo e @ SP # e_flag e @ LF # u"
    using arg_cong [OF d0, of "drop (?n + 1)"] by (simp add: add.commute)
  have d2: "drop (p + ?n + 1 + ?h) ?a = [] @ SP # e_lo e @ SP # e_flag e @ LF # u"
    using arg_cong [OF d1, of "drop ?h"] by (simp add: add.commute add.left_commute)
  have d3: "drop (p + ?n + 1 + ?h + 1) ?a = e_lo e @ SP # e_flag e @ LF # u"
    using arg_cong [OF d2, of "drop 1"] by (simp add: add.commute add.left_commute)
  have digits: "SP \<notin> set (e_hi e)" "NUL \<notin> set (e_hi e)"
  proof -
    have "\<not> c_isdigit SP" "\<not> c_isdigit NUL" by code_simp+
    then show "SP \<notin> set (e_hi e)" "NUL \<notin> set (e_hi e)" using e by (auto simp: entry_ok_def list_all_iff)
  qed
  have s1: "strchr ?a p SP = Some (p + ?n)" using d0 e by (intro strchr_first) (auto simp: entry_ok_def)
  have s2: "strchr ?a (p + ?n + 1) SP = Some (p + ?n + 1 + ?h)" using d1 digits by (intro strchr_first) auto
  have s3: "strchr ?a (p + ?n + 1 + ?h) SP = Some (p + ?n + 1 + ?h + length ([] :: octets))"
    using d2 by (intro strchr_first) auto
  have s4: "strchr ?a (p + ?n + 1 + ?h + 1) SP = Some (p + ?n + 1 + ?h + 1 + ?l)"
    using d3 e by (intro strchr_first) (auto simp: entry_ok_def)
  have len: "length (entry_line e) = ?n + ?h + ?l + length (e_flag e) + 4" by (simp add: entry_line_def)
  have "\<not> c_isdigit SP" by code_simp
  then have "atol (drop (p + ?n + 1) ?a) = int (dec_value (e_hi e))"
    unfolding d1 using e by (intro atol_digits) (auto simp: entry_ok_def)
  moreover have "dec_value (e_hi e) < 10 ^ 18"
    using e dec_value_less [of "e_hi e"] power_increasing [of "length (e_hi e)" 18 "10 :: nat"]
    by (auto simp: entry_ok_def)
  ultimately have last: "nat (atol (drop (p + ?n + 1) ?a) mod 2 ^ 64) = dec_value (e_hi e)" by simp
  have name: "substr ?a p ?n = e_name e" using d0 by (simp add: substr_def)
  have "\<not> list_ex (\<lambda>i. ng_Name (Groups st ! i) = e_name e) (NGHtable st ! NGH_BUCKET (e_name e))"
    using new by (auto simp: list_ex_iff)
  moreover define g where "g = \<lparr>ng_Name = e_name e, ng_Last = dec_value (e_hi e), ng_Filenum = 0,
    ng_Lastwidth = ?h, ng_PostCount = 0, ng_LastString = p + ?n + 1, ng_Rest = p + ?n + 1 + ?h + 1 + ?l + 1,
    ng_Sites = [], ng_Poison = [], ng_Alias = None\<rparr>"
  ultimately have "NGparseentry ovgroupadd st p (p + length (entry_line e) - 1) = Some (st\<lparr>Groups := Groups st @ [g],
      NGHtable := (NGHtable st)[NGH_BUCKET (e_name e) := NGHtable st ! NGH_BUCKET (e_name e) @ [length (Groups st)]]\<rparr>)"
    unfolding NGparseentry_def s1 using s2 s3 s4 last name len by (simp add: ov Let_def)
  moreover have "group_of p e g" "ng_PostCount g = 0" by (simp_all add: g_def group_of_def)
  ultimately show ?thesis by blast
qed

definition read_to :: "ngtable \<Rightarrow> entry list \<Rightarrow> nat \<Rightarrow> bool" where
  "read_to st es n \<longleftrightarrow> Active st = active_text es \<and> length (Groups st) = n \<and>
     (\<forall>i<n. group_of (entry_start es i) (es ! i) (Groups st ! i)) \<and> table_ok (Groups st) (NGHtable st)"

lemma table_ok_snoc:
  assumes "table_ok gs table" "ng_Name g \<notin> set (map ng_Name gs)"
  shows "table_ok (gs @ [g]) (table[NGH_BUCKET (ng_Name g) := table ! NGH_BUCKET (ng_Name g) @ [length gs]])"
proof -
  have "set (table[NGH_BUCKET (ng_Name g) := table ! NGH_BUCKET (ng_Name g) @ [length gs]] ! j) =
      {i. i < length (gs @ [g]) \<and> NGH_BUCKET (ng_Name ((gs @ [g]) ! i)) = j}" if "j < NGH_SIZE" for j
  proof (cases "j = NGH_BUCKET (ng_Name g)")
    case True
    then have "set (table[NGH_BUCKET (ng_Name g) := table ! NGH_BUCKET (ng_Name g) @ [length gs]] ! j) =
        insert (length gs) (set (table ! j))" using assms(1) that by (simp add: table_ok_def)
    then show ?thesis using assms(1) that True by (auto simp: table_ok_def nth_append less_Suc_eq)
  next
    case False
    then show ?thesis using assms(1) that by (auto simp: table_ok_def nth_append less_Suc_eq)
  qed
  then show ?thesis using assms by (simp add: table_ok_def)
qed

lemma entry_no_LF:
  assumes "entry_ok e"
  shows "entry_line e = butlast (entry_line e) @ [LF]" "LF \<notin> set (butlast (entry_line e))" "NUL \<notin> set (butlast (entry_line e))"
proof -
  have "\<not> c_isdigit LF" "\<not> c_isdigit NUL" by code_simp+
  then have "LF \<notin> set (e_hi e)" "NUL \<notin> set (e_hi e)" using assms by (auto simp: entry_ok_def list_all_iff)
  then show "entry_line e = butlast (entry_line e) @ [LF]" "LF \<notin> set (butlast (entry_line e))"
    "NUL \<notin> set (butlast (entry_line e))"
    using assms by (auto simp: entry_ok_def entry_line_def butlast_append)
qed

lemma read_step:
  assumes r: "read_to st es n" "n < length es" and es: "list_all entry_ok es" "distinct (map e_name es)"
    and ov: "\<forall>n l k s. ovgroupadd n l k s"
  shows "\<exists>st'. strchr (Active st) (entry_start es n) LF = Some (entry_start es (Suc n) - 1) \<and>
    NGparseentry ovgroupadd st (entry_start es n) (entry_start es (Suc n) - 1) = Some st' \<and> read_to st' es (Suc n)"
proof -
  let ?e = "es ! n" and ?p = "entry_start es n"
  have d: "drop ?p (Active st) = entry_line ?e @ active_text (drop (Suc n) es)"
    using r active_text_split [OF r(2)] by (simp add: read_to_def entry_start_def)
  have e: "entry_ok ?e" using es(1) r(2) by (simp add: list_all_length)
  have next_line: "entry_start es (Suc n) = ?p + length (entry_line ?e)"
    using r(2) by (simp add: entry_start_def active_text_def take_Suc_conv_app_nth)
  have "drop ?p (Active st) = butlast (entry_line ?e) @ LF # active_text (drop (Suc n) es)"
    using d arg_cong [OF entry_no_LF(1) [OF e], of "\<lambda>l. l @ active_text (drop (Suc n) es)"] by simp
  then have "strchr (Active st) ?p LF = Some (?p + length (butlast (entry_line ?e)))"
    using entry_no_LF [OF e] by (intro strchr_first) auto
  moreover have "0 < length (entry_line ?e)" by (simp add: entry_line_def)
  ultimately have s: "strchr (Active st) ?p LF = Some (entry_start es (Suc n) - 1)" by (simp add: next_line)
  have names: "ng_Name (Groups st ! i) = e_name (es ! i)" if "i < n" for i
    using r that by (simp add: read_to_def group_of_def)
  have diff: "e_name (es ! i) \<noteq> e_name ?e" if "i < n" for i
    using nth_eq_iff_index_eq [OF es(2), of i n] that r(2) by simp
  have t: "table_ok (Groups st) (NGHtable st)" using r by (simp add: read_to_def)
  have "set (NGHtable st ! NGH_BUCKET (e_name ?e)) \<subseteq> {..<n}"
    using t NGH_BUCKET_less [of "e_name ?e"] r(1) by (auto simp: table_ok_def read_to_def)
  then have "\<forall>i\<in>set (NGHtable st ! NGH_BUCKET (e_name ?e)). ng_Name (Groups st ! i) \<noteq> e_name ?e"
    using names diff by auto
  moreover have "NGH_BUCKET (e_name ?e) < length (NGHtable st)" using t NGH_BUCKET_less by (simp add: table_ok_def)
  ultimately obtain g where g: "group_of ?p ?e g"
    "NGparseentry ovgroupadd st ?p (entry_start es (Suc n) - 1) = Some (st\<lparr>Groups := Groups st @ [g],
      NGHtable := (NGHtable st)[NGH_BUCKET (e_name ?e) := NGHtable st ! NGH_BUCKET (e_name ?e) @ [length (Groups st)]]\<rparr>)"
    using parse_entry [OF d e, where ovgroupadd = ovgroupadd] ov next_line by auto
  have name: "ng_Name g = e_name ?e" using g(1) by (simp add: group_of_def)
  have "ng_Name g \<notin> set (map ng_Name (Groups st))"
  proof
    assume "ng_Name g \<in> set (map ng_Name (Groups st))"
    then obtain i where "i < n" "e_name ?e = ng_Name (Groups st ! i)"
      using r(1) by (auto simp: name in_set_conv_nth read_to_def)
    then show False using names diff by metis
  qed
  from table_ok_snoc [OF t this]
  have "table_ok (Groups st @ [g])
      ((NGHtable st)[NGH_BUCKET (e_name ?e) := NGHtable st ! NGH_BUCKET (e_name ?e) @ [length (Groups st)]])"
    by (simp only: name)
  moreover have "\<forall>i<Suc n. group_of (entry_start es i) (es ! i) ((Groups st @ [g]) ! i)"
    using r(1) g(1) by (auto simp: read_to_def less_Suc_eq nth_append)
  ultimately have "read_to (st\<lparr>Groups := Groups st @ [g], NGHtable := (NGHtable st)[NGH_BUCKET (e_name ?e) :=
      NGHtable st ! NGH_BUCKET (e_name ?e) @ [length (Groups st)]]\<rparr>) es (Suc n)"
    using r(1) by (simp add: read_to_def)
  then show ?thesis using s g(2) by auto
qed

lemma parse_entries_reads:
  assumes es: "list_all entry_ok es" "distinct (map e_name es)" and ov: "\<forall>n l k s. ovgroupadd n l k s"
  shows "read_to st es k \<Longrightarrow> k + n = length es \<Longrightarrow>
    \<exists>st'. parse_entries ovgroupadd (entry_start es k) n st = Some st' \<and> read_to st' es (length es)"
proof (induction n arbitrary: k st)
  case 0
  then show ?case by simp
next
  case (Suc n)
  then have k: "k < length es" by simp
  obtain st' where st': "strchr (Active st) (entry_start es k) LF = Some (entry_start es (Suc k) - 1)"
    "NGparseentry ovgroupadd st (entry_start es k) (entry_start es (Suc k) - 1) = Some st'" "read_to st' es (Suc k)"
    using read_step [OF Suc.prems(1) k es ov] by blast
  have "0 < entry_start es (Suc k)"
    using k by (simp add: entry_start_def active_text_def take_Suc_conv_app_nth entry_line_def)
  then have "entry_start es (Suc k) - 1 + 1 = entry_start es (Suc k)" by simp
  then show ?case using st' Suc.IH [OF st'(3)] Suc.prems(2) by (simp del: Suc_eq_plus1 add: st'(1))
qed

lemma set_sort_bucket: "set (foldr (bucket_insert gs) b []) = set b"
proof -
  have "set (bucket_insert gs i b) = insert i (set b)" for i b by (induction b) auto
  then show ?thesis by (induction b) auto
qed

lemma sort_buckets_ok: "table_ok gs (NGHtable st) \<Longrightarrow> table_ok gs (NGHtable (sort_buckets st))"
  by (auto simp: table_ok_def sort_buckets_def set_sort_bucket)

lemma count_lines: "list_all entry_ok es \<Longrightarrow> length (filter (\<lambda>c. c = LF) (active_text es)) = length es"
proof (induction es)
  case (Cons e es)
  have e: "entry_ok e" using Cons.prems by simp
  have "filter (\<lambda>c. c = LF) (butlast (entry_line e) @ [LF]) = [LF]"
    using entry_no_LF(2) [OF e] by (auto simp: filter_empty_conv)
  then have "length (filter (\<lambda>c. c = LF) (entry_line e)) = 1"
    using entry_no_LF(1) [OF e] by simp
  then show ?case using Cons by (simp add: active_text_def)
qed (simp add: active_text_def)

lemma NGparsefile_reads:
  assumes es: "list_all entry_ok es" "distinct (map e_name es)" "es \<noteq> []" and ov: "\<forall>n l k s. ovgroupadd n l k s"
  shows "\<exists>st. NGparsefile ovgroupadd (active_text es) = Some st \<and> in_step st es \<and> table_ok (Groups st) (NGHtable st)"
proof -
  let ?st = "\<lparr>Active = active_text es, Groups = [], NGHtable = replicate NGH_SIZE []\<rparr>"
  have "read_to ?st es 0" by (simp add: read_to_def table_ok_def)
  then obtain st where st: "parse_entries ovgroupadd 0 (length es) ?st = Some st" "read_to st es (length es)"
    using parse_entries_reads [where es = es and ovgroupadd = ovgroupadd and k = 0 and n = "length es" and st = ?st] es ov
    by (auto simp: entry_start_def active_text_def)
  let ?s = "sort_buckets st"
  let ?f = "?s\<lparr>Groups := map (chase_alias ?s) (Groups ?s)\<rparr>"
  have sel: "Groups ?s = Groups st" "Active ?s = Active st" by (simp_all add: sort_buckets_def)
  have chased: "group_of p e (chase_alias ?s g) = group_of p e g" "ng_Name (chase_alias ?s g) = ng_Name g" for p e g
    by (simp_all add: chase_alias_def)
  have "NGparsefile ovgroupadd (active_text es) = Some ?f"
    using st(1) es by (simp add: NGparsefile_def count_lines Let_def)
  moreover have "in_step ?f es" using st(2) es(1) by (simp add: in_step_def read_to_def sel chased)
  moreover have "table_ok (Groups ?f) (NGHtable ?f)"
  proof (rule table_ok_cong)
    show "map ng_Name (Groups ?f) = map ng_Name (Groups st)" by (simp add: sel chased)
    show "table_ok (Groups st) (NGHtable ?f)"
      using st(2) sort_buckets_ok [of "Groups st" st] by (simp add: read_to_def)
  qed
  ultimately show ?thesis by blast
qed

end
