(* ===== verification/Artnumbers.thy ===== *)
theory Artnumbers
  imports Ng
begin

text \<open>
  Article numbers and the Xref field (\<open>ARTassignnumbers\<close> and \<open>ARTxrefslave\<close> of \<open>innd/art.c\<close>). A server
  numbers an article in each of its groups and writes the numbers to the Xref field; a slave server reads them
  there. The theorems show that the text of the active file stays in step with the table, that a slave that reads the Xref
  of its master stays equal to it, and that the buffer of the field is large enough.
\<close>

definition MAXARTLINELENGTH :: nat where "MAXARTLINELENGTH = 1000"
definition ARTNUMPRINTSIZE :: nat where "ARTNUMPRINTSIZE = 10"
definition MED_BUFFER :: nat where "MED_BUFFER = 1024"

text \<open>\<open>Xref\<close> with its CRLF, the size of its buffer, and the part of it behind the host.\<close>

record xrefinfo =
  Xref :: octets
  XrefBufLength :: nat
  Replic :: octets

text \<open>One turn of the loop: table, text so far, length of its last line, size of the buffer.\<close>

definition number_group :: "nat \<Rightarrow> ngtable \<times> octets \<times> nat \<times> nat \<Rightarrow> ngtable \<times> octets \<times> nat \<times> nat" where
  "number_group i s =
     (case s of (st, text, linelen, buflen) \<Rightarrow>
      let g = Groups st ! i in
      if 0 < ng_PostCount g then s
      else
        let st = st\<lparr>Groups := (Groups st)[i := g\<lparr>ng_PostCount := ng_PostCount g + 1\<rparr>]\<rparr>;
            n = (ng_Last g + 1) mod 2 ^ 64;
            (st, fits) = set_last st i n in
        if \<not> fits then (st, text, linelen, buflen)
        else
          let st = st\<lparr>Groups := (Groups st)[i := (Groups st ! i)\<lparr>ng_Filenum := n\<rparr>]\<rparr>;
              buflen = (if buflen < length text + 1 + length (ng_Name g) + 1 + ARTNUMPRINTSIZE + 2 + 2
                        then buflen + MED_BUFFER else buflen);
              piece = SP # ng_Name g @ CHR '':'' # dec_nat n in
          if MAXARTLINELENGTH < linelen + 1 + length (ng_Name g) + 1 + ARTNUMPRINTSIZE + 2
          then (st, text @ CR # LF # piece, length piece, buflen)
          else (st, text @ piece, linelen + length piece, buflen))"

text \<open>
  \<open>path\<close> is \<open>Path\<close>, the name of the server with an exclamation mark; the buffer keeps the name from the
  first call on.
\<close>

definition ARTassignnumbers :: "octets \<Rightarrow> nat \<Rightarrow> nat list \<Rightarrow> ngtable \<Rightarrow> ngtable \<times> xrefinfo" where
  "ARTassignnumbers path buflen groups st =
     (let buflen = (if buflen = 0 then MED_BUFFER * 2 + 1 else buflen);
          (st, text, linelen, buflen) = fold number_group groups (st, butlast path, 0, buflen) in
      (st, \<lparr>Xref = text @ [CR, LF], XrefBufLength = buflen, Replic = drop (length path) text\<rparr>))"

definition xref_space :: "char \<Rightarrow> bool" where
  "xref_space c \<longleftrightarrow> c = SP \<or> c = TAB \<or> c = CR \<or> c = LF"

lemma next_word_less:
  assumes "p \<noteq> []"
  shows "length (dropWhile xref_space (dropWhile (\<lambda>c. \<not> xref_space c) p)) < length p"
proof -
  have "length (dropWhile xref_space (dropWhile (\<lambda>c. \<not> xref_space c) p)) \<le> length (tl p)"
    using assms length_dropWhile_le [of xref_space "tl p"] length_dropWhile_le [of "\<lambda>c. \<not> xref_space c" "tl p"]
      length_dropWhile_le [of xref_space "dropWhile (\<lambda>c. \<not> xref_space c) (tl p)"]
    by (cases p) auto
  then show ?thesis using assms by (cases p) auto
qed

text \<open>The group \<open>i\<close> has the number \<open>n\<close>; false when the new high mark does not fit in the active file.\<close>

definition slave_group :: "ngtable \<Rightarrow> nat \<Rightarrow> nat \<Rightarrow> ngtable \<times> bool" where
  "slave_group st i n =
     (let g = Groups st ! i;
          st = st\<lparr>Groups := (Groups st)[i := g\<lparr>ng_Filenum := n\<rparr>]\<rparr>;
          (st, fits) = (if ng_Last g < n then set_last st i n else (st, True)) in
      if \<not> fits then (st, False)
      else (st\<lparr>Groups := (Groups st)[i := (Groups st ! i)\<lparr>ng_PostCount := ng_PostCount (Groups st ! i) + 1\<rparr>]\<rparr>, True))"

text \<open>The loop over the words of the field, with the groups that were found so far.\<close>

function xrefslave_loop :: "octets \<Rightarrow> ngtable \<times> nat list \<Rightarrow> ngtable \<times> nat list" where
  "xrefslave_loop p s =
     (if p = [] then s
      else
        let entry = takeWhile (\<lambda>c. \<not> xref_space c) p;
            next = dropWhile xref_space (dropWhile (\<lambda>c. \<not> xref_space c) p) in
        if CHR '':'' \<notin> set entry then xrefslave_loop next s
        else
          let name = takeWhile (\<lambda>c. c \<noteq> CHR '':'') entry;
              n = nat (atol (drop (length name + 1) entry) mod 2 ^ 64);
              (st, found) = s in
          (case NGfind st name of
             None \<Rightarrow> xrefslave_loop next s
           | Some i \<Rightarrow>
               let (st, fits) = slave_group st i n in
               xrefslave_loop next (st, if fits then found @ [i] else found)))"
  by pat_completeness auto
termination
  by (relation "measure (\<lambda>(p, s). length p)") (simp_all add: next_word_less)

declare xrefslave_loop.simps [simp del]

text \<open>\<open>t\<close> is the value of the Xref field; the slave's groups replace those of the Newsgroups field.\<close>

definition ARTxrefslave :: "octets option \<Rightarrow> ngtable \<Rightarrow> bool \<times> ngtable \<times> nat list \<times> octets" where
  "ARTxrefslave t st =
     (case t of
        None \<Rightarrow> (False, st, [], [])
      | Some t \<Rightarrow>
          let p = dropWhile (\<lambda>c. \<not> xref_space c) t; p = dropWhile xref_space p in
          if p = [] then (False, st, [], [])
          else let (st, found) = xrefslave_loop p (st, []) in (found \<noteq> [], st, found, p))"

section \<open>One number\<close>

text \<open>What master and slave both do to a group that gets the number \<open>n\<close>.\<close>

definition mark :: "ngtable \<Rightarrow> nat \<Rightarrow> nat \<Rightarrow> ngtable" where
  "mark st i n =
     (let g = Groups st ! i in
      st\<lparr>Active := put_octets (Active st) (ng_LastString g) (fst (long_digits (ng_Lastwidth g) n)),
         Groups := (Groups st)[i := g\<lparr>ng_Last := n, ng_Filenum := n, ng_PostCount := ng_PostCount g + 1\<rparr>]\<rparr>)"

text \<open>The next number of the group can be written in its place.\<close>

definition room :: "NEWSGROUP \<Rightarrow> bool" where
  "room g \<longleftrightarrow> ng_Last g + 1 < 10 ^ ng_Lastwidth g \<and> ng_Lastwidth g \<le> 18"

lemma room_less: "room g \<Longrightarrow> ng_Last g + 1 < 10 ^ 18"
  using power_increasing [of "ng_Lastwidth g" 18 "10 :: nat"] by (auto simp: room_def)

lemma set_last_eq:
  "set_last st i n =
     (st\<lparr>Active := put_octets (Active st) (ng_LastString (Groups st ! i)) (fst (long_digits (ng_Lastwidth (Groups st ! i)) n)),
         Groups := (Groups st)[i := (Groups st ! i)\<lparr>ng_Last := n\<rparr>]\<rparr>, n < 10 ^ ng_Lastwidth (Groups st ! i))"
  by (simp add: set_last_def FormatLong_def case_prod_beta Let_def long_digits_rest div_eq_0_iff)

lemma group_updates:
  "g\<lparr>ng_PostCount := p, ng_Last := n, ng_Filenum := n\<rparr> = g\<lparr>ng_Last := n, ng_Filenum := n, ng_PostCount := p\<rparr>"
  "g\<lparr>ng_Filenum := n, ng_Last := n, ng_PostCount := p\<rparr> = g\<lparr>ng_Last := n, ng_Filenum := n, ng_PostCount := p\<rparr>"
  by (cases g; simp)+

definition next_number :: "ngtable \<Rightarrow> nat \<Rightarrow> nat" where
  "next_number st i = ng_Last (Groups st ! i) + 1"

definition xref_piece :: "ngtable \<Rightarrow> nat \<Rightarrow> octets" where
  "xref_piece st i = ng_Name (Groups st ! i) @ CHR '':'' # dec_nat (next_number st i)"

lemma number_group_new:
  assumes "i < length (Groups st)" "ng_PostCount (Groups st ! i) = 0" "room (Groups st ! i)"
  shows "\<exists>sep l' b'. number_group i (st, text, l, b) =
      (mark st i (next_number st i), text @ sep @ xref_piece st i, l', b') \<and> (sep = [SP] \<or> sep = [CR, LF, SP])"
proof -
  let ?g = "Groups st ! i" and ?n = "next_number st i"
  have "(ng_Last ?g + 1) mod 2 ^ 64 = ?n" using room_less [OF assms(3)] by (simp add: next_number_def)
  moreover have "?n < 10 ^ ng_Lastwidth ?g" using assms(3) by (simp add: room_def next_number_def)
  ultimately show ?thesis
    using assms(1,2) by (auto simp: number_group_def Let_def set_last_eq mark_def group_updates xref_piece_def)
qed

lemma number_group_old: "0 < ng_PostCount (Groups st ! i) \<Longrightarrow> number_group i (st, text, l, b) = (st, text, l, b)"
  by (simp add: number_group_def)

lemma mark_groups:
  assumes "i < length (Groups st)"
  shows "map ng_Name (Groups (mark st i n)) = map ng_Name (Groups st)" "length (Groups (mark st i n)) = length (Groups st)"
    "NGHtable (mark st i n) = NGHtable st"
    "Groups (mark st i n) ! j = (if j = i then (Groups st ! i)\<lparr>ng_Last := n, ng_Filenum := n,
        ng_PostCount := ng_PostCount (Groups st ! i) + 1\<rparr> else Groups st ! j)"
  using assms by (simp_all add: mark_def Let_def names_update nth_list_update)

lemma mark_in_step:
  assumes "in_step st es" "i < length es" "n < 10 ^ ng_Lastwidth (Groups st ! i)"
  shows "\<exists>es'. in_step (mark st i n) es' \<and> map e_name es' = map e_name es"
proof -
  let ?g = "Groups st ! i"
  obtain st' fits where s: "set_last st i n = (st', fits)" by fastforce
  note k = set_last_in_step [OF assms s]
  have len: "i < length (Groups st)" using assms by (simp add: in_step_def)
  have st': "st' = st\<lparr>Active := put_octets (Active st) (ng_LastString ?g) (fst (long_digits (ng_Lastwidth ?g) n)),
      Groups := (Groups st)[i := ?g\<lparr>ng_Last := n\<rparr>]\<rparr>" using s by (simp add: set_last_eq)
  have "mark st i n = st'\<lparr>Groups := (Groups st')[i := (Groups st' ! i)\<lparr>ng_Filenum := n, ng_PostCount := ng_PostCount ?g + 1\<rparr>]\<rparr>"
    using len by (simp add: st' mark_def Let_def)
  moreover have "map e_name (es[i := (es ! i)\<lparr>e_hi := ds\<rparr>]) = map e_name es" for ds
    using assms(2) by (simp add: map_update list_update_same_conv)
  moreover have "in_step (mark st i n) (es[i := (es ! i)\<lparr>e_hi := fst (long_digits (ng_Lastwidth ?g) n)\<rparr>])"
    unfolding calculation(1) by (rule in_step_group [OF k(2)]) (simp add: group_of_def)
  ultimately show ?thesis by blast
qed

section \<open>All groups of an article\<close>

text \<open>The groups that get a number, in their order: those that have none yet.\<close>

fun to_number :: "ngtable \<Rightarrow> nat list \<Rightarrow> nat list" where
  "to_number st [] = []"
| "to_number st (i # ks) =
     (if ng_PostCount (Groups st ! i) = 0 then i # to_number (mark st i (next_number st i)) ks else to_number st ks)"

fun mark_all :: "ngtable \<Rightarrow> nat list \<Rightarrow> ngtable" where
  "mark_all st [] = st"
| "mark_all st (i # ks) = mark_all (mark st i (next_number st i)) ks"

text \<open>The part of the field behind the host: every entry behind a space or a fold.\<close>

inductive xref_text :: "ngtable \<Rightarrow> nat list \<Rightarrow> octets \<Rightarrow> bool" where
  xref_Nil: "xref_text st [] []"
| xref_Cons: "xref_text (mark st i (next_number st i)) ks u \<Longrightarrow> sep = [SP] \<or> sep = [CR, LF, SP] \<Longrightarrow>
    xref_text st (i # ks) (sep @ xref_piece st i @ u)"

inductive_cases xref_text_ConsE: "xref_text st (i # ks) t"
inductive_cases xref_text_NilE: "xref_text st [] t"

definition groups_ok :: "ngtable \<Rightarrow> nat list \<Rightarrow> bool" where
  "groups_ok st ks \<longleftrightarrow> (\<forall>i\<in>set ks. i < length (Groups st) \<and> (ng_PostCount (Groups st ! i) = 0 \<longrightarrow> room (Groups st ! i)))"

lemma groups_ok_mark:
  "groups_ok st (i # ks) \<Longrightarrow> groups_ok (mark st i n) ks"
  by (auto simp: groups_ok_def mark_groups)

lemma number_fold:
  "groups_ok st ks \<Longrightarrow> \<exists>u l' b'. fold number_group ks (st, t, l, b) = (mark_all st (to_number st ks), t @ u, l', b') \<and>
     xref_text st (to_number st ks) u"
proof (induction ks arbitrary: st t l b)
  case Nil
  then show ?case by (auto intro: xref_Nil)
next
  case (Cons i ks)
  show ?case
  proof (cases "ng_PostCount (Groups st ! i) = 0")
    case True
    then obtain sep l' b' where 1: "number_group i (st, t, l, b) =
        (mark st i (next_number st i), t @ sep @ xref_piece st i, l', b')" "sep = [SP] \<or> sep = [CR, LF, SP]"
      using number_group_new [of i st t l b] Cons.prems by (auto simp: groups_ok_def)
    obtain u l'' b'' where 2: "fold number_group ks (mark st i (next_number st i), t @ sep @ xref_piece st i, l', b') =
        (mark_all (mark st i (next_number st i)) (to_number (mark st i (next_number st i)) ks), (t @ sep @ xref_piece st i) @ u, l'', b'')"
      "xref_text (mark st i (next_number st i)) (to_number (mark st i (next_number st i)) ks) u"
      using Cons.IH [OF groups_ok_mark [OF Cons.prems], where t = "t @ sep @ xref_piece st i"] by blast
    have "xref_text st (to_number st (i # ks)) (sep @ xref_piece st i @ u)" using xref_Cons [OF 2(2) 1(2)] True by simp
    then show ?thesis using 1(1) 2(1) True by auto
  next
    case False
    moreover have "groups_ok st ks" using Cons.prems by (simp add: groups_ok_def)
    ultimately show ?thesis using Cons.IH [of st t l b] number_group_old [of st i] by auto
  qed
qed

lemma to_number_ok:
  "groups_ok st ks \<Longrightarrow> i \<in> set (to_number st ks) \<longleftrightarrow> i \<in> set ks \<and> ng_PostCount (Groups st ! i) = 0"
proof (induction ks arbitrary: st)
  case (Cons j ks)
  have "groups_ok st ks" using Cons.prems by (simp add: groups_ok_def)
  moreover have "j < length (Groups st)" using Cons.prems by (simp add: groups_ok_def)
  ultimately show ?case using Cons.IH [of st] Cons.IH [OF groups_ok_mark [OF Cons.prems]] by (auto simp: mark_groups)
qed simp

lemma to_number_distinct: "groups_ok st ks \<Longrightarrow> distinct (to_number st ks)"
proof (induction ks arbitrary: st)
  case (Cons j ks)
  have "groups_ok st ks" "j < length (Groups st)" using Cons.prems by (simp_all add: groups_ok_def)
  then show ?case
    using Cons.IH [of st] Cons.IH [OF groups_ok_mark [OF Cons.prems]] to_number_ok [OF groups_ok_mark [OF Cons.prems]]
    by (auto simp: mark_groups)
qed simp

lemma mark_all_ok:
  "distinct ks \<Longrightarrow> \<forall>i\<in>set ks. i < length es \<and> room (Groups st ! i) \<Longrightarrow> in_step st es \<Longrightarrow>
    (\<exists>es'. in_step (mark_all st ks) es' \<and> map e_name es' = map e_name es) \<and>
    NGHtable (mark_all st ks) = NGHtable st \<and> map ng_Name (Groups (mark_all st ks)) = map ng_Name (Groups st) \<and>
    (\<forall>i<length es. ng_Last (Groups (mark_all st ks) ! i) = ng_Last (Groups st ! i) + (if i \<in> set ks then 1 else 0) \<and>
      (i \<in> set ks \<longrightarrow> ng_Filenum (Groups (mark_all st ks) ! i) = ng_Last (Groups st ! i) + 1) \<and>
      (i \<notin> set ks \<longrightarrow> Groups (mark_all st ks) ! i = Groups st ! i))"
proof (induction ks arbitrary: st es)
  case Nil
  then show ?case by auto
next
  case (Cons i ks)
  let ?m = "mark st i (next_number st i)"
  have i: "i < length es" "i < length (Groups st)" using Cons.prems by (auto simp: in_step_def)
  obtain es1 where es1: "in_step ?m es1" "map e_name es1 = map e_name es"
    using mark_in_step [OF Cons.prems(3) i(1), of "next_number st i"] Cons.prems(2) by (auto simp: room_def next_number_def)
  have len: "length es1 = length es" using es1(2) by (rule map_eq_imp_length_eq)
  have "\<forall>j\<in>set ks. j < length es1 \<and> room (Groups ?m ! j)"
    using Cons.prems(1,2) i len by (auto simp: mark_groups)
  note IH = Cons.IH [OF _ this es1(1)]
  show ?case using IH Cons.prems(1) es1(2) len i by (auto simp: mark_groups next_number_def)
qed

section \<open>The slave\<close>

definition xref_name :: "octets \<Rightarrow> bool" where
  "xref_name n \<longleftrightarrow> (\<forall>c\<in>set n. \<not> xref_space c \<and> c \<noteq> CHR '':'')"

lemma not_xref_space: "\<not> xref_space CHR '':''" "c_isdigit c \<Longrightarrow> \<not> xref_space c" "c_isdigit c \<Longrightarrow> c \<noteq> CHR '':''"
proof -
  have "\<not> c_isdigit SP" "\<not> c_isdigit TAB" "\<not> c_isdigit CR" "\<not> c_isdigit LF" "\<not> c_isdigit CHR '':''" by code_simp+
  then show "c_isdigit c \<Longrightarrow> \<not> xref_space c" "c_isdigit c \<Longrightarrow> c \<noteq> CHR '':''" by (auto simp: xref_space_def)
qed (simp add: xref_space_def)

lemma xref_text_start: "xref_text st ks u \<Longrightarrow> u = [] \<or> xref_space (hd u)"
  by (erule xref_text.cases) (auto simp: xref_space_def)

lemma dec_nat_set: "c \<in> set (dec_nat n) \<Longrightarrow> c_isdigit c"
  using dec_nat_digits [of n] by (simp add: list_all_iff)

lemma xref_piece_set: "xref_name (ng_Name (Groups st ! i)) \<Longrightarrow> c \<in> set (xref_piece st i) \<Longrightarrow> \<not> xref_space c"
proof -
  assume n: "xref_name (ng_Name (Groups st ! i))" and "c \<in> set (xref_piece st i)"
  then consider "c \<in> set (ng_Name (Groups st ! i))" | "c = CHR '':''" | "c \<in> set (dec_nat (next_number st i))"
    by (auto simp: xref_piece_def)
  then show "\<not> xref_space c"
    by cases (use n not_xref_space dec_nat_set in \<open>simp_all add: xref_name_def\<close>)
qed

lemma xref_piece_front:
  assumes "xref_name (ng_Name (Groups st ! i))" "u = [] \<or> xref_space (hd u)"
  shows "takeWhile (\<lambda>c. \<not> xref_space c) (xref_piece st i @ u) = xref_piece st i"
    and "dropWhile (\<lambda>c. \<not> xref_space c) (xref_piece st i @ u) = u"
    and "dropWhile xref_space (xref_piece st i @ u) = xref_piece st i @ u"
    and "takeWhile (\<lambda>c. c \<noteq> CHR '':'') (xref_piece st i) = ng_Name (Groups st ! i)"
    and "drop (length (ng_Name (Groups st ! i)) + 1) (xref_piece st i) = dec_nat (next_number st i)"
proof -
  let ?p = "xref_piece st i"
  have ns: "\<forall>c\<in>set ?p. \<not> xref_space c" using xref_piece_set [OF assms(1)] by blast
  have "takeWhile (\<lambda>c. \<not> xref_space c) (?p @ u) = ?p @ takeWhile (\<lambda>c. \<not> xref_space c) u"
    by (rule takeWhile_append2) (use ns in blast)
  then show "takeWhile (\<lambda>c. \<not> xref_space c) (?p @ u) = ?p" using assms(2) by (cases u) simp_all
  have "dropWhile (\<lambda>c. \<not> xref_space c) (?p @ u) = dropWhile (\<lambda>c. \<not> xref_space c) u"
    by (rule dropWhile_append2) (use ns in blast)
  then show "dropWhile (\<lambda>c. \<not> xref_space c) (?p @ u) = u" using assms(2) by (cases u) simp_all
  have "?p \<noteq> []" by (simp add: xref_piece_def)
  then obtain c q where p: "?p = c # q" by (meson neq_Nil_conv)
  then show "dropWhile xref_space (?p @ u) = ?p @ u" using ns by simp
  have "takeWhile (\<lambda>c. c \<noteq> CHR '':'') (ng_Name (Groups st ! i) @ t) = ng_Name (Groups st ! i) @ takeWhile (\<lambda>c. c \<noteq> CHR '':'') t" for t
    using assms(1) by (intro takeWhile_append2) (simp add: xref_name_def)
  then show "takeWhile (\<lambda>c. c \<noteq> CHR '':'') ?p = ng_Name (Groups st ! i)" by (simp add: xref_piece_def)
qed (simp add: xref_piece_def)

lemma atol_dec_nat: "n < 10 ^ 18 \<Longrightarrow> nat (atol (dec_nat n) mod 2 ^ 64) = n"
  using atol_digits [of "dec_nat n" "[]"] dec_nat_digits dec_nat_neq_Nil dec_nat_length [of n 18]
  by (simp add: dec_value_dec_nat)

lemma xrefslave_entry:
  assumes u: "u = [] \<or> xref_space (hd u)" and i: "i < length (Groups st)" "room (Groups st ! i)"
    and n: "xref_name (ng_Name (Groups st ! i))" and t: "table_ok (Groups st) (NGHtable st)"
  shows "xrefslave_loop (xref_piece st i @ u) (st, found) =
    xrefslave_loop (dropWhile xref_space u) (mark st i (next_number st i), found @ [i])"
proof -
  let ?n = "next_number st i"
  have p: "CHR '':'' \<in> set (xref_piece st i)" "xref_piece st i @ u \<noteq> []" by (simp_all add: xref_piece_def)
  have find: "NGfind st (ng_Name (Groups st ! i)) = Some i" using NGfind_iff [OF t] i by simp
  have "?n < 10 ^ 18" using room_less [OF i(2)] by (simp add: next_number_def)
  then have num: "nat (atol (dec_nat ?n) mod 2 ^ 64) = ?n" by (rule atol_dec_nat)
  have "?n < 10 ^ ng_Lastwidth (Groups st ! i)" "ng_Last (Groups st ! i) < ?n"
    using i(2) by (simp_all add: room_def next_number_def)
  then have "slave_group st i ?n = (mark st i ?n, True)"
    using i(1) by (simp add: slave_group_def Let_def set_last_eq mark_def group_updates)
  then show ?thesis
    by (subst xrefslave_loop.simps)
      (simp only: p if_False Let_def xref_piece_front [OF n u] not_True_eq_False num find prod.case option.case if_True)
qed

lemma slave_reads:
  "xref_text st ks u \<Longrightarrow> \<forall>i\<in>set ks. i < length (Groups st) \<and> room (Groups st ! i) \<and> xref_name (ng_Name (Groups st ! i)) \<Longrightarrow>
    distinct ks \<Longrightarrow> table_ok (Groups st) (NGHtable st) \<Longrightarrow>
    xrefslave_loop (dropWhile xref_space u) (st, found) = (mark_all st ks, found @ ks)"
proof (induction st ks u arbitrary: found rule: xref_text.induct)
  case (xref_Nil st)
  then show ?case by (simp add: xrefslave_loop.simps)
next
  case (xref_Cons st i ks u sep)
  let ?m = "mark st i (next_number st i)"
  have i: "i < length (Groups st)" "room (Groups st ! i)" "xref_name (ng_Name (Groups st ! i))" using xref_Cons.prems(1) by auto
  have u: "u = [] \<or> xref_space (hd u)" using xref_text_start [OF xref_Cons.hyps(1)] .
  have "dropWhile xref_space (sep @ xref_piece st i @ u) = xref_piece st i @ u"
    using xref_Cons.hyps(2) xref_piece_front(3) [OF i(3) u] by (auto simp: xref_space_def)
  moreover have "\<forall>j\<in>set ks. j < length (Groups ?m) \<and> room (Groups ?m ! j) \<and> xref_name (ng_Name (Groups ?m ! j))"
    using xref_Cons.prems(1,2) i(1) by (auto simp: mark_groups)
  moreover have "table_ok (Groups ?m) (NGHtable ?m)"
    using table_ok_cong [OF mark_groups(1) [OF i(1)] xref_Cons.prems(3)] mark_groups(3) [OF i(1)] by simp
  ultimately show ?case
    using xrefslave_entry [OF u i xref_Cons.prems(3)] xref_Cons.IH xref_Cons.prems(2) by simp
qed

section \<open>Properties\<close>

lemma assign_text:
  assumes "groups_ok st ks" "ARTassignnumbers path b ks st = (st', x)" "path \<noteq> []"
  shows "\<exists>u. st' = mark_all st (to_number st ks) \<and> xref_text st (to_number st ks) u \<and>
    Xref x = butlast path @ u @ [CR, LF] \<and> Replic x = tl u"
proof -
  let ?b = "if b = 0 then MED_BUFFER * 2 + 1 else b"
  obtain u l' b' where "fold number_group ks (st, butlast path, 0, ?b) = (mark_all st (to_number st ks), butlast path @ u, l', b')"
    and u: "xref_text st (to_number st ks) u"
    using number_fold [OF assms(1), where t = "butlast path" and l = 0 and b = ?b] by blast
  moreover have "drop (length path) (butlast path @ u) = tl u"
    using assms(3) by (cases path rule: rev_cases) (simp_all add: drop_Suc)
  ultimately show ?thesis using assms(2) by (auto simp: ARTassignnumbers_def Let_def)
qed

text \<open>
  C12: The active file keeps the numbers. Let the text of the active file and the table of groups be in step, and let the
  next number of every group of the article fit in its place. When \<open>ARTassignnumbers\<close> has numbered the article, the
  high mark of each group that had no number yet is one more and no other has changed, whatever aliases made a group come
  twice; and a server that reads the text of the active file afresh (\<open>NGparsefile\<close>) finds the same groups with the
  same high marks.
\<close>

theorem numbers_kept_in_file:
  assumes "in_step st es" "es \<noteq> []" "table_ok (Groups st) (NGHtable st)" "groups_ok st ks" "path \<noteq> []"
    and "ARTassignnumbers path b ks st = (st', x)" "\<forall>n l k s. ovgroupadd n l k s"
  shows "\<exists>st''. NGparsefile ovgroupadd (Active st') = Some st'' \<and>
    map ng_Name (Groups st'') = map ng_Name (Groups st) \<and> map ng_Last (Groups st'') = map ng_Last (Groups st') \<and>
    (\<forall>i<length (Groups st). ng_Last (Groups st' ! i) =
       ng_Last (Groups st ! i) + (if i \<in> set ks \<and> ng_PostCount (Groups st ! i) = 0 then 1 else 0))"
proof -
  let ?ks = "to_number st ks"
  have st': "st' = mark_all st ?ks" using assign_text [OF assms(4,6,5)] by blast
  have len: "length es = length (Groups st)" using assms(1) by (simp add: in_step_def)
  have "\<forall>i\<in>set ?ks. i < length es \<and> room (Groups st ! i)"
    using assms(4) len by (auto simp: to_number_ok groups_ok_def)
  note m = mark_all_ok [OF to_number_distinct [OF assms(4)] this assms(1), folded st']
  then obtain es' where es': "in_step st' es'" "map e_name es' = map e_name es" by blast
  have names: "map e_name es' = map ng_Name (Groups st')"
    using es'(1) by (auto simp: in_step_def group_of_def intro!: nth_equalityI)
  have "distinct (map e_name es')" using names m assms(3) by (simp add: table_ok_def)
  moreover have "es' \<noteq> []" using es'(2) assms(2) by auto
  ultimately obtain st'' where st'': "NGparsefile ovgroupadd (active_text es') = Some st''" "in_step st'' es'"
    using NGparsefile_reads [of es' ovgroupadd] es'(1) assms(7) by (auto simp: in_step_def)
  have "map ng_Name (Groups st'') = map e_name es'"
    using st''(2) by (auto simp: in_step_def group_of_def intro!: nth_equalityI)
  moreover have "map ng_Last (Groups st'') = map ng_Last (Groups st')"
    using st''(2) es'(1) by (auto simp: in_step_def group_of_def intro!: nth_equalityI)
  moreover have "Active st' = active_text es'" using es'(1) by (simp add: in_step_def)
  ultimately show ?thesis using st''(1) m len names by (auto simp: to_number_ok [OF assms(4)])
qed

text \<open>
  C11: A slave that follows its master stays equal to it. Let a server assign numbers to an article in groups whose names
  have no white space or colon, at least one of them new, and write the Xref field; a server with an equal table that
  reads the field in slave mode ends with the same table: the same numbers and high marks, the same text of the
  active file. The groups it files the article in are those that got a number, each once.
\<close>

theorem slave_follows_master:
  assumes "table_ok (Groups st) (NGHtable st)" "groups_ok st ks"
    and "\<forall>i\<in>set ks. xref_name (ng_Name (Groups st ! i))" "i \<in> set ks" "ng_PostCount (Groups st ! i) = 0"
    and "host \<noteq> []" "\<forall>c\<in>set host. \<not> xref_space c" "ARTassignnumbers (host @ ''!'') b ks st = (st', x)"
  shows "\<exists>r. ARTxrefslave (Some (take (length (Xref x) - 2) (Xref x))) st = (True, st', to_number st ks, r)"
proof -
  let ?ks = "to_number st ks"
  obtain u where u: "st' = mark_all st ?ks" "xref_text st ?ks u" "Xref x = host @ u @ [CR, LF]"
    using assign_text [OF assms(2,8)] by auto
  have start: "u = [] \<or> xref_space (hd u)" using xref_text_start [OF u(2)] .
  have "dropWhile (\<lambda>c. \<not> xref_space c) (host @ u) = dropWhile (\<lambda>c. \<not> xref_space c) u"
    by (rule dropWhile_append2) (use assms(7) in blast)
  then have host: "dropWhile (\<lambda>c. \<not> xref_space c) (host @ u) = u" using start by (cases u) simp_all
  have reads: "xrefslave_loop (dropWhile xref_space u) (st, []) = (st', ?ks)"
    using slave_reads [OF u(2) _ to_number_distinct [OF assms(2)] assms(1), of "[]"] assms(2,3) u(1)
    by (auto simp: to_number_ok groups_ok_def)
  have ne: "?ks \<noteq> []" using assms(4,5) to_number_ok [OF assms(2)] by (metis empty_iff list.set(1))
  have "dropWhile xref_space u \<noteq> []"
  proof
    assume "dropWhile xref_space u = []"
    then have "xrefslave_loop [] (st, []) = (st', ?ks)" using reads by (simp only:)
    then show False using ne by (simp add: xrefslave_loop.simps)
  qed
  then show ?thesis using host reads ne u(3) by (simp add: ARTxrefslave_def Let_def)
qed

lemma number_group_fits:
  assumes "number_group i (st, text, l, b) = (st', text', l', b')" "length text + 2 \<le> b"
    and "length (ng_Name (Groups st ! i)) \<le> 1008" "ng_Last (Groups st ! i) + 1 < 10 ^ 10"
  shows "length text' + 2 \<le> b'"
proof -
  have "length (dec_nat ((ng_Last (Groups st ! i) + 1) mod 2 ^ 64)) \<le> 10"
    using assms(4) by (intro dec_nat_length) auto
  then show ?thesis using assms(1-3)
    by (auto simp: number_group_def Let_def set_last_eq ARTNUMPRINTSIZE_def MED_BUFFER_def MAXARTLINELENGTH_def split: if_splits)
qed

text \<open>
  The buffer of the Xref field is never overrun. When the names of the groups have at most 1008 octets and their numbers at
  most ten digits, and the name of the server fits in the buffer with its CRLF, so does the whole field at every step.
\<close>

theorem xref_fits:
  assumes "groups_ok st ks" "\<forall>i\<in>set ks. length (ng_Name (Groups st ! i)) \<le> 1008 \<and> ng_Last (Groups st ! i) + 1 < 10 ^ 10"
    and "length path + 1 \<le> (if b = 0 then 2049 else b)" "path \<noteq> []"
  shows "length (Xref (snd (ARTassignnumbers path b ks st))) \<le> XrefBufLength (snd (ARTassignnumbers path b ks st))"
proof -
  have fold: "length t' + 2 \<le> b'"
    if "fold number_group ks (st, t, l, b) = (st', t', l', b')" "length t + 2 \<le> b" "groups_ok st ks"
      "\<forall>i\<in>set ks. ng_PostCount (Groups st ! i) = 0 \<longrightarrow>
         length (ng_Name (Groups st ! i)) \<le> 1008 \<and> ng_Last (Groups st ! i) + 1 < 10 ^ 10" for st t l b st' t' l' b'
    using that
  proof (induction ks arbitrary: st t l b)
    case Nil
    then show ?case by simp
  next
    case (Cons i ks)
    show ?case
    proof (cases "ng_PostCount (Groups st ! i) = 0")
      case True
      obtain st1 t1 l1 b1 where s: "number_group i (st, t, l, b) = (st1, t1, l1, b1)" by (metis prod_cases4)
      have i: "i < length (Groups st)" "room (Groups st ! i)" using Cons.prems(3) True by (auto simp: groups_ok_def)
      have st1: "st1 = mark st i (next_number st i)" using number_group_new [OF i(1) True i(2), of t l b] s by auto
      have "length t1 + 2 \<le> b1" using number_group_fits [OF s Cons.prems(2)] Cons.prems(4) True by simp
      moreover have "groups_ok st1 ks" unfolding st1 by (rule groups_ok_mark [OF Cons.prems(3)])
      moreover have "\<forall>j\<in>set ks. ng_PostCount (Groups st1 ! j) = 0 \<longrightarrow>
         length (ng_Name (Groups st1 ! j)) \<le> 1008 \<and> ng_Last (Groups st1 ! j) + 1 < 10 ^ 10"
        using Cons.prems(4) i(1) by (auto simp: st1 mark_groups)
      ultimately show ?thesis using Cons.IH [of st1 t1 l1 b1] Cons.prems(1) s by simp
    next
      case False
      then show ?thesis using Cons.IH [of st t l b] Cons.prems number_group_old [of st i t l b]
        by (auto simp: groups_ok_def)
    qed
  qed
  let ?b = "if b = 0 then MED_BUFFER * 2 + 1 else b"
  obtain st' t l b' where f: "fold number_group ks (st, butlast path, 0, ?b) = (st', t, l, b')" by (metis prod_cases4)
  have "length (butlast path) + 2 \<le> ?b" using assms(3,4) by (auto simp: MED_BUFFER_def split: if_splits)
  from fold [OF f this assms(1)] have "length t + 2 \<le> b'" using assms(2) by auto
  then show ?thesis using f by (simp add: ARTassignnumbers_def Let_def)
qed

section \<open>An example\<close>

definition build_table :: "NEWSGROUP list \<Rightarrow> nat list list" where
  "build_table gs = map (\<lambda>j. filter (\<lambda>i. NGH_BUCKET (ng_Name (gs ! i)) = j) [0..<length gs]) [0..<NGH_SIZE]"

lemma build_table_ok: "distinct (map ng_Name gs) \<Longrightarrow> table_ok gs (build_table gs)"
  by (auto simp: table_ok_def build_table_def)

definition a_group :: "octets \<Rightarrow> nat \<Rightarrow> nat \<Rightarrow> nat \<Rightarrow> nat \<Rightarrow> NEWSGROUP" where
  "a_group name hi width pos rest = \<lparr>ng_Name = name, ng_Last = hi, ng_Filenum = 0, ng_Lastwidth = width,
     ng_PostCount = 0, ng_LastString = pos, ng_Rest = rest, ng_Sites = [], ng_Poison = [], ng_Alias = None\<rparr>"

definition example_entries :: "entry list" where
  "example_entries = [\<lparr>e_name = ''a.b'', e_hi = ''0009'', e_lo = ''0001'', e_flag = ''y''\<rparr>,
     \<lparr>e_name = ''c'', e_hi = ''0041'', e_lo = ''0001'', e_flag = ''m''\<rparr>]"

definition example_groups :: "NEWSGROUP list" where
  "example_groups = [a_group ''a.b'' 9 4 4 14, a_group ''c'' 41 4 18 28]"

definition example_table :: ngtable where
  "example_table = \<lparr>Active = active_text example_entries, Groups = example_groups, NGHtable = build_table example_groups\<rparr>"

lemma example_table_ok:
  "in_step example_table example_entries" "table_ok (Groups example_table) (NGHtable example_table)"
  "groups_ok example_table [0, 1, 0]"
proof -
  have "list_all entry_ok example_entries" "list_all2 (\<lambda>i g. group_of (entry_start example_entries i) (example_entries ! i) g) [0, 1] example_groups"
    by code_simp+
  then show "in_step example_table example_entries"
    by (auto simp: in_step_def example_table_def example_groups_def example_entries_def less_Suc_eq)
  have "distinct (map ng_Name example_groups)" by code_simp
  then show "table_ok (Groups example_table) (NGHtable example_table)" by (simp add: example_table_def build_table_ok)
  show "groups_ok example_table [0, 1, 0]"
    by (auto simp: groups_ok_def example_table_def example_groups_def a_group_def room_def)
qed

theorem numbers_kept_in_file_witness:
  "\<exists>st'. NGparsefile (\<lambda>n l k s. True) (Active (fst (ARTassignnumbers ''h!'' 0 [0, 1, 0] example_table))) = Some st' \<and>
     map ng_Last (Groups st') = [10, 42]"
proof -
  obtain st1 x where r: "ARTassignnumbers ''h!'' 0 [0, 1, 0] example_table = (st1, x)" by fastforce
  have e: "example_entries \<noteq> []" "''h!'' \<noteq> []" by (simp_all add: example_entries_def)
  obtain st' where st': "NGparsefile (\<lambda>n l k s. True) (Active st1) = Some st'"
    "map ng_Name (Groups st') = map ng_Name (Groups example_table)" "map ng_Last (Groups st') = map ng_Last (Groups st1)"
    "\<forall>i<length (Groups example_table). ng_Last (Groups st1 ! i) =
       ng_Last (Groups example_table ! i) + (if i \<in> set [0, 1, 0] \<and> ng_PostCount (Groups example_table ! i) = 0 then 1 else 0)"
    using numbers_kept_in_file [OF example_table_ok(1) e(1) example_table_ok(2,3) e(2) r, where ovgroupadd = "\<lambda>n l k s. True"]
    by auto
  have "length (Groups st1) = 2"
    using map_eq_imp_length_eq [OF st'(2)] map_eq_imp_length_eq [OF st'(3)] by (simp add: example_table_def example_groups_def)
  then obtain g h where g: "Groups st1 = [g, h]" by (auto simp: numeral_2_eq_2 length_Suc_conv)
  then have "map ng_Last (Groups st1) = [10, 42]"
    using st'(4) by (simp add: example_table_def example_groups_def a_group_def less_Suc_eq all_conj_distrib)
  then show ?thesis using st'(1,3) r by simp
qed

theorem slave_follows_master_witness:
  "\<exists>st' r. ARTassignnumbers ''h!'' 0 [0, 1, 0] example_table = (st', \<lparr>Xref = ''h a.b:10 c:42'' @ [CR, LF],
       XrefBufLength = 2049, Replic = ''a.b:10 c:42''\<rparr>) \<and>
     ARTxrefslave (Some ''h a.b:10 c:42'') example_table = (True, st', [0, 1], r)"
proof -
  obtain st1 x where r: "ARTassignnumbers (''h'' @ ''!'') 0 [0, 1, 0] example_table = (st1, x)" by fastforce
  have "xref_name ''a.b''" "xref_name ''c''" by code_simp+
  then have n: "\<forall>i\<in>set [0, 1, 0]. xref_name (ng_Name (Groups example_table ! i))"
    by (simp add: example_table_def example_groups_def a_group_def)
  have h: "\<forall>c\<in>set ''h''. \<not> xref_space c" by code_simp
  have z: "0 \<in> set [0, 1, 0 :: nat]" "ng_PostCount (Groups example_table ! 0) = 0" "''h'' \<noteq> []"
    by (simp_all add: example_table_def example_groups_def a_group_def)
  have digits: "dec_nat 10 = ''10''" "dec_nat 42 = ''42''" by code_simp+
  have x: "snd (ARTassignnumbers (''h'' @ ''!'') 0 [0, 1, 0] example_table) = \<lparr>Xref = ''h a.b:10 c:42'' @ [CR, LF],
       XrefBufLength = 2049, Replic = ''a.b:10 c:42''\<rparr>"
    by (simp add: ARTassignnumbers_def number_group_def Let_def set_last_eq example_table_def example_groups_def
      a_group_def MED_BUFFER_def MAXARTLINELENGTH_def ARTNUMPRINTSIZE_def digits)
  have k: "to_number example_table [0, 1, 0] = [0, 1]"
    by (simp add: example_table_def example_groups_def a_group_def mark_def next_number_def Let_def)
  obtain rest where "ARTxrefslave (Some (take (length (Xref x) - 2) (Xref x))) example_table = (True, st1, [0, 1], rest)"
    using slave_follows_master [OF example_table_ok(2,3) n z h r] unfolding k by blast
  moreover have x': "x = \<lparr>Xref = ''h a.b:10 c:42'' @ [CR, LF], XrefBufLength = 2049, Replic = ''a.b:10 c:42''\<rparr>"
    using x r by simp
  ultimately have "ARTxrefslave (Some ''h a.b:10 c:42'') example_table = (True, st1, [0, 1], rest)" by simp
  then show ?thesis using r x' by (intro exI conjI) simp_all
qed

theorem xref_fits_witness:
  "length (Xref (snd (ARTassignnumbers ''h!'' 0 [0, 1, 0] example_table))) \<le>
     XrefBufLength (snd (ARTassignnumbers ''h!'' 0 [0, 1, 0] example_table))"
  by (rule xref_fits [OF example_table_ok(3)]) (simp_all add: example_table_def example_groups_def a_group_def)

end
