(* ===== verification/Artstore.thy ===== *)
theory Artstore
  imports Artfields "HOL-Library.Multiset"
begin

text \<open>
  What of an article is stored (\<open>ARTstore\<close> of \<open>innd/art.c\<close>): the octets that were received, with the name of
  the server put in front of the Path, the Xref field replaced or added, and the Bytes field left out. The theorem gives the
  stored text for an article made of fields; everything else of it is kept octet by octet.
\<close>

definition HDR__PATH :: nat where "HDR__PATH = 9"

text \<open>
  \<open>Path\<close>, \<open>Pathalias\<close> and \<open>Pathcluster\<close>, each a name with an exclamation mark, empty when there is none;
  and what \<open>ARTpost\<close> finds out about the Path of the article.
\<close>

record pathconf =
  Path :: octets
  Pathalias :: octets
  Pathcluster :: octets
  Hassamepath :: bool
  Hassamecluster :: bool
  AddAlias :: bool

text \<open>The octets from \<open>p\<close> on before \<open>q\<close>.\<close>

definition span :: "octets \<Rightarrow> nat \<Rightarrow> nat \<Rightarrow> octets" where
  "span bp p q = substr bp p (q - p)"

definition value_place :: "channel \<Rightarrow> nat \<Rightarrow> nat" where
  "value_place cp i = (case Value (HdrContent cp ! i) of Some v \<Rightarrow> v | None \<Rightarrow> 0)"

definition HDR_LEN :: "channel \<Rightarrow> nat \<Rightarrow> nat" where
  "HDR_LEN cp i = nat (Length (HdrContent cp ! i))"

text \<open>The array \<open>hp\<close>, sorted by the place of the value (the places differ).\<close>

definition header_places :: "channel \<Rightarrow> (nat \<times> nat) list" where
  "header_places cp = sort_key fst
     ((value_place cp HDR__PATH, HDR__PATH) #
      (if HDR_FOUND cp HDR__XREF then [(value_place cp HDR__XREF, HDR__XREF)] else []) @
      (if HDR_FOUND cp HDR__BYTES then [(value_place cp HDR__BYTES, HDR__BYTES)] else []))"

text \<open>
  One turn of the loop over \<open>hp\<close>: \<open>p\<close> is where the next data are written from, the pieces those of \<open>iov\<close>.
  \<open>xref\<close> is \<open>data->Xref\<close> with its CRLF.
\<close>

definition store_header ::
  "pathconf \<Rightarrow> bool \<Rightarrow> octets \<Rightarrow> octets \<Rightarrow> channel \<Rightarrow> nat \<times> nat \<Rightarrow> nat \<times> octets list \<Rightarrow> nat \<times> octets list" where
  "store_header conf xrefslave xref bp cp hp s =
     (case s of (p, iov) \<Rightarrow> case hp of (v, i) \<Rightarrow>
      if i = HDR__PATH then
        (if \<not> Hassamepath conf \<or> AddAlias conf \<or> Pathcluster conf \<noteq> []
         then (v + (if Hassamecluster conf then length (Pathcluster conf) else 0),
               iov @ [span bp p v] @ (if Pathcluster conf \<noteq> [] then [Pathcluster conf] else []) @ [Path conf] @
               (if AddAlias conf then [Pathalias conf] else []))
         else s)
      else if i = HDR__XREF then
        (if \<not> xrefslave then (v + HDR_LEN cp i, iov @ [span bp p v, take (length xref - 2) xref]) else s)
      else (v + HDR_LEN cp i + 2, iov @ [span bp p (case BytesHeader cp of Some b \<Rightarrow> b | None \<Rightarrow> 0)]))"

definition ARTstore_iov :: "pathconf \<Rightarrow> bool \<Rightarrow> octets \<Rightarrow> octets \<Rightarrow> channel \<Rightarrow> octets list" where
  "ARTstore_iov conf xrefslave xref bp cp =
     (let (p, iov) = fold (store_header conf xrefslave xref bp cp) (header_places cp) (Start cp, []) in
      if HDR_FOUND cp HDR__XREF then iov @ [span bp p (Next cp)]
      else iov @ [span bp p (Body cp - 2), ''Xref: '', xref, span bp (Body cp - 2) (Next cp)])"

text \<open>
  The size that is stored with the article: a CRLF counts two octets, the terminator and the dots that were
  added for the transport do not count.
\<close>

definition stored_size :: "octets list \<Rightarrow> channel \<Rightarrow> int" where
  "stored_size iov cp = int (length (concat iov)) - (3 + DotStuffedLines cp)"

definition bytes_line :: "octets list \<Rightarrow> channel \<Rightarrow> octets" where
  "bytes_line iov cp = ''Bytes: '' @ dec_int (stored_size iov cp) @ [CR, LF]"

fun buffer_trimcr :: "octets \<Rightarrow> octets" where
  "buffer_trimcr [] = []"
| "buffer_trimcr (c # s) =
     (if c = CR \<and> s \<noteq> [] \<and> hd s = LF then buffer_trimcr s else c # buffer_trimcr s)"

text \<open>
  The headers for the sites that want them: the last piece, which reaches the end of the article, is cut where the
  body begins.
\<close>

definition site_headers :: "octets list \<Rightarrow> channel \<Rightarrow> octets" where
  "site_headers iov cp =
     buffer_trimcr (bytes_line iov cp @ concat (butlast iov) @
       take (length (last iov) - (Next cp - Body cp)) (last iov))"

section \<open>Where the values are\<close>

definition names :: "nat \<Rightarrow> field \<Rightarrow> bool" where
  "names i f \<longleftrightarrow> ARTfindheader (hd (fst f)) (fst f) = Some i"

lemma names_same:
  assumes "i < 76" "name_ok (fst f)"
  shows "names i f \<longleftrightarrow> same_name (fst f) (header_name i)"
  using ARTfindheader_complete [of i "fst f"] ARTfindheader_sound [of "hd (fst f)" "fst f" i] name_ok_facts(2) [OF assms(2)] assms(1)
  by (auto simp: same_name_def names_def)

abbreviation text_length :: "field list \<Rightarrow> nat" where
  "text_length fs \<equiv> length (concat (map field_text fs))"

lemma place_fields_append:
  "place_fields xr bp h hcs (fs @ gs) = place_fields xr bp (h + text_length fs) (place_fields xr bp h hcs fs) gs"
  by (induction xr bp h hcs fs rule: place_fields.induct) (simp_all add: add.assoc)

lemma place_fields_other:
  "\<forall>f\<in>set fs. \<not> names i f \<Longrightarrow> place_fields xr bp h hcs fs ! i = hcs ! i"
  by (induction xr bp h hcs fs rule: place_fields.induct) (auto simp: names_def split: option.split)

lemma place_fields_length: "length (place_fields xr bp h hcs fs) = length hcs"
  by (induction xr bp h hcs fs rule: place_fields.induct) (auto split: option.split)

lemma bytes_place_append: "bytes_place h b (fs @ gs) = bytes_place (h + text_length fs) (bytes_place h b fs) gs"
  by (induction h b fs rule: bytes_place.induct) (simp_all add: add.assoc)

lemma bytes_place_other: "\<forall>f\<in>set fs. \<not> names HDR__BYTES f \<Longrightarrow> bytes_place h b fs = b"
  by (induction h b fs rule: bytes_place.induct) (auto simp: names_def)

text \<open>A field that is the only one of its name, and not empty.\<close>

lemma place_single:
  assumes "names i (n, v)" "\<forall>f\<in>set as \<union> set bs. \<not> names i f" "i < length hcs" "Length (hcs ! i) = 0" "\<not> trimmed xr i"
  shows "place_fields xr bp h hcs (as @ (n, v) # bs) ! i =
    (hcs ! i)\<lparr>Value := Some (h + text_length as + length n + 2), Length := int (length v)\<rparr>"
proof -
  let ?h = "h + text_length as"
  have a: "place_fields xr bp h hcs as ! i = hcs ! i" using assms(2) by (intro place_fields_other) auto
  have "field_value bp xr i ?h (length (field_text (n, v))) (?h + length n) = (?h + length n + 2, int (length v))"
    using assms(5) by (auto simp: field_value_def trimmed_def field_text_def)
  then have "place_fields xr bp ?h (place_fields xr bp h hcs as) ((n, v) # bs) ! i =
      (hcs ! i)\<lparr>Value := Some (?h + length n + 2), Length := int (length v)\<rparr>"
    using assms(1,2,3,4) a by (simp add: place_fields_other names_def place_fields_length put_value_def)
  then show ?thesis by (simp add: place_fields_append)
qed


definition special :: "nat set" where
  "special = {HDR__PATH, HDR__XREF, HDR__BYTES}"

lemma special_numbers: "HDR__PATH = 9" "HDR__XREF = 17" "HDR__BYTES = 14"
  by (simp_all add: HDR__PATH_def HDR__XREF_def HDR__BYTES_def)

text \<open>The places of the special fields, in their order, for fields that begin at \<open>h\<close>.\<close>

fun special_places :: "nat \<Rightarrow> field list \<Rightarrow> (nat \<times> nat) list" where
  "special_places h [] = []"
| "special_places h ((n, v) # fs) =
     (case ARTfindheader (hd n) n of
        Some i \<Rightarrow> if i \<in> special then [(h + length n + 2, i)] else []
      | None \<Rightarrow> []) @ special_places (h + length (field_text (n, v))) fs"

text \<open>At most one field of every special name, and none of them empty.\<close>

definition single_specials :: "field list \<Rightarrow> bool" where
  "single_specials fs \<longleftrightarrow> (\<forall>i\<in>special. length (filter (names i) fs) \<le> 1 \<and> (\<forall>f\<in>set fs. names i f \<longrightarrow> snd f \<noteq> []))"

lemma special_places_ge: "(p, i) \<in> set (special_places h fs) \<Longrightarrow> h + 2 \<le> p \<and> i \<in> special"
  by (induction h fs rule: special_places.induct) (fastforce split: option.splits if_splits simp: field_text_def)+

lemma special_places_sorted: "sorted (map fst (special_places h fs)) \<and> distinct (map fst (special_places h fs))"
proof (induction h fs rule: special_places.induct)
  case (2 h n v fs)
  have "h + length n + 2 < p" if "(p, i) \<in> set (special_places (h + length (field_text (n, v))) fs)" for p i
    using special_places_ge [OF that] by (simp add: field_text_def)
  then show ?case using 2 by (fastforce split: option.split)
qed simp

lemma special_places_iff:
  "(p, i) \<in> set (special_places h fs) \<longleftrightarrow>
     i \<in> special \<and> (\<exists>as n v bs. fs = as @ (n, v) # bs \<and> names i (n, v) \<and> p = h + text_length as + length n + 2)"
proof (induction fs arbitrary: h)
  case (Cons f fs)
  obtain n v where f: "f = (n, v)" by fastforce
  have head: "(\<exists>as m w bs. f # fs = as @ (m, w) # bs \<and> names i (m, w) \<and> p = h + text_length as + length m + 2) \<longleftrightarrow>
      names i (n, v) \<and> p = h + length n + 2 \<or>
      (\<exists>as m w bs. fs = as @ (m, w) # bs \<and> names i (m, w) \<and> p = h + length (field_text (n, v)) + text_length as + length m + 2)"
    (is "?L \<longleftrightarrow> ?H \<or> ?R")
  proof
    assume ?L
    then obtain as m w bs where s: "f # fs = as @ (m, w) # bs" "names i (m, w)" "p = h + text_length as + length m + 2" by blast
    then show "?H \<or> ?R" by (cases as) (auto simp: f add.assoc)
  next
    assume "?H \<or> ?R"
    then show ?L
    proof
      assume ?H
      then show ?L by (intro exI [of _ "[]"] exI [of _ n] exI [of _ v] exI [of _ fs]) (simp add: f)
    next
      assume ?R
      then obtain as m w bs where s: "fs = as @ (m, w) # bs" "names i (m, w)"
        "p = h + length (field_text (n, v)) + text_length as + length m + 2" by blast
      then show ?L by (intro exI [of _ "f # as"] exI [of _ m] exI [of _ w] exI [of _ bs]) (simp add: f)
    qed
  qed
  have "(p, i) \<in> set (special_places h (f # fs)) \<longleftrightarrow>
      i \<in> special \<and> names i (n, v) \<and> p = h + length n + 2 \<or> (p, i) \<in> set (special_places (h + length (field_text (n, v))) fs)"
    by (auto simp: f names_def split: option.split)
  then show ?case unfolding head Cons.IH by blast
qed simp

lemma single_split:
  assumes "single_specials (as @ (n, v) # bs)" "i \<in> special" "names i (n, v)"
  shows "\<forall>f\<in>set as \<union> set bs. \<not> names i f" "v \<noteq> []"
proof -
  have "length (filter (names i) (as @ (n, v) # bs)) \<le> 1" using assms(1,2) unfolding single_specials_def by blast
  then have "filter (names i) as = []" "filter (names i) bs = []" using assms(3) by auto
  then show "\<forall>f\<in>set as \<union> set bs. \<not> names i f" by (auto simp: filter_empty_conv)
  have "\<forall>f\<in>set (as @ (n, v) # bs). names i f \<longrightarrow> snd f \<noteq> []" using assms(1,2) unfolding single_specials_def by blast
  then show "v \<noteq> []" using assms(3) by auto
qed

text \<open>What the parser leaves of an article made of fields that begin at \<open>Start\<close>.\<close>

definition parsed :: "octets \<Rightarrow> channel \<Rightarrow> field list \<Rightarrow> bool" where
  "parsed bp cp fs \<longleftrightarrow>
     HdrContent cp = place_fields False bp (Start cp) (replicate 76 \<lparr>Value = None, Length = 0, LastChar = CR\<rparr>) fs \<and>
     BytesHeader cp = bytes_place (Start cp) None fs \<and> Body cp = Start cp + text_length fs + 2 \<and>
     (\<exists>rest. drop (Start cp) bp = concat (map field_text fs) @ [CR, LF] @ rest)"

lemma parsed_special:
  assumes "parsed bp cp fs" "single_specials fs" "i \<in> special"
  shows "fs = as @ (n, v) # bs \<Longrightarrow> names i (n, v) \<Longrightarrow> HDR_FOUND cp i \<and> HDR_LEN cp i = length v \<and>
      value_place cp i = Start cp + text_length as + length n + 2 \<and>
      (i = HDR__BYTES \<longrightarrow> BytesHeader cp = Some (Start cp + text_length as))"
    and "\<forall>f\<in>set fs. \<not> names i f \<Longrightarrow> \<not> HDR_FOUND cp i"
proof -
  let ?z = "replicate 76 \<lparr>Value = None, Length = 0 :: int, LastChar = CR\<rparr>"
  have i: "i < 76" "\<not> trimmed False i" using assms(3)
    by (auto simp: special_def special_numbers trimmed_def HDR__MESSAGE_ID_def HDR__SUPERSEDES_def)
  have hc: "HdrContent cp = place_fields False bp (Start cp) ?z fs" "BytesHeader cp = bytes_place (Start cp) None fs"
    using assms(1) by (auto simp: parsed_def)
  show "HDR_FOUND cp i \<and> HDR_LEN cp i = length v \<and> value_place cp i = Start cp + text_length as + length n + 2 \<and>
      (i = HDR__BYTES \<longrightarrow> BytesHeader cp = Some (Start cp + text_length as))"
    if fs: "fs = as @ (n, v) # bs" "names i (n, v)"
  proof -
    note s = single_split [OF assms(2) [unfolded fs(1)] assms(3) fs(2)]
    have "HdrContent cp ! i = (?z ! i)\<lparr>Value := Some (Start cp + text_length as + length n + 2), Length := int (length v)\<rparr>"
      unfolding hc(1) fs(1) using i by (intro place_single [OF fs(2) s(1)]) simp_all
    moreover have "BytesHeader cp = Some (Start cp + text_length as)" if "i = HDR__BYTES"
    proof -
      have "bytes_place h b bs = b" for h b using s(1) that by (intro bytes_place_other) auto
      then show ?thesis unfolding hc(2) fs(1) bytes_place_append using fs(2) that by (simp add: names_def)
    qed
    ultimately show ?thesis using s(2) by (simp add: HDR_FOUND_def HDR_LEN_def value_place_def)
  qed
  assume none: "\<forall>f\<in>set fs. \<not> names i f"
  show "\<not> HDR_FOUND cp i" unfolding HDR_FOUND_def hc(1) place_fields_other [OF none] using i(1) by simp
qed

lemma first_split:
  "\<forall>g\<in>set as. \<not> P g \<Longrightarrow> P f \<Longrightarrow> takeWhile (\<lambda>g. \<not> P g) (as @ f # bs) = as \<and> dropWhile (\<lambda>g. \<not> P g) (as @ f # bs) = f # bs"
  by (induction as) auto

lemma header_places_special:
  assumes "parsed bp cp fs" "single_specials fs" "\<exists>f\<in>set fs. names HDR__PATH f"
  shows "header_places cp = special_places (Start cp) fs"
proof -
  let ?L = "(value_place cp HDR__PATH, HDR__PATH) #
      (if HDR_FOUND cp HDR__XREF then [(value_place cp HDR__XREF, HDR__XREF)] else []) @
      (if HDR_FOUND cp HDR__BYTES then [(value_place cp HDR__BYTES, HDR__BYTES)] else [])"
  let ?S = "special_places (Start cp) fs"
  have path: "HDR_FOUND cp HDR__PATH"
  proof -
    obtain f where "f \<in> set fs" "names HDR__PATH f" using assms(3) by blast
    then obtain as bs where "fs = as @ f # bs" by (meson split_list)
    then show ?thesis
      using parsed_special(1) [OF assms(1,2), of HDR__PATH as "fst f" "snd f" bs] \<open>names HDR__PATH f\<close>
      by (simp add: special_def)
  qed
  have L: "(p, i) \<in> set ?L \<longleftrightarrow> i \<in> special \<and> HDR_FOUND cp i \<and> p = value_place cp i" for p i
    using path by (auto simp: special_def split: if_splits)
  have "(p, i) \<in> set ?L \<longleftrightarrow> (p, i) \<in> set ?S" for p i
  proof (cases "i \<in> special")
    case True
    show ?thesis
    proof (cases "\<exists>f\<in>set fs. names i f")
      case ex: True
      then obtain n v where f: "(n, v) \<in> set fs" "names i (n, v)" by auto
      then obtain as bs where fs: "fs = as @ (n, v) # bs" by (meson split_list)
      note k = parsed_special(1) [OF assms(1,2) True fs f(2)]
      have uniq: "as' = as \<and> n' = n" if "fs = as' @ (n', v') # bs'" "names i (n', v')" for as' n' v' bs'
      proof -
        have "takeWhile (\<lambda>f. \<not> names i f) fs = as \<and> dropWhile (\<lambda>f. \<not> names i f) fs = (n, v) # bs"
          unfolding fs using single_split(1) [OF assms(2) [unfolded fs] True f(2)] f(2) by (intro first_split) auto
        moreover have "takeWhile (\<lambda>f. \<not> names i f) fs = as' \<and> dropWhile (\<lambda>f. \<not> names i f) fs = (n', v') # bs'"
          unfolding that(1) using single_split(1) [OF assms(2) [unfolded that(1)] True that(2)] that(2) by (intro first_split) auto
        ultimately show ?thesis by auto
      qed
      have "(\<exists>as n v bs. fs = as @ (n, v) # bs \<and> names i (n, v) \<and> p = Start cp + text_length as + length n + 2) \<longleftrightarrow>
          p = Start cp + text_length as + length n + 2" (is "?E \<longleftrightarrow> ?p")
      proof
        assume ?E
        then obtain as' n' v' bs' where e: "fs = as' @ (n', v') # bs'" "names i (n', v')"
          "p = Start cp + text_length as' + length n' + 2" by blast
        then show ?p using uniq [OF e(1,2)] by simp
      next
        assume ?p
        with fs f(2) show ?E by blast
      qed
      then show ?thesis unfolding L special_places_iff using k True by simp
    next
      case False
      then have "\<not> (\<exists>as n v bs. fs = as @ (n, v) # bs \<and> names i (n, v) \<and> p = Start cp + text_length as + length n + 2)"
        by auto
      then show ?thesis unfolding L special_places_iff using parsed_special(2) [OF assms(1,2) True] False by blast
    qed
  next
    case False
    then show ?thesis unfolding L special_places_iff by blast
  qed
  then have "set ?L = set ?S" by auto
  moreover have "distinct ?L" by (auto simp: special_numbers)
  moreover have d: "distinct (map fst ?S)" "sorted (map fst ?S)" using special_places_sorted by blast+
  ultimately have "mset ?L = mset ?S" using set_eq_iff_mset_eq_distinct d(1) unfolding distinct_map by blast
  moreover have "inj_on fst (set ?L)" using \<open>set ?L = set ?S\<close> d(1) by (simp only: distinct_map)
  ultimately show ?thesis unfolding header_places_def using sort_key_inj_key_eq d(2) by blast
qed

section \<open>The text that is stored\<close>

definition new_path :: "pathconf \<Rightarrow> octets \<Rightarrow> octets" where
  "new_path conf v =
     (if \<not> Hassamepath conf \<or> AddAlias conf \<or> Pathcluster conf \<noteq> []
      then Pathcluster conf @ Path conf @ (if AddAlias conf then Pathalias conf else []) @
           drop (if Hassamecluster conf then length (Pathcluster conf) else 0) v
      else v)"

text \<open>\<open>x\<close> is the value of the new Xref field.\<close>

definition stored_field :: "pathconf \<Rightarrow> octets \<Rightarrow> field \<Rightarrow> octets" where
  "stored_field conf x f =
     (if names HDR__PATH f then field_text (fst f, new_path conf (snd f))
      else if names HDR__XREF f then field_text (fst f, x)
      else if names HDR__BYTES f then []
      else field_text f)"

definition cluster_fits :: "pathconf \<Rightarrow> field list \<Rightarrow> bool" where
  "cluster_fits conf fs \<longleftrightarrow>
     (Hassamecluster conf \<longrightarrow> (\<forall>f\<in>set fs. names HDR__PATH f \<longrightarrow> length (Pathcluster conf) \<le> length (snd f)))"

lemma span_split: "p \<le> h \<Longrightarrow> span bp p (h + k) = span bp p h @ take k (drop h bp)"
proof -
  assume "p \<le> h"
  then have "h + k - p = (h - p) + k" "drop h bp = drop (h - p) (drop p bp)" by simp_all
  then show ?thesis unfolding span_def substr_def by (simp only: take_add)
qed

definition placed :: "channel \<Rightarrow> nat \<Rightarrow> field list \<Rightarrow> bool" where
  "placed cp h fs \<longleftrightarrow> (\<forall>as n v bs i. fs = as @ (n, v) # bs \<and> names i (n, v) \<and> i \<in> special \<longrightarrow>
     HDR_LEN cp i = length v \<and> (i = HDR__BYTES \<longrightarrow> BytesHeader cp = Some (h + text_length as)))"

lemma placedD:
  "placed cp h fs \<Longrightarrow> fs = as @ (n, v) # bs \<Longrightarrow> names i (n, v) \<Longrightarrow> i \<in> special \<Longrightarrow>
    HDR_LEN cp i = length v \<and> (i = HDR__BYTES \<longrightarrow> BytesHeader cp = Some (h + text_length as))"
  unfolding placed_def by blast

lemma store_fold:
  assumes "drop h bp = concat (map field_text fs) @ s" "p \<le> h"
    and "placed cp h fs"
    and "cluster_fits conf fs" "xref = x @ [CR, LF]"
  shows "\<exists>p' iov'. fold (store_header conf False xref bp cp) (special_places h fs) (p, iov) = (p', iov @ iov') \<and>
    p' \<le> h + text_length fs \<and>
    concat iov' @ span bp p' (h + text_length fs) = span bp p h @ concat (map (stored_field conf x) fs)"
  using assms(1-4)
proof (induction fs arbitrary: h p iov)
  case Nil
  then show ?case by simp
next
  case (Cons f fs)
  obtain n v where f: "f = (n, v)" by fastforce
  let ?h = "h + length (field_text (n, v))" and ?v = "h + length n + 2"
  have d: "drop h bp = field_text (n, v) @ concat (map field_text fs) @ s" using Cons.prems(1) f by simp
  have dh: "drop ?h bp = concat (map field_text fs) @ s"
    using arg_cong [OF d, of "drop (length (field_text (n, v)))"] by (simp add: add.commute)
  have hyps: "placed cp ?h fs"
    unfolding placed_def
  proof (intro allI impI)
    fix as m w bs i
    assume "fs = as @ (m, w) # bs \<and> names i (m, w) \<and> i \<in> special"
    then show "HDR_LEN cp i = length w \<and> (i = HDR__BYTES \<longrightarrow> BytesHeader cp = Some (?h + text_length as))"
      using placedD [OF Cons.prems(3), of "f # as" m w bs i] f by (simp add: add.assoc)
  qed
  have cl: "cluster_fits conf fs" using Cons.prems(4) by (auto simp: cluster_fits_def)
  have here: "HDR_LEN cp i = length v \<and> (i = HDR__BYTES \<longrightarrow> BytesHeader cp = Some h)" if "names i (n, v)" "i \<in> special" for i
    using placedD [OF Cons.prems(3), of "[]" n v fs i] that f by simp
  define g where "g = store_header conf False xref bp cp"
  have step: "\<exists>p1 iov1. fold g (case ARTfindheader (hd n) n of Some i \<Rightarrow> if i \<in> special then [(?v, i)] else [] | None \<Rightarrow> []) (p, iov)
      = (p1, iov @ iov1) \<and> p1 \<le> ?h \<and> concat iov1 @ span bp p1 ?h = span bp p h @ stored_field conf x f"
  proof -
    have all_of: "span bp p ?h = span bp p h @ field_text (n, v)" using span_split [OF Cons.prems(2)] d by simp
    have front: "span bp p ?v = span bp p h @ n @ [CHR '':'', SP]"
      using span_split [OF Cons.prems(2), of bp "length n + 2"] d by (simp add: field_text_def add.assoc)
    have tail_of: "span bp (?v + k) ?h = drop k v @ [CR, LF]" if "k \<le> length v" for k
    proof -
      have "drop (?v + k) bp = drop k v @ [CR, LF] @ concat (map field_text fs) @ s"
        using arg_cong [OF d, of "drop (length n + 2 + k)"] that by (simp add: field_text_def add.commute add.left_commute)
      then show ?thesis using that by (simp add: span_def substr_def field_text_def)
    qed
    have nm: "names i (n, v) \<longleftrightarrow> ARTfindheader (hd n) n = Some i" for i by (simp add: names_def)
    consider (plain) "\<And>i. ARTfindheader (hd n) n = Some i \<Longrightarrow> i \<notin> special" | (path) "ARTfindheader (hd n) n = Some HDR__PATH"
      | (xref) "ARTfindheader (hd n) n = Some HDR__XREF" | (bytes) "ARTfindheader (hd n) n = Some HDR__BYTES"
      by (cases "ARTfindheader (hd n) n") (auto simp: special_def)
    then show ?thesis
    proof cases
      case plain
      then have "stored_field conf x f = field_text f" by (auto simp: stored_field_def f nm special_def)
      moreover have "(case ARTfindheader (hd n) n of Some i \<Rightarrow> if i \<in> special then [(?v, i)] else [] | None \<Rightarrow> []) = []"
        using plain by (auto split: option.split)
      ultimately show ?thesis using all_of Cons.prems(2) f by (intro exI [of _ p] exI [of _ "[]"]) simp
    next
      case path
      define k where "k = (if Hassamecluster conf then length (Pathcluster conf) else 0)"
      have k: "k \<le> length v" using Cons.prems(4) nm path by (auto simp: cluster_fits_def k_def f)
      have st: "stored_field conf x f = field_text (n, new_path conf v)" by (simp add: stored_field_def nm path f)
      show ?thesis
      proof (cases "\<not> Hassamepath conf \<or> AddAlias conf \<or> Pathcluster conf \<noteq> []")
        case True
        have "new_path conf v = Pathcluster conf @ Path conf @ (if AddAlias conf then Pathalias conf else []) @ drop k v"
          using True by (simp add: new_path_def k_def)
        then show ?thesis using True path k st front tail_of [OF k]
          by (intro exI [of _ "?v + k"] exI [of _ "[span bp p ?v] @ (if Pathcluster conf \<noteq> [] then [Pathcluster conf] else []) @ [Path conf] @
               (if AddAlias conf then [Pathalias conf] else [])"])
            (simp add: g_def store_header_def special_def k_def [symmetric] field_text_def)
      next
        case False
        then show ?thesis using path st all_of Cons.prems(2)
          by (intro exI [of _ p] exI [of _ "[]"]) (simp add: g_def store_header_def special_def new_path_def)
      qed
    next
      case xref
      have "HDR_LEN cp HDR__XREF = length v" using here [of HDR__XREF] xref by (simp add: names_def special_def)
      moreover have "stored_field conf x f = field_text (n, x)" by (simp add: stored_field_def nm xref f special_numbers)
      ultimately show ?thesis using xref front tail_of [of "length v"] assms(5)
        by (intro exI [of _ "?v + length v"] exI [of _ "[span bp p ?v, x]"])
          (simp add: g_def store_header_def special_def special_numbers field_text_def)
    next
      case bytes
      have "HDR_LEN cp HDR__BYTES = length v" "BytesHeader cp = Some h"
        using here [of HDR__BYTES] bytes by (simp_all add: names_def special_def)
      moreover have "stored_field conf x f = []" by (simp add: stored_field_def nm bytes f special_numbers)
      moreover have "?v + length v + 2 = ?h" by (simp add: field_text_def)
      ultimately show ?thesis using bytes
        by (intro exI [of _ ?h] exI [of _ "[span bp p h]"])
          (simp add: g_def store_header_def special_def special_numbers span_def substr_def)
    qed
  qed
  then obtain p1 iov1 where s1: "fold g (case ARTfindheader (hd n) n of Some i \<Rightarrow> if i \<in> special then [(?v, i)] else [] | None \<Rightarrow> []) (p, iov)
      = (p1, iov @ iov1)" "p1 \<le> ?h" "concat iov1 @ span bp p1 ?h = span bp p h @ stored_field conf x f" by blast
  obtain p' iov' where s2: "fold g (special_places ?h fs) (p1, iov @ iov1) = (p', (iov @ iov1) @ iov')" "p' \<le> ?h + text_length fs"
    "concat iov' @ span bp p' (?h + text_length fs) = span bp p1 ?h @ concat (map (stored_field conf x) fs)"
    using Cons.IH [OF dh s1(2) hyps cl, where iov = "iov @ iov1"] unfolding g_def by blast
  have "fold g (special_places h (f # fs)) (p, iov) = (p', iov @ iov1 @ iov')"
    using s1(1) s2(1) by (simp add: f)
  moreover have "concat (iov1 @ iov') @ span bp p' (h + text_length (f # fs)) =
      span bp p h @ concat (map (stored_field conf x) (f # fs))"
    using s1(3) s2(3) by (simp add: f add.assoc)
  moreover have "p' \<le> h + text_length (f # fs)" using s2(2) by (simp add: f)
  ultimately show ?case unfolding g_def [symmetric] by blast
qed

lemma stored_text:
  assumes "parsed bp cp fs" "single_specials fs" "\<exists>f\<in>set fs. names HDR__PATH f" "cluster_fits conf fs"
    and "Body cp \<le> Next cp"
  shows "concat (ARTstore_iov conf False (x @ [CR, LF]) bp cp) = concat (map (stored_field conf x) fs) @
    (if \<exists>f\<in>set fs. names HDR__XREF f then [] else field_text (''Xref'', x)) @ [CR, LF] @
    take (Next cp - Body cp) (drop (Body cp) bp)"
proof -
  let ?h = "Start cp + text_length fs"
  obtain rest where d: "drop (Start cp) bp = concat (map field_text fs) @ [CR, LF] @ rest" and body: "Body cp = ?h + 2"
    using assms(1) by (auto simp: parsed_def)
  have placed: "placed cp (Start cp) fs" unfolding placed_def using parsed_special(1) [OF assms(1,2)] by blast
  obtain p iov where s: "fold (store_header conf False (x @ [CR, LF]) bp cp) (header_places cp) (Start cp, []) = (p, iov)"
    "p \<le> ?h" "concat iov @ span bp p ?h = concat (map (stored_field conf x) fs)"
    using store_fold [OF d order_refl placed assms(4) refl, where iov = "[]" and x = x]
      header_places_special [OF assms(1-3)] by (auto simp: span_def substr_def)
  have dh: "drop ?h bp = [CR, LF] @ rest" using arg_cong [OF d, of "drop (text_length fs)"] by (simp add: add.commute)
  have drest: "drop (Body cp) bp = rest" using arg_cong [OF dh, of "drop 2"] by (simp add: body add.commute)
  have n: "Next cp - ?h = Next cp - Body cp + 2" using body assms(5) by simp
  then have tail_text: "span bp ?h (Next cp) = [CR, LF] @ take (Next cp - Body cp) rest"
    using dh by (simp add: span_def substr_def)
  have xref: "HDR_FOUND cp HDR__XREF \<longleftrightarrow> (\<exists>f\<in>set fs. names HDR__XREF f)"
  proof (cases "\<exists>f\<in>set fs. names HDR__XREF f")
    case True
    then obtain f where "f \<in> set fs" "names HDR__XREF f" by blast
    moreover from this(1) obtain as bs where "fs = as @ f # bs" by (meson split_list)
    ultimately show ?thesis
      using parsed_special(1) [OF assms(1,2), of HDR__XREF as "fst f" "snd f" bs] by (auto simp: special_def)
  next
    case False
    then show ?thesis using parsed_special(2) [OF assms(1,2), of HDR__XREF] by (auto simp: special_def)
  qed
  show ?thesis
  proof (cases "HDR_FOUND cp HDR__XREF")
    case True
    have "span bp p (Next cp) = span bp p ?h @ span bp ?h (Next cp)"
      using span_split [OF s(2), of bp "Next cp - ?h"] assms(5) body by (simp add: span_def substr_def)
    then show ?thesis using True xref s tail_text drest by (simp add: ARTstore_iov_def)
  next
    case False
    then show ?thesis using xref s tail_text drest body by (simp add: ARTstore_iov_def field_text_def)
  qed
qed

text \<open>
  C10: What is stored of an article. Let an article made of fields be received in any batches, with a Path field, at most one
  Path, Xref and Bytes field each and none of them empty. The pieces that \<open>ARTstore\<close> hands to the storage manager
  make up the article as it was received but for three fields: the name of the server (with the cluster before and the alias
  behind it, where they apply) stands in front of the Path, the value of the Xref field is the new one (added as the last
  field when there was none), and the Bytes field is gone. All other fields and the body are as they came, octet by octet.
\<close>

theorem stored_article:
  assumes "begin_article bp0 cp0 cp" and "ds \<noteq> []" and "fs \<noteq> []" and "list_all field_ok fs"
    and "drop (Start cp) (bp0 @ concat ds) = concat (map field_text fs) @ [CR, LF] @ rest" and "rest \<noteq> []"
    and "single_specials fs" "\<exists>f\<in>set fs. names HDR__PATH f" "cluster_fits conf fs"
    and "cp' = parse_batches False bp0 cp ds"
  shows "concat (ARTstore_iov conf False (x @ [CR, LF]) (bp0 @ concat ds) cp') =
    concat (map (stored_field conf x) fs) @ (if \<exists>f\<in>set fs. names HDR__XREF f then [] else field_text (''Xref'', x)) @
    [CR, LF] @ take (Next cp' - Body cp') rest"
proof -
  note p = parsed_fields [OF assms(1-6), of False, folded assms(10)]
  have parsed: "parsed (bp0 @ concat ds) cp' fs" using p assms(5) by (auto simp: parsed_def)
  have body: "Body cp' \<le> Next cp'" "Body cp' = Start cp + text_length fs + 2" "Start cp' = Start cp" using p by simp_all
  have "drop (text_length fs + 2 + Start cp) (bp0 @ concat ds) = drop (text_length fs + 2) (concat (map field_text fs) @ [CR, LF] @ rest)"
    unfolding assms(5) [symmetric] drop_drop ..
  then have "drop (Body cp') (bp0 @ concat ds) = rest" unfolding body(2) by (simp only: add.commute add.assoc) simp
  with stored_text [OF parsed assms(7,8,9) body(1), of x] show ?thesis by (simp only:)
qed

definition stored_example :: "field list" where
  "stored_example = [(''Bytes'', ''12''), (''path'', ''a!b''), (''Subject'', ''hi'')]"

definition example_pathconf :: pathconf where
  "example_pathconf = \<lparr>Path = ''me!'', Pathalias = [], Pathcluster = [], Hassamepath = False, Hassamecluster = False, AddAlias = False\<rparr>"

theorem stored_article_witness:
  "let t = concat (map field_text stored_example) @ [CR, LF] @ dot_line; cp = parse_batches False [] example_begun [t] in
   concat (ARTstore_iov example_pathconf False (''me a.b:1'' @ [CR, LF]) t cp) =
     ''path: me!a!b'' @ [CR, LF] @ ''Subject: hi'' @ [CR, LF] @ ''Xref: me a.b:1'' @ [CR, LF, CR, LF] @
     take (Next cp - Body cp) dot_line"
proof -
  let ?t = "concat (map field_text stored_example) @ [CR, LF] @ dot_line"
  let ?cp = "parse_batches False [] example_begun [?t]"
  have b: "begin_article [] example_channel example_begun"
    by (simp add: begin_article_def example_begun_def example_channel_def)
  have ok: "list_all field_ok stored_example" by code_simp
  have n: "stored_example \<noteq> []" "[?t] \<noteq> []" "dot_line \<noteq> []" by (simp_all add: stored_example_def)
  have t: "drop (Start example_begun) ([] @ concat [?t]) = ?t" by (simp add: example_begun_sel)
  have idx: "ARTfindheader (hd ''Bytes'') ''Bytes'' = Some 14" "ARTfindheader (hd ''path'') ''path'' = Some 9"
    "ARTfindheader (hd ''Subject'') ''Subject'' = Some 12"
  proof -
    have "NUL \<notin> set ''Bytes''" "NUL \<notin> set ''path''" "NUL \<notin> set ''Subject''" by code_simp+
    moreover have "map c_tolower ''Bytes'' = map c_tolower (header_name 14)" by code_simp
    moreover have "map c_tolower ''path'' = map c_tolower (header_name 9)" by code_simp
    moreover have "map c_tolower ''Subject'' = map c_tolower (header_name 12)" by code_simp
    ultimately show "ARTfindheader (hd ''Bytes'') ''Bytes'' = Some 14" "ARTfindheader (hd ''path'') ''path'' = Some 9"
      "ARTfindheader (hd ''Subject'') ''Subject'' = Some 12" by (auto intro!: ARTfindheader_complete simp del: list.sel)
  qed
  define f1 f2 f3 where "f1 = (''Bytes'', ''12'')" and "f2 = (''path'', ''a!b'')" and "f3 = (''Subject'', ''hi'')"
  have e: "stored_example = [f1, f2, f3]" by (simp add: stored_example_def f1_def f2_def f3_def)
  have nm: "names i f1 \<longleftrightarrow> i = 14" "names i f2 \<longleftrightarrow> i = 9" "names i f3 \<longleftrightarrow> i = 12" for i
    using idx by (auto simp: names_def f1_def f2_def f3_def simp del: list.sel)
  have ne: "snd f1 \<noteq> []" "snd f2 \<noteq> []" "snd f3 \<noteq> []" by (simp_all add: f1_def f2_def f3_def)
  have single: "single_specials stored_example"
    unfolding single_specials_def special_def special_numbers e using ne by (simp add: nm)
  have path: "\<exists>f\<in>set stored_example. names HDR__PATH f" and xr: "(\<exists>f\<in>set stored_example. names HDR__XREF f) = False"
    unfolding e special_numbers by (simp_all add: nm)
  have fits: "cluster_fits example_pathconf stored_example" by (simp add: cluster_fits_def example_pathconf_def)
  have kept: "concat (map (stored_field example_pathconf x) stored_example) =
      ''path: me!a!b'' @ [CR, LF] @ ''Subject: hi'' @ [CR, LF]" for x
  proof -
    have "stored_field example_pathconf x f1 = []" by (simp add: stored_field_def special_numbers nm)
    moreover have "stored_field example_pathconf x f2 = field_text (''path'', ''me!a!b'')"
      by (simp add: stored_field_def special_numbers nm new_path_def example_pathconf_def) (simp add: f2_def)
    moreover have "stored_field example_pathconf x f3 = field_text f3" by (simp add: stored_field_def special_numbers nm)
    ultimately show ?thesis unfolding e by (simp add: f3_def field_text_def)
  qed
  have xt: "field_text (''Xref'', ''me a.b:1'') @ [CR, LF] @ r = ''Xref: me a.b:1'' @ [CR, LF, CR, LF] @ r" for r
    by (simp add: field_text_def)
  show ?thesis
    using stored_article [OF b n(2,1) ok t n(3) single path fits refl, of "''me a.b:1''"]
    unfolding Let_def xr kept if_False xt append_Nil concat.simps append_Nil2 append_assoc .
qed

end
