(* ===== verification/Newsfeeds_Text.thy ===== *)
theory Newsfeeds_Text
  imports Artfeed
begin

text \<open>
  The text of the newsfeeds file (\<open>SITEreadfile\<close> of \<open>innd/newsfeeds.c\<close>): lines that are continued, comments,
  and variables with their expansion. What is left is the list of the entries. The lemmas show that the
  two passes of the expansion agree about its length, and what the expansion of a variable with a modifier is.
\<close>

section \<open>Variables\<close>

record SITEVARIABLES =
  v_Name :: octets
  v_Value :: octets
  v_Elements :: nat

definition VARIABLE_CHAR :: char where "VARIABLE_CHAR = CHR ''$''"
definition SUB_NEGATE :: char where "SUB_NEGATE = CHR ''!''"
definition SUB_POISON :: char where "SUB_POISON = CHR ''@''"

abbreviation blank :: "char \<Rightarrow> bool" where "blank c \<equiv> c = SP \<or> c = TAB"

definition SITEfindvariable :: "SITEVARIABLES list \<Rightarrow> octets \<Rightarrow> SITEVARIABLES option" where
  "SITEfindvariable vs name = find (\<lambda>v. v_Name v = name) vs"

text \<open>The list with the variable \<open>name\<close> set: in its place, or behind the others.\<close>

fun set_variable :: "octets \<Rightarrow> octets \<Rightarrow> nat \<Rightarrow> SITEVARIABLES list \<Rightarrow> SITEVARIABLES list" where
  "set_variable name val n [] = [\<lparr>v_Name = name, v_Value = val, v_Elements = n\<rparr>]"
| "set_variable name val n (v # vs) =
     (if v_Name v = name then v\<lparr>v_Value := val, v_Elements := n\<rparr> # vs else v # set_variable name val n vs)"

text \<open>The line comes back as it is left: cut behind the name when the value is empty.\<close>

definition SITEaddvariable :: "octets \<Rightarrow> SITEVARIABLES list \<Rightarrow> bool \<times> octets \<times> SITEVARIABLES list" where
  "SITEaddvariable line vs =
     (if deref line \<noteq> VARIABLE_CHAR then (False, line, vs)
      else
        let name = takeWhile c_isalnum (tl line); p = drop (length name) (tl line) in
        if deref p \<noteq> CHR ''='' then (False, line, vs)
        else if 32 < 1 + length name then (False, line, vs)
        else
          let val = rev (dropWhile blank (rev (tl p))) in
          if val = [] then (False, VARIABLE_CHAR # name, vs)
          else (True, VARIABLE_CHAR # name,
                set_variable name (filter (\<lambda>c. \<not> blank c) val) (1 + length (filter (\<lambda>c. c = CHR '','') val)) vs))"

text \<open>
  \<open>SITEexpandvariables\<close>: one turn of either loop. \<open>varname\<close> is the name that is being read, with its
  dollar sign, or empty; \<open>modifier\<close> the exclamation mark or at sign just read. The first pass counts, the second one copies.
\<close>

record expansion =
  varname :: octets
  modifier :: "char option"

definition start_expansion :: expansion where
  "start_expansion = \<lparr>varname = [], modifier = None\<rparr>"

definition count_step :: "SITEVARIABLES list \<Rightarrow> char \<Rightarrow> expansion \<times> nat \<Rightarrow> expansion \<times> nat" where
  "count_step vs p s =
     (case s of (e, c) \<Rightarrow>
      let m = (if modifier e \<noteq> None then 1 else 0) in
      if varname e \<noteq> [] \<and> c_isalnum p then
        (if 32 < length (varname e) then (start_expansion, c + m + length (varname e) + 1)
         else (e\<lparr>varname := varname e @ [p]\<rparr>, c))
      else
        let (e, c) =
          (if varname e \<noteq> [] then
             (start_expansion,
              case SITEfindvariable vs (tl (varname e)) of
                Some v \<Rightarrow> c + length (v_Value v) + (if modifier e \<noteq> None then v_Elements v else 0)
              | None \<Rightarrow> c + m + length (varname e))
           else (e, c)) in
        if p = VARIABLE_CHAR then (e\<lparr>varname := [VARIABLE_CHAR]\<rparr>, c)
        else
          let c = (if modifier e \<noteq> None then c + 1 else c); e = e\<lparr>modifier := None\<rparr> in
          if p = SUB_NEGATE \<or> p = SUB_POISON then (e\<lparr>modifier := Some p\<rparr>, c) else (e, c + 1))"

definition the_modifier :: "expansion \<Rightarrow> octets" where
  "the_modifier e = (case modifier e of Some m \<Rightarrow> [m] | None \<Rightarrow> [])"

definition copy_step :: "SITEVARIABLES list \<Rightarrow> char \<Rightarrow> expansion \<times> octets \<Rightarrow> expansion \<times> octets" where
  "copy_step vs p s =
     (case s of (e, r) \<Rightarrow>
      if varname e \<noteq> [] \<and> c_isalnum p then
        (if 32 < length (varname e) then (start_expansion, r @ the_modifier e @ varname e @ [p])
         else (e\<lparr>varname := varname e @ [p]\<rparr>, r))
      else
        let (e, r) =
          (if varname e \<noteq> [] then
             (start_expansion,
              r @ the_modifier e @
              (case SITEfindvariable vs (tl (varname e)) of
                 Some v \<Rightarrow> concat (map (\<lambda>q. if q = CHR '','' then q # the_modifier e else [q]) (v_Value v))
               | None \<Rightarrow> varname e))
           else (e, r)) in
        if p = VARIABLE_CHAR then (e\<lparr>varname := [VARIABLE_CHAR]\<rparr>, r)
        else
          let r = r @ the_modifier e; e = e\<lparr>modifier := None\<rparr> in
          if p = SUB_NEGATE \<or> p = SUB_POISON then (e\<lparr>modifier := Some p\<rparr>, r) else (e, r @ [p]))"

definition expanded_size :: "SITEVARIABLES list \<Rightarrow> octets \<Rightarrow> nat" where
  "expanded_size vs site = snd (fold (count_step vs) (site @ [NUL]) (start_expansion, 0)) + 1"

text \<open>What is written to the new buffer, its NULs included; as a string it ends at the first of them.\<close>

definition expanded_octets :: "SITEVARIABLES list \<Rightarrow> octets \<Rightarrow> octets" where
  "expanded_octets vs site = snd (fold (copy_step vs) (site @ [NUL]) (start_expansion, [])) @ [NUL]"

definition SITEexpandvariables :: "SITEVARIABLES list \<Rightarrow> octets \<Rightarrow> octets" where
  "SITEexpandvariables vs site = takeWhile (\<lambda>c. c \<noteq> NUL) (expanded_octets vs site)"

section \<open>The file\<close>

text \<open>
  One logical line: \<open>to\<close> is what has been written to it, the text behind it is left. A backslash before a line feed is dropped with the
  white space that follows.
\<close>

function read_site :: "octets \<Rightarrow> octets \<Rightarrow> octets \<times> octets" where
  "read_site dest [] = (dest, [])"
| "read_site dest (c # p) =
     (if c = LF then (dest, p)
      else if c = CHR 0x5C \<and> deref p = LF then read_site dest (dropWhile c_isspace p)
      else read_site (dest @ [c]) p)"
  by pat_completeness auto
termination
  by (relation "measure (\<lambda>(dest, p). length p)") (auto simp: length_dropWhile_le le_imp_less_Suc)

lemma read_site_length: "length (snd (read_site dest p)) \<le> length p" "p \<noteq> [] \<Longrightarrow> length (snd (read_site dest p)) < length p"
proof -
  have "length (snd (read_site dest p)) \<le> length p \<and> (p \<noteq> [] \<longrightarrow> length (snd (read_site dest p)) < length p)"
  proof (induction dest p rule: read_site.induct)
    case (2 dest c p)
    have d: "length (dropWhile c_isspace p) \<le> length p" by (rule length_dropWhile_le)
    show ?case
    proof (cases "c = LF \<or> c = CHR 0x5C \<and> deref p = LF")
      case True
      then show ?thesis using 2(1) d by (cases "c = LF") (auto intro: le_SucI le_imp_less_Suc order_trans [OF _ d])
    next
      case False
      then show ?thesis using 2(2) by (auto simp: le_imp_less_Suc)
    qed
  qed simp
  then show "length (snd (read_site dest p)) \<le> length p" "p \<noteq> [] \<Longrightarrow> length (snd (read_site dest p)) < length p" by blast+
qed

text \<open>What becomes of one line: an entry, or nothing; and the variables.\<close>

definition site_line :: "octets \<Rightarrow> SITEVARIABLES list \<Rightarrow> octets option \<times> SITEVARIABLES list" where
  "site_line site vs =
     (if deref site = CHR ''#'' \<or> site = [] then (None, vs)
      else
        let (is_var, site, vs) = (if deref site = VARIABLE_CHAR then SITEaddvariable site vs else (False, site, vs)) in
        if is_var then (None, vs)
        else if list_all blank site then (None, vs)
        else (Some (if vs \<noteq> [] then SITEexpandvariables vs site else site), vs))"

function read_sites :: "octets \<Rightarrow> SITEVARIABLES list \<Rightarrow> octets list" where
  "read_sites p vs =
     (if p = [] then []
      else
        let (site, p) = read_site [] p; (entry, vs) = site_line site vs in
        (case entry of Some s \<Rightarrow> [s] | None \<Rightarrow> []) @ read_sites p vs)"
  by pat_completeness auto
termination
proof (relation "measure (\<lambda>(p, vs). length p)", goal_cases)
  case (2 p vs x site p' y entry vs')
  have "length (snd (read_site [] p)) < length p" using read_site_length(2) [OF 2(1)] by blast
  moreover have "p' = snd (read_site [] p)" using 2(2,3) by (metis snd_conv)
  ultimately show ?case by simp
qed simp

declare read_sites.simps [simp del]

text \<open>
  The entries of a file, as a reading afresh gives them: the copy that is kept while the file does not change is of the same
  list. The file is read as a C string. \<open>SITEfile_room\<close> is the number of pointers that are allocated for the
  array, the \<open>NULL\<close> at its end included.
\<close>

definition SITEreadfile :: "octets \<Rightarrow> octets list" where
  "SITEreadfile file = read_sites (takeWhile (\<lambda>c. c \<noteq> NUL) file) []"

definition SITEfile_room :: "octets \<Rightarrow> nat" where
  "SITEfile_room file = length (filter (\<lambda>c. c = LF) (takeWhile (\<lambda>c. c \<noteq> NUL) file)) + 1"

section \<open>Lists of names\<close>

fun split_on :: "char \<Rightarrow> octets \<Rightarrow> octets list" where
  "split_on s [] = [[]]"
| "split_on s (c # p) =
     (if c = s then [] # split_on s p else (c # hd (split_on s p)) # tl (split_on s p))"

definition CommaSplit :: "octets \<Rightarrow> octets list" where
  "CommaSplit p = split_on CHR '','' p"

definition SlashSplit :: "octets \<Rightarrow> octets list" where
  "SlashSplit p = split_on CHR ''/'' p"

lemma split_on_ne [simp]: "split_on s p \<noteq> []"
  by (cases p) auto

lemma split_on_simple: "s \<notin> set w \<Longrightarrow> split_on s (w @ s # p) = w # split_on s p" "s \<notin> set w \<Longrightarrow> split_on s w = [w]"
  by (induction w) auto

lemma split_on_words: "w \<in> set (split_on s p) \<Longrightarrow> s \<notin> set w"
proof (induction s p arbitrary: w rule: split_on.induct)
  case (2 s c p)
  have hd_tl: "hd (split_on s p) \<in> set (split_on s p)" "set (tl (split_on s p)) \<subseteq> set (split_on s p)"
    by (simp, cases "split_on s p") auto
  show ?case
  proof (cases "c = s")
    case False
    then show ?thesis using 2 hd_tl by auto
  qed (use 2 in auto)
qed simp

section \<open>The size of an expansion\<close>

definition var_ok :: "SITEVARIABLES \<Rightarrow> bool" where
  "var_ok v \<longleftrightarrow> v_Elements v = 1 + length (filter (\<lambda>c. c = CHR '','') (v_Value v)) \<and> NUL \<notin> set (v_Value v)"

abbreviation vars_ok :: "SITEVARIABLES list \<Rightarrow> bool" where "vars_ok \<equiv> list_all var_ok"

lemma var_okI: "NUL \<notin> set val \<Longrightarrow> v_Value v = val \<Longrightarrow> v_Elements v = 1 + length (filter (\<lambda>c. c = CHR '','') val) \<Longrightarrow> var_ok v"
  by (simp add: var_ok_def)

lemma vars_ok_add:
  assumes "vars_ok vs" "NUL \<notin> set line"
  shows "vars_ok (snd (snd (SITEaddvariable line vs)))"
proof -
  have set_ok: "vars_ok (set_variable name val (1 + length (filter (\<lambda>c. c = CHR '','') val)) vs)" if "NUL \<notin> set val" for name val
    using assms(1) by (induction vs) (simp_all add: var_okI [OF that])
  have commas: "filter (\<lambda>c. c = CHR '','') (filter (\<lambda>c. \<not> blank c) val) = filter (\<lambda>c. c = CHR '','') val" for val
    by (induction val) auto
  let ?p = "drop (length (takeWhile c_isalnum (tl line))) (tl line)"
  let ?val = "rev (dropWhile blank (rev (tl ?p)))"
  have "set ?val \<subseteq> set (tl ?p)" using set_dropWhileD [of _ blank "rev (tl ?p)"] by auto
  also have "\<dots> \<subseteq> set (tl line)" using set_drop_subset [of "length (takeWhile c_isalnum (tl line))" "tl line"]
    by (cases ?p) auto
  also have "\<dots> \<subseteq> set line" by (cases line) auto
  finally have "NUL \<notin> set (filter (\<lambda>c. \<not> blank c) ?val)" using assms(2) by auto
  from set_ok [OF this] show ?thesis using assms(1) unfolding commas SITEaddvariable_def Let_def
    by (simp only: if_distrib [of snd] snd_conv split: if_split) (simp only: simp_thms)
qed

lemma comma_length:
  "length (concat (map (\<lambda>q. if q = CHR '','' then q # m else [q]) v)) = length v + length m * length (filter (\<lambda>c. c = CHR '','') v)"
  by (induction v) auto

lemma the_modifier_length: "length (the_modifier e) = (if modifier e \<noteq> None then 1 else 0)"
  by (auto simp: the_modifier_def)

lemma steps_agree:
  assumes "vars_ok vs"
  shows "count_step vs p (e, length r) = (fst (copy_step vs p (e, r)), length (snd (copy_step vs p (e, r))))"
proof -
  have v: "length (v_Value v) + (if modifier e \<noteq> None then v_Elements v else 0) =
      length (the_modifier e) + length (concat (map (\<lambda>q. if q = CHR '','' then q # the_modifier e else [q]) (v_Value v)))"
    if "SITEfindvariable vs n = Some v" for n v
  proof -
    have "v \<in> set vs" using that by (auto simp: SITEfindvariable_def find_Some_iff)
    then have "var_ok v" using assms by (simp add: list_all_iff)
    then show ?thesis unfolding comma_length by (simp add: the_modifier_length var_ok_def)
  qed
  show ?thesis
  proof (cases "varname e \<noteq> [] \<and> c_isalnum p")
    case True
    then show ?thesis by (simp add: count_step_def copy_step_def the_modifier_length)
  next
    case False
    show ?thesis
    proof (cases "varname e \<noteq> []")
      case True
      show ?thesis
      proof (cases "SITEfindvariable vs (tl (varname e))")
        case None
        then show ?thesis using True False
          by (simp add: count_step_def copy_step_def start_expansion_def the_modifier_length Let_def)
      next
        case (Some v)
        note v [OF Some]
        then show ?thesis using True False Some
          by (simp add: count_step_def copy_step_def start_expansion_def add.assoc Let_def) (simp add: the_modifier_def)
      qed
    next
      case no: False
      then show ?thesis by (simp add: count_step_def copy_step_def the_modifier_length Let_def)
    qed
  qed
qed

lemma folds_agree:
  assumes "vars_ok vs"
  shows "fold (count_step vs) ps (e, length r) =
    (fst (fold (copy_step vs) ps (e, r)), length (snd (fold (copy_step vs) ps (e, r))))"
proof (induction ps arbitrary: e r)
  case (Cons p ps)
  obtain e' r' where "copy_step vs p (e, r) = (e', r')" by fastforce
  then show ?case using Cons.IH [of e' r'] steps_agree [OF assms, of p e r] by simp
qed simp

lemma expanded_length: "vars_ok vs \<Longrightarrow> length (expanded_octets vs site) = expanded_size vs site"
  using folds_agree [of vs "site @ [NUL]" start_expansion "[]"] by (simp add: expanded_octets_def expanded_size_def)

lemma vars_ok_fold:
  assumes "list_all (\<lambda>l. NUL \<notin> set l) ls"
  shows "vars_ok vs \<Longrightarrow> vars_ok (fold (\<lambda>l vs. snd (snd (SITEaddvariable l vs))) ls vs)"
  using assms
proof (induction ls arbitrary: vs)
  case (Cons l ls)
  then have "vars_ok (snd (snd (SITEaddvariable l vs)))" using vars_ok_add by simp
  then show ?case using Cons by simp
qed simp

text \<open>
  C39: The expansion of an entry fits in the buffer that is allocated for it: the pass that copies writes as many octets
  as the pass that counts has found, whatever variables lines of the file have set.
\<close>

theorem expansion_fits:
  assumes "list_all (\<lambda>l. NUL \<notin> set l) ls"
  shows "length (expanded_octets (fold (\<lambda>l vs. snd (snd (SITEaddvariable l vs))) ls []) site) =
    expanded_size (fold (\<lambda>l vs. snd (snd (SITEaddvariable l vs))) ls []) site"
  by (rule expanded_length, rule vars_ok_fold [OF assms]) simp

theorem expansion_fits_witness:
  "length (expanded_octets (fold (\<lambda>l vs. snd (snd (SITEaddvariable l vs))) [''$v=a, b''] []) ''x:!$v:'') = 10 \<and>
   expanded_size (fold (\<lambda>l vs. snd (snd (SITEaddvariable l vs))) [''$v=a, b''] []) ''x:!$v:'' = 10"
proof -
  have "expanded_size (fold (\<lambda>l vs. snd (snd (SITEaddvariable l vs))) [''$v=a, b''] []) ''x:!$v:'' = 10" by code_simp
  moreover have "list_all (\<lambda>l. NUL \<notin> set l) [''$v=a, b'']" by code_simp
  ultimately show ?thesis using expansion_fits [of "[''$v=a, b'']" "''x:!$v:''"] by (simp only: simp_thms)
qed

section \<open>What an expansion is\<close>

text \<open>
  An entry as pieces: text without a dollar sign that does not end in a modifier, and references to variables. A
  reference is not followed by a letter or digit.
\<close>

datatype piece = Plain octets | Ref "char option" octets

fun piece_text :: "piece \<Rightarrow> octets" where
  "piece_text (Plain p) = p"
| "piece_text (Ref m n) = (case m of Some c \<Rightarrow> [c] | None \<Rightarrow> []) @ VARIABLE_CHAR # n"

definition is_modifier :: "char \<Rightarrow> bool" where
  "is_modifier c \<longleftrightarrow> c = SUB_NEGATE \<or> c = SUB_POISON"

fun piece_ok :: "piece \<Rightarrow> bool" where
  "piece_ok (Plain p) \<longleftrightarrow> p \<noteq> [] \<and> VARIABLE_CHAR \<notin> set p \<and> \<not> is_modifier (last p)"
| "piece_ok (Ref m n) \<longleftrightarrow> list_all c_isalnum n \<and> length n \<le> 32 \<and> (\<forall>c. m = Some c \<longrightarrow> is_modifier c)"

fun pieces_ok :: "piece list \<Rightarrow> bool" where
  "pieces_ok [] = True"
| "pieces_ok (Plain p # ps) \<longleftrightarrow> piece_ok (Plain p) \<and> pieces_ok ps"
| "pieces_ok (Ref m n # ps) \<longleftrightarrow> piece_ok (Ref m n) \<and> pieces_ok ps \<and>
     (case ps of Plain p # _ \<Rightarrow> \<not> c_isalnum (hd p) | _ \<Rightarrow> True)"

fun join_comma :: "octets list \<Rightarrow> octets" where
  "join_comma [] = []"
| "join_comma [w] = w"
| "join_comma (w # ws) = w @ CHR '','' # join_comma ws"

text \<open>The value of a variable, with the modifier before each of its elements.\<close>

fun piece_value :: "SITEVARIABLES list \<Rightarrow> piece \<Rightarrow> octets" where
  "piece_value vs (Plain p) = p"
| "piece_value vs (Ref m n) =
     (case SITEfindvariable vs n of
        Some v \<Rightarrow> join_comma (map ((@) (case m of Some c \<Rightarrow> [c] | None \<Rightarrow> [])) (CommaSplit (v_Value v)))
      | None \<Rightarrow> piece_text (Ref m n))"

lemma join_split: "s = CHR '','' \<Longrightarrow> join_comma (map ((@) m) (split_on s p)) = m @ concat (map (\<lambda>q. if q = s then q # m else [q]) p)"
proof (induction s p rule: split_on.induct)
  case (2 s c p)
  obtain w ws where w: "split_on s p = w # ws" by (cases "split_on s p") auto
  show ?case using 2 w by (cases ws; cases "c = s") auto
qed simp

lemma piece_value_Some:
  "SITEfindvariable vs n = Some v \<Longrightarrow> piece_value vs (Ref m n) =
     (case m of Some c \<Rightarrow> [c] | None \<Rightarrow> []) @
     concat (map (\<lambda>q. if q = CHR '','' then q # (case m of Some c \<Rightarrow> [c] | None \<Rightarrow> []) else [q]) (v_Value v))"
  by (simp add: CommaSplit_def join_split)

text \<open>Text without a reference passes through, its last modifier pending.\<close>

definition pending_modifier :: "octets \<Rightarrow> char option" where
  "pending_modifier p = (if p \<noteq> [] \<and> is_modifier (last p) then Some (last p) else None)"

lemma fold_plain:
  assumes "VARIABLE_CHAR \<notin> set p" "p \<noteq> []" "varname e = []"
  shows "fold (copy_step vs) p (e, r) =
    (\<lparr>varname = [], modifier = pending_modifier p\<rparr>,
     r @ the_modifier e @ (if pending_modifier p = None then p else butlast p))"
  using assms
proof (induction p arbitrary: e r)
  case (Cons c p)
  have c: "c \<noteq> VARIABLE_CHAR" using Cons.prems(1) by auto
  define e1 where "e1 = \<lparr>varname = [], modifier = if is_modifier c then Some c else None\<rparr>"
  have step: "copy_step vs c (e, r) = (e1, r @ the_modifier e @ (if is_modifier c then [] else [c]))"
    using Cons.prems(3) c by (cases e) (simp add: copy_step_def is_modifier_def e1_def)
  show ?case
  proof (cases "p = []")
    case True
    then show ?thesis using step by (simp add: e1_def pending_modifier_def)
  next
    case False
    then have pend: "pending_modifier (c # p) = pending_modifier p" by (simp add: pending_modifier_def)
    have "fold (copy_step vs) p (e1, r @ the_modifier e @ (if is_modifier c then [] else [c])) =
      (\<lparr>varname = [], modifier = pending_modifier p\<rparr>,
       (r @ the_modifier e @ (if is_modifier c then [] else [c])) @ the_modifier e1 @
        (if pending_modifier p = None then p else butlast p))"
      using Cons.prems(1) False by (intro Cons.IH) (simp_all add: e1_def)
    then show ?thesis using step False by (simp add: pend e1_def the_modifier_def)
  qed
qed simp

lemma fold_name:
  assumes "list_all c_isalnum n" "varname e \<noteq> []" "length (varname e) + length n \<le> 33"
  shows "fold (copy_step vs) n (e, r) = (e\<lparr>varname := varname e @ n\<rparr>, r)"
  using assms
proof (induction n arbitrary: e)
  case (Cons c n)
  have "copy_step vs c (e, r) = (e\<lparr>varname := varname e @ [c]\<rparr>, r)" using Cons.prems by (simp add: copy_step_def)
  then show ?case using Cons.IH [of "e\<lparr>varname := varname e @ [c]\<rparr>"] Cons.prems by simp
qed simp

text \<open>The octet behind a reference writes the value, and is then dealt with as usual.\<close>

lemma reference_ends:
  assumes "\<not> c_isalnum c"
  shows "copy_step vs c (\<lparr>varname = VARIABLE_CHAR # n, modifier = m\<rparr>, r) =
    copy_step vs c (start_expansion, r @ piece_value vs (Ref m n))"
proof (cases "SITEfindvariable vs n")
  case None
  then show ?thesis using assms by (simp add: copy_step_def start_expansion_def the_modifier_def split: option.split)
next
  case (Some v)
  have tm: "the_modifier \<lparr>varname = w, modifier = m\<rparr> = (case m of Some c \<Rightarrow> [c] | None \<Rightarrow> [])" for w m
    by (simp add: the_modifier_def)
  show ?thesis using assms Some unfolding piece_value_Some [OF Some]
    by (simp add: copy_step_def start_expansion_def) (simp only: tm append_assoc simp_thms)
qed

lemma fold_reference:
  assumes "piece_ok (Ref m n)" "\<not> c_isalnum c"
  shows "fold (copy_step vs) (piece_text (Ref m n) @ c # p) (start_expansion, r) =
    fold (copy_step vs) (c # p) (start_expansion, r @ piece_value vs (Ref m n))"
proof -
  have 1: "fold (copy_step vs) ((case m of Some c \<Rightarrow> [c] | None \<Rightarrow> []) @ [VARIABLE_CHAR]) (start_expansion, r) =
      (\<lparr>varname = [VARIABLE_CHAR], modifier = m\<rparr>, r)"
    using assms(1)
    by (auto simp: copy_step_def start_expansion_def the_modifier_def is_modifier_def VARIABLE_CHAR_def SUB_NEGATE_def
        SUB_POISON_def split: option.split)
  have 2: "fold (copy_step vs) n (\<lparr>varname = [VARIABLE_CHAR], modifier = m\<rparr>, r) =
      (\<lparr>varname = VARIABLE_CHAR # n, modifier = m\<rparr>, r)"
    using assms(1) fold_name [of n "\<lparr>varname = [VARIABLE_CHAR], modifier = m\<rparr>" vs r] by simp
  have "piece_text (Ref m n) @ c # p = ((case m of Some c \<Rightarrow> [c] | None \<Rightarrow> []) @ [VARIABLE_CHAR]) @ n @ c # p"
    by simp
  then have "fold (copy_step vs) (piece_text (Ref m n) @ c # p) (start_expansion, r) =
      fold (copy_step vs) (n @ c # p) (fold (copy_step vs) ((case m of Some c \<Rightarrow> [c] | None \<Rightarrow> []) @ [VARIABLE_CHAR]) (start_expansion, r))"
    by (simp only: fold_append o_apply)
  also have "\<dots> = fold (copy_step vs) (c # p) (\<lparr>varname = VARIABLE_CHAR # n, modifier = m\<rparr>, r)"
    by (subst 1) (simp only: fold_append o_apply 2)
  finally show ?thesis by (simp only: fold_Cons o_apply reference_ends [OF assms(2)])
qed

lemma not_alnum: "\<not> c_isalnum NUL" "\<not> c_isalnum VARIABLE_CHAR" "is_modifier c \<Longrightarrow> \<not> c_isalnum c"
proof -
  show "\<not> c_isalnum NUL" "\<not> c_isalnum VARIABLE_CHAR" by code_simp+
  have "\<not> c_isalnum SUB_NEGATE" "\<not> c_isalnum SUB_POISON" by code_simp+
  then show "is_modifier c \<Longrightarrow> \<not> c_isalnum c" by (auto simp: is_modifier_def)
qed

lemma fold_pieces:
  assumes "pieces_ok ps"
  shows "fold (copy_step vs) (concat (map piece_text ps) @ [NUL]) (start_expansion, r) =
    (start_expansion, r @ concat (map (piece_value vs) ps) @ [NUL])"
  using assms
proof (induction ps arbitrary: r rule: pieces_ok.induct)
  case 1
  show ?case by (simp add: copy_step_def start_expansion_def the_modifier_def VARIABLE_CHAR_def SUB_NEGATE_def SUB_POISON_def)
next
  case (2 p ps)
  then have "fold (copy_step vs) p (start_expansion, r) = (start_expansion, r @ p)"
    using fold_plain [of p start_expansion vs r] by (simp add: pending_modifier_def start_expansion_def the_modifier_def)
  then show ?case using 2 by simp
next
  case (3 m n ps)
  obtain c t where t: "concat (map piece_text ps) @ [NUL] = c # t" "\<not> c_isalnum c"
  proof (cases ps)
    case Nil
    then show ?thesis using that not_alnum(1) by simp
  next
    case (Cons q qs)
    show ?thesis
    proof (cases q)
      case (Plain p)
      then show ?thesis using that 3(2) Cons by (cases p) auto
    next
      case (Ref m' n')
      then show ?thesis using that 3(2) Cons not_alnum(2,3) by (cases m') auto
    qed
  qed
  have "fold (copy_step vs) (concat (map piece_text (Ref m n # ps)) @ [NUL]) (start_expansion, r) =
      fold (copy_step vs) (piece_text (Ref m n) @ c # t) (start_expansion, r)" using t(1) by simp
  also have "\<dots> = fold (copy_step vs) (c # t) (start_expansion, r @ piece_value vs (Ref m n))"
    using 3(2) t(2) by (intro fold_reference) auto
  also have "\<dots> = (start_expansion, r @ concat (map (piece_value vs) (Ref m n # ps)) @ [NUL])"
    unfolding t(1) [symmetric] using 3 by simp
  finally show ?case .
qed

text \<open>
  C21: In an entry made of text and references the expansion puts, for each reference to a variable that is set, the
  elements of its value with the modifier before each of them, so that \<open>!$x\<close> negates all patterns of the variable;
  everything else stays as it is.
\<close>

theorem expansion_of_pieces:
  assumes "vs = fold (\<lambda>l vs. snd (snd (SITEaddvariable l vs))) ls []" "list_all (\<lambda>l. NUL \<notin> set l) ls"
    and "pieces_ok ps" "NUL \<notin> set (concat (map piece_text ps))"
  shows "SITEexpandvariables vs (concat (map piece_text ps)) = concat (map (piece_value vs) ps)"
proof -
  have ok: "vars_ok vs" unfolding assms(1) by (rule vars_ok_fold [OF assms(2)]) simp
  have val: "NUL \<notin> set (piece_value vs p)" if "p \<in> set ps" for p
  proof (cases p)
    case (Plain t)
    then show ?thesis using assms(4) that by auto
  next
    case (Ref m n)
    have t: "NUL \<notin> set (piece_text (Ref m n))" using assms(4) that Ref by (auto dest: bspec)
    show ?thesis
    proof (cases "SITEfindvariable vs n")
      case None
      then show ?thesis using t Ref by simp
    next
      case (Some v)
      then have "v \<in> set vs" by (auto simp: SITEfindvariable_def find_Some_iff)
      then have "NUL \<notin> set (v_Value v)" using ok by (auto simp: list_all_iff var_ok_def)
      then show ?thesis using t unfolding Ref piece_value_Some [OF Some] by (auto split: if_splits)
    qed
  qed
  have "expanded_octets vs (concat (map piece_text ps)) = (concat (map (piece_value vs) ps)) @ [NUL, NUL]"
    using fold_pieces [OF assms(3), of vs "[]"] by (simp add: expanded_octets_def)
  moreover have "takeWhile (\<lambda>c. c \<noteq> NUL) (concat (map (piece_value vs) ps) @ [NUL, NUL]) = concat (map (piece_value vs) ps)"
    using val by (auto simp: takeWhile_append)
  ultimately show ?thesis by (simp add: SITEexpandvariables_def)
qed

theorem expansion_of_pieces_witness:
  "SITEexpandvariables (fold (\<lambda>l vs. snd (snd (SITEaddvariable l vs))) [''$v=a, b'', ''$w=c''] []) ''x:!$v,$w:'' = ''x:!a,!b,c:''"
proof -
  let ?ps = "[Plain ''x:'', Ref (Some CHR ''!'') ''v'', Plain '','', Ref None ''w'', Plain '':'']"
  let ?vs = "fold (\<lambda>l vs. snd (snd (SITEaddvariable l vs))) [''$v=a, b'', ''$w=c''] []"
  have "list_all (\<lambda>l. NUL \<notin> set l) [''$v=a, b'', ''$w=c'']" "pieces_ok ?ps" by code_simp+
  moreover have "NUL \<notin> set (concat (map piece_text ?ps))" by code_simp
  ultimately have "SITEexpandvariables ?vs (concat (map piece_text ?ps)) = concat (map (piece_value ?vs) ?ps)"
    using expansion_of_pieces [OF refl] by blast
  moreover have "concat (map piece_text ?ps) = ''x:!$v,$w:''" by (simp add: VARIABLE_CHAR_def)
  moreover have "concat (map (piece_value ?vs) ?ps) = ''x:!a,!b,c:''" by code_simp
  ultimately show ?thesis by (simp only:)
qed

section \<open>The entries of a file\<close>

abbreviation count_LF :: "octets \<Rightarrow> nat" where "count_LF p \<equiv> length (filter (\<lambda>c. c = LF) p)"

text \<open>Reading a line takes at least one line feed of a text that ends in one.\<close>

lemma read_site_LF:
  assumes "p \<noteq> []" "last p = LF"
  shows "count_LF (snd (read_site dest p)) < count_LF p \<and>
    (snd (read_site dest p) \<noteq> [] \<longrightarrow> last (snd (read_site dest p)) = LF)"
  using assms
proof (induction dest p rule: read_site.induct)
  case (2 dest c p)
  show ?case
  proof (cases "c = LF")
    case True
    then show ?thesis using 2(4) by auto
  next
    case False
    then have p: "p \<noteq> []" "last p = LF" using 2(4) by (auto split: if_splits)
    show ?thesis
    proof (cases "c = CHR 0x5C \<and> deref p = LF")
      case True
      let ?d = "dropWhile c_isspace p"
      obtain p' where p': "p = LF # p'" using True p(1) by (cases p) auto
      have "c_isspace LF" by code_simp
      then have d: "?d = dropWhile c_isspace p'" by (simp add: p')
      have less: "count_LF ?d < count_LF p"
      proof -
        have "count_LF p' = count_LF (takeWhile c_isspace p') + count_LF ?d"
          unfolding d by (metis filter_append length_append takeWhile_dropWhile_id)
        then show ?thesis by (simp add: p')
      qed
      show ?thesis
      proof (cases "?d = []")
        case True2: True
        have "read_site dest [] = (dest, [])" by simp
        then show ?thesis using True False True2 less by (simp del: dropWhile_eq_Nil_conv)
      next
        case ne: False
        have "last ?d = LF" using ne p(2) by (metis append_is_Nil_conv last_appendR takeWhile_dropWhile_id)
        then have "count_LF (snd (read_site dest ?d)) < count_LF ?d \<and>
            (snd (read_site dest ?d) \<noteq> [] \<longrightarrow> last (snd (read_site dest ?d)) = LF)"
          using 2(1) True False ne by blast
        then show ?thesis using True False less by simp
      qed
    next
      case plain: False
      then have "count_LF (snd (read_site (dest @ [c]) p)) < count_LF p \<and>
          (snd (read_site (dest @ [c]) p) \<noteq> [] \<longrightarrow> last (snd (read_site (dest @ [c]) p)) = LF)"
        using 2(2) False p by blast
      then show ?thesis using False plain by auto
    qed
  qed
qed simp

lemma read_sites_LF: "p = [] \<or> last p = LF \<Longrightarrow> length (read_sites p vs) \<le> count_LF p"
proof (induction p vs rule: read_sites.induct)
  case (1 p vs)
  show ?case
  proof (cases "p = []")
    case True
    then show ?thesis by (simp add: read_sites.simps)
  next
    case False
    obtain site p' where s: "read_site [] p = (site, p')" by fastforce
    obtain entry vs' where l: "site_line site vs = (entry, vs')" by fastforce
    have r: "count_LF p' < count_LF p" "p' \<noteq> [] \<longrightarrow> last p' = LF" using read_site_LF [of p "[]"] False 1(2) s by auto
    then have "length (read_sites p' vs') \<le> count_LF p'" using 1(1) [OF False s [symmetric] refl l [symmetric] refl] by auto
    moreover have "length (read_sites p vs) \<le> 1 + length (read_sites p' vs')"
      using False s l by (subst read_sites.simps) (simp split: option.split)
    ultimately show ?thesis using r(1) by simp
  qed
qed

text \<open>
  The array of the entries is large enough for the entries and the \<open>NULL\<close> behind them, when the file is empty
  or ends in a line feed.
\<close>

theorem entries_fit:
  assumes "NUL \<notin> set file" "file = [] \<or> last file = LF"
  shows "length (SITEreadfile file) + 1 \<le> SITEfile_room file"
proof -
  have "takeWhile (\<lambda>c. c \<noteq> NUL) file = file" using assms(1) by (auto simp: takeWhile_eq_all_conv)
  then show ?thesis using read_sites_LF [OF assms(2)] by (simp only: SITEreadfile_def SITEfile_room_def add_le_cancel_right)
qed

theorem entries_fit_witness:
  "length (SITEreadfile (''ME:*::'' @ [LF] @ ''x:*::'' @ [LF])) + 1 \<le> SITEfile_room (''ME:*::'' @ [LF] @ ''x:*::'' @ [LF])"
proof (rule entries_fit)
  show "NUL \<notin> set (''ME:*::'' @ [LF] @ ''x:*::'' @ [LF])" by code_simp
qed simp

text \<open>A file whose last line has no line feed writes one pointer behind the array.\<close>

lemma entries_overflow:
  "length (SITEreadfile ''ME:*::'') + 1 = 2 \<and> SITEfile_room ''ME:*::'' = 1"
  by code_simp

end
