(* ===== verification/Newsfeeds.thy ===== *)
theory Newsfeeds
  imports Newsfeeds_Text Ng Uwildmat_Spec
begin

text \<open>
  The table of the sites that are fed (\<open>innd/newsfeeds.c\<close>, with \<open>SITEwantsgroup\<close>, \<open>SITEpoisongroup\<close>,
  \<open>SITEfind\<close> and \<open>SITEfree\<close> of \<open>innd/site.c\<close>): the parser of an entry, the subscriptions that it
  enters into the groups, the duplicate entries and the funnels. The theorems show that the table is in order for
  \<open>ARTpropagate\<close>, and that the groups list exactly the sites whose patterns want them.
\<close>

section \<open>State\<close>

record feedconf =
  pathoutgoing :: octets
  nicekids :: int

text \<open>What the sites want to be prepared of every article.\<close>

record needs =
  NeedHeaders :: bool
  NeedOverview :: bool
  NeedPath :: bool
  NeedStoredGroup :: bool
  NeedReplicdata :: bool

text \<open>\<open>me_found\<close> says that \<open>ME.Prev\<close> is \<open>NOSITE\<close>: the entry of the server itself has been parsed.\<close>

record feeds =
  Sites :: "SITE list"
  ME :: SITE
  me_found :: bool
  Table :: ngtable
  Needs :: needs

definition NF_FIELD_SEP :: char where "NF_FIELD_SEP = CHR '':''"
definition NF_SUBFIELD_SEP :: char where "NF_SUBFIELD_SEP = CHR ''/''"
definition FEED_MAXFLAGS :: nat where "FEED_MAXFLAGS = 20"
definition SITE_BUFFER_SIZE :: nat where "SITE_BUFFER_SIZE = 16 * 1024"

section \<open>Subscriptions\<close>

text \<open>A pattern is wanted, unwanted (\<open>!\<close>) or poison (\<open>@\<close>).\<close>

definition subvalue :: "octets \<Rightarrow> bool" where
  "subvalue pat \<longleftrightarrow> deref pat \<noteq> SUB_NEGATE \<and> deref pat \<noteq> SUB_POISON"

definition poisonvalue :: "octets \<Rightarrow> bool" where
  "poisonvalue pat \<longleftrightarrow> deref pat = SUB_POISON"

definition bare :: "octets \<Rightarrow> octets" where
  "bare pat = (if subvalue pat then pat else tl pat)"

definition wants_step :: "octets \<Rightarrow> octets \<Rightarrow> bool \<Rightarrow> bool" where
  "wants_step name pat match = (if match \<noteq> subvalue pat \<and> wild name (bare pat) then subvalue pat else match)"

definition SITEwantsgroup :: "SITE \<Rightarrow> SITE \<Rightarrow> octets \<Rightarrow> bool" where
  "SITEwantsgroup me sp name = fold (wants_step name) (Patterns sp) (fold (wants_step name) (Patterns me) False)"

definition poison_step :: "octets \<Rightarrow> octets \<Rightarrow> bool \<Rightarrow> bool" where
  "poison_step name pat match = (if wild name (bare pat) then poisonvalue pat else match)"

definition SITEpoisongroup :: "SITE \<Rightarrow> SITE \<Rightarrow> octets \<Rightarrow> bool" where
  "SITEpoisongroup me sp name = fold (poison_step name) (Patterns sp) (fold (poison_step name) (Patterns me) False)"

text \<open>The arrays \<open>subbed\<close> and \<open>poison\<close> have a place for each group.\<close>

definition simple_pattern :: "octets \<Rightarrow> bool" where
  "simple_pattern pat \<longleftrightarrow> list_all (\<lambda>c. c \<noteq> CHR ''?'' \<and> c \<noteq> CHR ''*'' \<and> c \<noteq> CHR ''['') pat"

definition setlist_step :: "ngtable \<Rightarrow> octets \<Rightarrow> bool list \<times> bool list \<times> bool \<Rightarrow> bool list \<times> bool list \<times> bool" where
  "setlist_step st pat s =
     (case s of (subbed, poison, entry) \<Rightarrow>
      if bare pat = [] then s
      else
        let entry = (entry \<or> poisonvalue pat) in
        if simple_pattern (bare pat) then
          (case NGfind st (bare pat) of
             Some i \<Rightarrow> (subbed[i := subvalue pat], poison[i := poisonvalue pat], entry)
           | None \<Rightarrow> (subbed, poison, entry))
        else
          let hit = (\<lambda>i. wild (ng_Name (Groups st ! i)) (bare pat)) in
          (map (\<lambda>i. if hit i then subvalue pat else subbed ! i) [0..<length (Groups st)],
           map (\<lambda>i. if hit i then poisonvalue pat else poison ! i) [0..<length (Groups st)], entry))"

definition SITEsetlist :: "ngtable \<Rightarrow> octets list \<Rightarrow> bool list \<times> bool list \<times> bool \<Rightarrow> bool list \<times> bool list \<times> bool" where
  "SITEsetlist st patlist s = fold (setlist_step st) patlist s"

section \<open>Finding and freeing sites\<close>

definition SITEfind_from :: "nat \<Rightarrow> SITE list \<Rightarrow> octets \<Rightarrow> nat option" where
  "SITEfind_from k sites p = find (\<lambda>i. \<not> Freed (sites ! i) \<and> strcasecmp p (Name (sites ! i)) = 0) [k..<length sites]"

definition SITEfind :: "SITE list \<Rightarrow> octets \<Rightarrow> nat option" where
  "SITEfind sites p = SITEfind_from 0 sites p"

definition SITEfindnext :: "SITE list \<Rightarrow> octets \<Rightarrow> nat \<Rightarrow> nat option" where
  "SITEfindnext sites p i = SITEfind_from (i + 1) sites p"

text \<open>The slaves of a site that goes: the first becomes the master of the others.\<close>

definition reelect :: "nat \<Rightarrow> nat \<Rightarrow> SITE list \<times> nat option \<Rightarrow> SITE list \<times> nat option" where
  "reelect i j s =
     (case s of (sites, new) \<Rightarrow>
      if Master (sites ! j) = Some i then
        (case new of
           None \<Rightarrow> (sites[j := (sites ! j)\<lparr>Master := None, IsMaster := True\<rparr>], Some j)
         | Some m \<Rightarrow> (sites[j := (sites ! j)\<lparr>Master := Some m\<rparr>], new))
      else s)"

definition SITEfree :: "nat \<Rightarrow> SITE list \<Rightarrow> SITE list" where
  "SITEfree i sites =
     (let sites = sites[i := (sites ! i)\<lparr>Name := [], Freed := True, Originator := None, Param := [], SpoolName := [],
            Patterns := [], Exclusions := None, Distributions := None, FNLnames := [], HashFeedList := []\<rparr>] in
      if IsMaster (sites ! i) then
        let sites = fst (fold (reelect i) [0..<length sites] (sites, None)) in
        sites[i := (sites ! i)\<lparr>IsMaster := False\<rparr>]
      else sites)"

section \<open>The flags\<close>

record flagstate =
  fl_site :: SITE
  fl_needs :: needs
  JustModerated :: bool
  JustUnmoderated :: bool

definition starts_digit :: "octets \<Rightarrow> bool" where
  "starts_digit p \<longleftrightarrow> c_isdigit (deref p)"

definition A_flag :: "char \<Rightarrow> SITE \<Rightarrow> octets + SITE" where
  "A_flag c sp =
     (if c = CHR ''c'' then Inr (sp\<lparr>IgnoreControl := True, ControlOnly := False\<rparr>)
      else if c = CHR ''C'' then Inr (sp\<lparr>ControlOnly := True, IgnoreControl := False\<rparr>)
      else if c = CHR ''d'' then Inr (sp\<lparr>DistRequired := True\<rparr>)
      else if c = CHR ''e'' then Inr (sp\<lparr>DontWantNonExist := True\<rparr>)
      else if c = CHR ''f'' then Inr (sp\<lparr>DropFiltered := True\<rparr>)
      else if c = CHR ''j'' then Inr (sp\<lparr>FeedTrash := True\<rparr>)
      else if c = CHR ''o'' then Inr (sp\<lparr>NeedOverviewCreation := True\<rparr>)
      else if c = CHR ''O'' then Inr (sp\<lparr>FeedwithoutOriginator := True\<rparr>)
      else if c = CHR ''p'' then Inr (sp\<lparr>IgnorePath := True\<rparr>)
      else Inl ''unknown A param in field 3'')"

fun A_flags :: "octets \<Rightarrow> SITE \<Rightarrow> octets + SITE" where
  "A_flags [] sp = Inr sp"
| "A_flags (c # p) sp = (case A_flag c sp of Inl e \<Rightarrow> Inl e | Inr sp \<Rightarrow> A_flags p sp)"

definition N_flag :: "char \<Rightarrow> bool \<times> bool \<Rightarrow> octets + bool \<times> bool" where
  "N_flag c s =
     (if c = CHR ''m'' then Inr (True, snd s)
      else if c = CHR ''u'' then Inr (fst s, True)
      else Inl ''unknown N param in field 3'')"

fun N_flags :: "octets \<Rightarrow> bool \<times> bool \<Rightarrow> octets + bool \<times> bool" where
  "N_flags [] s = Inr s"
| "N_flags (c # p) s = (case N_flag c s of Inl e \<Rightarrow> Inl e | Inr s \<Rightarrow> N_flags p s)"

definition W_flag :: "char \<Rightarrow> SITE \<times> needs \<Rightarrow> octets + SITE \<times> needs" where
  "W_flag c s =
     (case s of (sp, nd) \<Rightarrow>
      if c = CHR ''*'' then Inr (sp\<lparr>FNLwantsnames := True\<rparr>, nd)
      else if c = CHR ''H'' then Inr (sp, nd\<lparr>NeedHeaders := True\<rparr>)
      else if c = CHR ''O'' then Inr (sp, nd\<lparr>NeedOverview := True\<rparr>)
      else if c = CHR ''P'' then Inr (sp, nd\<lparr>NeedPath := True\<rparr>)
      else if c \<in> set ''bfhDG'' then Inr (sp, nd\<lparr>NeedStoredGroup := True\<rparr>)
      else if c \<in> set ''NmngR'' then Inr (sp, nd\<lparr>NeedReplicdata := True\<rparr>)
      else if c \<in> set ''stpe'' then Inr (sp, nd)
      else Inl ''unknown W param in field 3'')"

text \<open>\<open>flags\<close> are those already stored in \<open>FileFlags\<close>.\<close>

fun W_flags :: "octets \<Rightarrow> octets \<Rightarrow> SITE \<times> needs \<Rightarrow> octets + SITE \<times> needs" where
  "W_flags flags [] s = Inr ((fst s)\<lparr>FileFlags := flags\<rparr>, snd s)"
| "W_flags flags (c # p) s =
     (if FEED_MAXFLAGS \<le> length flags then Inl ''too many W param values''
      else case W_flag c s of Inl e \<Rightarrow> Inl e | Inr s \<Rightarrow> W_flags (flags @ [c]) p s)"

text \<open>
  The conversion \<open>%u\<close> of \<open>sscanf\<close>: white space, a sign, digits; the value is that of \<open>strtoul\<close>, cut to
  32 bits.
\<close>

definition scan_u :: "octets \<Rightarrow> (nat \<times> octets) option" where
  "scan_u s =
     (let s = dropWhile c_isspace s;
          neg = (deref s = CHR ''-'');
          s = (if neg \<or> deref s = CHR ''+'' then tl s else s);
          ds = takeWhile c_isdigit s; n = dec_value ds;
          v = (if 2 ^ 64 \<le> n then 2 ^ 64 - 1 else if neg then (2 ^ 64 - n) mod 2 ^ 64 else n) in
      if ds = [] then None else Some (v mod 2 ^ 32, drop (length ds) s))"

text \<open>\<open>%u/%u\<close> with both values converted, and \<open>%u-%u/%u\<close> with all three.\<close>

definition scan_two :: "octets \<Rightarrow> (nat \<times> nat) option" where
  "scan_two p =
     do { (b, p) \<leftarrow> scan_u p; if deref p \<noteq> CHR ''/'' then None else do { (m, p) \<leftarrow> scan_u (tl p); Some (b, m) } }"

definition scan_three :: "octets \<Rightarrow> (nat \<times> nat \<times> nat) option" where
  "scan_three p =
     do { (b, p) \<leftarrow> scan_u p;
          if deref p \<noteq> CHR ''-'' then None
          else do { (e, p) \<leftarrow> scan_u (tl p);
                    if deref p \<noteq> CHR ''/'' then None else do { (m, p) \<leftarrow> scan_u (tl p); Some (b, e, m) } } }"

definition Q_flag :: "octets \<Rightarrow> octets + HASHFEEDLIST" where
  "Q_flag p =
     (let qh = (deref p = CHR ''@''); p = (if qh then tl p else p);
          kind = (if qh then HASHFEED_QH else HASHFEED_MD5);
          offset = (if CHR ''_'' \<in> set p then map_option fst (scan_u (tl (dropWhile (\<lambda>c. c \<noteq> CHR ''_'') p))) else Some 0) in
      case offset of
        None \<Rightarrow> Inl ''invalid hash offset for Q param in field 3''
      | Some k \<Rightarrow>
          if 12 < k then Inl ''invalid hash offset for Q param in field 3''
          else
            (case (case scan_two p of Some (b, m) \<Rightarrow> Some (b, b, m) | None \<Rightarrow> scan_three p) of
               None \<Rightarrow> Inl ''hash not in x/z or x-y/z format for Q param in field 3''
             | Some (b, e, m) \<Rightarrow>
                 if e < b \<or> m < e then Inl ''incorrect hash values for Q param in field 3''
                 else Inr \<lparr>hf_type = kind, hf_begin = b, hf_end = e, hf_mod = m, hf_offset = k\<rparr>))"

definition T_flag :: "char \<Rightarrow> FEEDTYPE option" where
  "T_flag c =
     (if c = CHR ''c'' then Some FTchannel else if c = CHR ''l'' then Some FTlogonly
      else if c = CHR ''f'' then Some FTfile else if c = CHR ''m'' then Some FTfunnel
      else if c = CHR ''p'' then Some FTprogram else if c = CHR ''x'' then Some FTexploder else None)"

definition concatpath :: "octets \<Rightarrow> octets \<Rightarrow> octets" where
  "concatpath base name =
     (if deref name = CHR ''/'' \<or> deref name = CHR ''.'' \<and> deref (tl name) = CHR ''/'' then name
      else base @ CHR ''/'' # name)"

definition strtoul :: "octets \<Rightarrow> nat" where
  "strtoul p = min (2 ^ 64 - 1) (dec_value (takeWhile c_isdigit p))"

text \<open>One flag, \<open>c\<close> its letter, \<open>p\<close> what follows.\<close>

definition set_site :: "flagstate \<Rightarrow> SITE \<Rightarrow> octets + flagstate" where
  "set_site fl sp = Inr (fl\<lparr>fl_site := sp\<rparr>)"

definition field3_flag :: "feedconf \<Rightarrow> char \<Rightarrow> octets \<Rightarrow> flagstate \<Rightarrow> octets + flagstate" where
  "field3_flag conf c p fl =
     (let sp = fl_site fl; number = (\<lambda>d. if starts_digit p then atoi p else d) in
      if c = CHR ''<'' then set_site fl (if starts_digit p then sp\<lparr>MaxSize := atol p\<rparr> else sp)
      else if c = CHR ''>'' then set_site fl (if starts_digit p then sp\<lparr>MinSize := atol p\<rparr> else sp)
      else if c = CHR ''A'' then (case A_flags p sp of Inl e \<Rightarrow> Inl e | Inr sp \<Rightarrow> set_site fl sp)
      else if c = CHR ''B'' then
        set_site fl
          (if starts_digit p then
             let sp = sp\<lparr>StartWriting := atoi p\<rparr>; q = tl (dropWhile (\<lambda>c. c \<noteq> NF_SUBFIELD_SEP) p) in
             if NF_SUBFIELD_SEP \<in> set p \<and> starts_digit q then sp\<lparr>StopWriting := atoi q\<rparr> else sp
           else sp)
      else if c = CHR ''C'' then set_site fl (sp\<lparr>MaxCrosscount := number 2\<rparr>)
      else if c = CHR ''F'' then
        (if p = [] then Inl ''missing file name for F param in field 3''
         else set_site fl (sp\<lparr>SpoolName := concatpath (pathoutgoing conf) p\<rparr>))
      else if c = CHR ''G'' then set_site fl (sp\<lparr>MaxGroupcount := number 1\<rparr>)
      else if c = CHR ''H'' then set_site fl (sp\<lparr>Hops := number 1\<rparr>)
      else if c = CHR ''I'' then set_site fl (if starts_digit p then sp\<lparr>Flushpoint := strtoul p\<rparr> else sp)
      else if c = CHR ''N'' then
        (case N_flags p (JustModerated fl, JustUnmoderated fl) of
           Inl e \<Rightarrow> Inl e
         | Inr (m, u) \<Rightarrow> Inr (fl\<lparr>JustModerated := m, JustUnmoderated := u\<rparr>))
      else if c = CHR ''O'' then
        (if p = [] then Inl ''missing originator name for O param in field 3''
         else set_site fl (sp\<lparr>Originator := Some (SlashSplit p)\<rparr>))
      else if c = CHR ''P'' then set_site fl (if starts_digit p then sp\<lparr>Nice := atoi p\<rparr> else sp)
      else if c = CHR ''Q'' then
        (case Q_flag p of Inl e \<Rightarrow> Inl e | Inr hf \<Rightarrow> set_site fl (sp\<lparr>HashFeedList := hf # HashFeedList sp\<rparr>))
      else if c = CHR ''S'' then set_site fl (if starts_digit p then sp\<lparr>StartSpooling := atol p\<rparr> else sp)
      else if c = CHR ''T'' then
        (case T_flag (deref p) of None \<Rightarrow> Inl ''unknown T param in field 3'' | Some t \<Rightarrow> set_site fl (sp\<lparr>Type := t\<rparr>))
      else if c = CHR ''U'' then set_site fl (sp\<lparr>MaxFollowcount := number 1\<rparr>)
      else if c = CHR ''W'' then
        (case W_flags [] p (sp, fl_needs fl) of
           Inl e \<Rightarrow> Inl e
         | Inr (sp, nd) \<Rightarrow> Inr (fl\<lparr>fl_site := sp, fl_needs := nd\<rparr>))
      else Inl ''unknown field 3 flag'')"

fun field3_flags :: "feedconf \<Rightarrow> octets list \<Rightarrow> flagstate \<Rightarrow> octets + flagstate" where
  "field3_flags conf [] fl = Inr fl"
| "field3_flags conf ([] # argv) fl = field3_flags conf argv fl"
| "field3_flags conf ((c # p) # argv) fl =
     (case field3_flag conf c p fl of Inl e \<Rightarrow> Inl e | Inr fl \<Rightarrow> field3_flags conf argv fl)"

section \<open>One entry\<close>

text \<open>
  The parameter of a program has one \<open>%s\<close>: the error, if any. \<open>seen\<close> says that there was one before.
\<close>

function program_param :: "octets \<Rightarrow> bool \<Rightarrow> octets option" where
  "program_param f2 seen =
     (case dropWhile (\<lambda>c. c \<noteq> CHR ''%'') f2 of
        [] \<Rightarrow> None
      | _ # p \<Rightarrow>
          if deref p = CHR ''%'' then program_param (tl p) seen
          else if seen then Some ''bad (extra) sprintf format for field 4''
          else
            let p = dropWhile (\<lambda>c. c \<noteq> CHR ''*'' \<and> \<not> c_isalpha c) p in
            if deref p \<noteq> CHR ''s'' then Some ''bad sprintf format for field 4''
            else program_param (tl p) True)"
  by pat_completeness auto
termination
proof (relation "measure (\<lambda>(f2, seen). length f2)", goal_cases)
  case (2 f2 seen x p)
  then show ?case using length_dropWhile_le [of "\<lambda>c. c \<noteq> CHR ''%''" f2] by simp
next
  case (3 f2 seen x p q)
  have "length (x # p) \<le> length f2" using 3(1) length_dropWhile_le by metis
  moreover have "length q \<le> length p" using 3(4) by (simp add: length_dropWhile_le)
  ultimately show ?case by simp
qed simp

declare program_param.simps [simp del]

definition one_star :: "octets \<Rightarrow> bool" where
  "one_star p \<longleftrightarrow> length (filter (\<lambda>c. c = CHR ''*'') p) = 1"

text \<open>A site in the list of a group: in a place that is free, or behind the others.\<close>

definition add_index :: "nat \<Rightarrow> int list \<Rightarrow> int list" where
  "add_index i xs =
     (case find (\<lambda>j. xs ! j = - 1) [0..<length xs] of
        Some j \<Rightarrow> xs[j := int i]
      | None \<Rightarrow> xs @ [int i])"

definition subscribe :: "nat \<Rightarrow> bool list \<Rightarrow> bool list \<Rightarrow> ngtable \<Rightarrow> ngtable" where
  "subscribe i subbed poison st =
     st\<lparr>Groups := map (\<lambda>k. let g = Groups st ! k in
          g\<lparr>ng_Sites := (if subbed ! k then add_index i (ng_Sites g) else ng_Sites g),
            ng_Poison := (if poison ! k then add_index i (ng_Poison g) else ng_Poison g)\<rparr>) [0..<length (Groups st)]\<rparr>"

text \<open>
  A duplicate name: \<open>i\<close> is the place of the entry. What \<open>SITEfind\<close> finds is the first entry of the name, or its master.
\<close>

definition find_master :: "nat \<Rightarrow> SITE list \<Rightarrow> SITE list" where
  "find_master i sites =
     (let name = Name (sites ! i);
          nsp = (if SITEfind sites name = Some i then SITEfindnext sites name i else SITEfind sites name) in
      case nsp of
        None \<Rightarrow> sites
      | Some j \<Rightarrow>
          let j = (case Master (sites ! j) of Some m \<Rightarrow> m | None \<Rightarrow> j) in
          if j = i then sites
          else
            let sites = sites[i := (sites ! i)\<lparr>Master := Some j\<rparr>] in
            sites[j := (sites ! j)\<lparr>IsMaster := True\<rparr>])"

text \<open>
  The fields of an entry, up to the flags. \<open>is_me\<close> says that the entry is that of the server.
\<close>

definition is_moderated :: "ngtable \<Rightarrow> nat \<Rightarrow> bool" where
  "is_moderated st k \<longleftrightarrow> deref (drop (ng_Rest (Groups st ! k)) (Active st)) = NF_FLAG_MODERATED"

definition before :: "char \<Rightarrow> octets \<Rightarrow> octets" where
  "before c s = takeWhile (\<lambda>x. x \<noteq> c) s"

definition after :: "char \<Rightarrow> octets \<Rightarrow> octets" where
  "after c s = tl (dropWhile (\<lambda>x. x \<noteq> c) s)"

text \<open>The list behind the slash of a field; there is none when nothing stands there.\<close>

definition subfield :: "octets \<Rightarrow> octets list option" where
  "subfield f = (if after NF_SUBFIELD_SEP f = [] then None else Some (CommaSplit (after NF_SUBFIELD_SEP f)))"

definition field4 :: "feedconf \<Rightarrow> bool \<Rightarrow> octets \<Rightarrow> SITE \<Rightarrow> octets + SITE" where
  "field4 conf is_me f4 sp =
     (if Flushpoint sp \<noteq> 0 \<and> Type sp \<noteq> FTfile then Inl ''I param with non-file feed''
      else
        let sp = (if Flushpoint sp = 0 \<and> Type sp = FTfile then sp\<lparr>Flushpoint := SITE_BUFFER_SIZE\<rparr> else sp) in
        if f4 = [] \<and> \<not> is_me \<and> Type sp \<noteq> FTfile \<and> Type sp \<noteq> FTlogonly then Inl ''empty field 4''
        else
          let sp = sp\<lparr>Param :=
                (if f4 = [] \<and> \<not> is_me then concatpath (pathoutgoing conf) (Name sp)
                 else if Type sp = FTfile \<and> deref f4 \<noteq> CHR ''/'' then concatpath (pathoutgoing conf) f4
                 else f4)\<rparr>;
              sp = (if SpoolName sp = [] then sp\<lparr>SpoolName := concatpath (pathoutgoing conf) (Name sp)\<rparr> else sp) in
          if Type sp = FTprogram then
            (case program_param (Param sp) False of
               Some e \<Rightarrow> Inl e
             | None \<Rightarrow>
                 if FNLwantsnames sp \<and> \<not> one_star (Param sp) then Inl ''multiple or no *'s in field 4''
                 else Inr sp)
          else Inr sp)"

text \<open>The first two fields.\<close>

definition entry_start :: "feedconf \<Rightarrow> octets \<Rightarrow> SITE" where
  "entry_start conf entry =
     (let f1 = before NF_FIELD_SEP entry; f2 = before NF_FIELD_SEP (after NF_FIELD_SEP entry) in
      SITEnull\<lparr>Nice := nicekids conf, Name := before NF_SUBFIELD_SEP f1, Exclusions := subfield f1,
               Distributions := subfield f2, Patterns := CommaSplit (before NF_SUBFIELD_SEP f2)\<rparr>)"

text \<open>
  The subscriptions of the site \<open>sp\<close> for the server with the entry \<open>me\<close>, and what becomes of \<open>ME.PoisonEntry\<close> and of that
  of the site.
\<close>

definition read_subscriptions :: "bool \<Rightarrow> SITE \<Rightarrow> SITE \<Rightarrow> ngtable \<Rightarrow> bool list \<times> bool list \<times> bool \<times> bool" where
  "read_subscriptions is_me me sp st =
     (let n = length (Groups st);
          (subbed, poison, me_entry) = SITEsetlist st (Patterns (if is_me then sp else me))
            (replicate n False, replicate n False, if is_me then False else PoisonEntry me);
          (subbed, poison, own_entry) = SITEsetlist st (Patterns sp) (subbed, poison, if is_me then me_entry else False) in
      (subbed, poison, if is_me then own_entry else me_entry, own_entry))"

definition moderation :: "ngtable \<Rightarrow> flagstate \<Rightarrow> bool list \<Rightarrow> bool list" where
  "moderation st fl subbed =
     map (\<lambda>k. subbed ! k \<and> (JustModerated fl \<longrightarrow> is_moderated st k) \<and> (JustUnmoderated fl \<longrightarrow> \<not> is_moderated st k))
       [0..<length (Groups st)]"

definition parse_entry_fields ::
  "feedconf \<Rightarrow> octets \<Rightarrow> bool \<Rightarrow> SITE \<Rightarrow> ngtable \<Rightarrow> needs \<Rightarrow> octets + SITE \<times> bool list \<times> bool list \<times> bool \<times> needs" where
  "parse_entry_fields conf entry is_me me st nd =
     (let f2 = after NF_FIELD_SEP entry; f3 = after NF_FIELD_SEP f2; f4 = after NF_FIELD_SEP f3 in
      if NF_FIELD_SEP \<notin> set entry then Inl ''missing field 2''
      else if NF_FIELD_SEP \<notin> set f2 then Inl ''missing field 3''
      else
        let sp = entry_start conf entry;
            (subbed, poison, me_entry, own_entry) = read_subscriptions is_me me sp st in
        if NF_FIELD_SEP \<notin> set f3 then Inl ''missing field 4''
        else
          case field3_flags conf (CommaSplit (before NF_FIELD_SEP f3))
              \<lparr>fl_site = sp\<lparr>PoisonEntry := own_entry, Type := FTfile\<rparr>, fl_needs = nd, JustModerated = False,
               JustUnmoderated = False\<rparr> of
            Inl e \<Rightarrow> Inl e
          | Inr fl \<Rightarrow>
              (case field4 conf is_me f4 (fl_site fl) of
                 Inl e \<Rightarrow> Inl e
               | Inr sp \<Rightarrow> Inr (sp, moderation st fl subbed, poison, me_entry, fl_needs fl)))"

text \<open>
  \<open>SITEparseone\<close> with \<open>subbed\<close> and \<open>poison\<close>, for the server itself (\<open>None\<close>) or for the place \<open>i\<close>, which may
  be the next one of the table. After an error the callers give up, so the state is not kept.
\<close>

definition put_site :: "nat \<Rightarrow> SITE \<Rightarrow> SITE list \<Rightarrow> SITE list" where
  "put_site i sp sites = (if i < length sites then sites[i := sp] else sites @ [sp])"

definition SITEparseone :: "feedconf \<Rightarrow> octets \<Rightarrow> nat option \<Rightarrow> feeds \<Rightarrow> octets + feeds" where
  "SITEparseone conf entry place fd =
     (case parse_entry_fields conf entry (place = None) (ME fd) (Table fd) (Needs fd) of
        Inl e \<Rightarrow> Inl e
      | Inr (sp, subbed, poison, me_entry, nd) \<Rightarrow>
          (case place of
             None \<Rightarrow>
               (case SITEfind (Sites fd) (Name sp) of
                  None \<Rightarrow> Inr (fd\<lparr>ME := sp, me_found := True, Needs := nd\<rparr>)
                | Some j \<Rightarrow>
                    let j = (case Master (Sites fd ! j) of Some m \<Rightarrow> m | None \<Rightarrow> j) in
                    Inr (fd\<lparr>ME := sp\<lparr>Master := Some j\<rparr>, me_found := True, Needs := nd,
                            Sites := (Sites fd)[j := (Sites fd ! j)\<lparr>IsMaster := True\<rparr>]\<rparr>))
           | Some i \<Rightarrow>
               Inr (fd\<lparr>ME := (ME fd)\<lparr>PoisonEntry := me_entry\<rparr>, Needs := nd,
                       Table := subscribe i subbed poison (Table fd),
                       Sites := find_master i (put_site i sp (Sites fd))\<rparr>)))"

section \<open>The file\<close>

text \<open>
  \<open>SITEfunnelpatch\<close>: false when a funnel leads nowhere, or to a funnel; such a site is freed.
\<close>

definition funnelpatch_site :: "nat \<Rightarrow> SITE list \<times> bool \<Rightarrow> SITE list \<times> bool" where
  "funnelpatch_site i s =
     (case s of (sites, result) \<Rightarrow>
      if Freed (sites ! i) \<or> Type (sites ! i) \<noteq> FTfunnel then s
      else
        (case SITEfind sites (Param (sites ! i)) of
           None \<Rightarrow> (SITEfree i sites, False)
         | Some f \<Rightarrow>
             if Type (sites ! f) = FTfunnel then (SITEfree i sites, False)
             else (sites[i := (sites ! i)\<lparr>Funnel := Some f\<rparr>], result)))"

definition SITEfunnelpatch :: "SITE list \<Rightarrow> SITE list \<times> bool" where
  "SITEfunnelpatch sites = fold funnelpatch_site [0..<length sites] (sites, True)"

text \<open>
  The loop over the entries. \<open>starts\<close> stands for \<open>SITEsetup\<close>, which opens the file or starts the program of a
  site. The result is false after an error.
\<close>

definition is_me_entry :: "octets \<Rightarrow> bool" where
  "is_me_entry p \<longleftrightarrow> take 2 p = ''ME'' \<and> (deref (drop 2 p) = NF_FIELD_SEP \<or> deref (drop 2 p) = NF_SUBFIELD_SEP)"

fun parse_sites :: "feedconf \<Rightarrow> (SITE \<Rightarrow> bool) \<Rightarrow> octets list \<Rightarrow> feeds \<Rightarrow> bool \<times> feeds" where
  "parse_sites conf starts [] fd = (True, fd)"
| "parse_sites conf starts (p # ps) fd =
     (if is_me_entry p then
        (if me_found fd then (False, snd (parse_sites conf starts ps fd))
         else case SITEparseone conf p None fd of
           Inl e \<Rightarrow> (False, snd (parse_sites conf starts ps (fd\<lparr>me_found := True\<rparr>)))
         | Inr fd \<Rightarrow> parse_sites conf starts ps fd)
      else
        (case SITEparseone conf p (Some (length (Sites fd))) fd of
           Inl e \<Rightarrow> (False, snd (parse_sites conf starts ps fd))
         | Inr fd \<Rightarrow>
             if starts (last (Sites fd)) then parse_sites conf starts ps fd
             else (False, snd (parse_sites conf starts ps fd))))"

text \<open>\<open>SITEparsefile\<close> on the text of the file; \<open>None\<close> is the exit of the server.\<close>

definition SITEparsefile :: "feedconf \<Rightarrow> (SITE \<Rightarrow> bool) \<Rightarrow> octets \<Rightarrow> ngtable \<Rightarrow> feeds option" where
  "SITEparsefile conf starts file st =
     (let (ok, fd) = parse_sites conf starts (SITEreadfile file)
            \<lparr>Sites = [], ME = SITEnull, me_found = False, Table = st,
             Needs = \<lparr>NeedHeaders = False, NeedOverview = False, NeedPath = False, NeedStoredGroup = False,
                      NeedReplicdata = False\<rparr>\<rparr> in
      if \<not> ok \<or> \<not> me_found fd then None
      else let (sites, patched) = SITEfunnelpatch (Sites fd) in if patched then Some (fd\<lparr>Sites := sites\<rparr>) else None)"

section \<open>The table is in order\<close>

text \<open>What the flags do not touch.\<close>

definition kept :: "SITE \<Rightarrow> SITE \<Rightarrow> bool" where
  "kept sp sp' \<longleftrightarrow> Name sp' = Name sp \<and> Freed sp' = Freed sp \<and> Patterns sp' = Patterns sp \<and> PoisonEntry sp' = PoisonEntry sp \<and>
     Seenit sp' = Seenit sp \<and> Master sp' = Master sp \<and> Funnel sp' = Funnel sp"

lemma kept_refl [simp]: "kept sp sp"
  by (simp add: kept_def)

lemma kept_trans: "kept a b \<Longrightarrow> kept b c \<Longrightarrow> kept a c"
  by (simp add: kept_def)

lemma kept_update [simp]:
  "\<And>v. kept a (b\<lparr>Exclusions := v\<rparr>) = kept a b" "\<And>v. kept a (b\<lparr>Distributions := v\<rparr>) = kept a b"
  "\<And>v. kept a (b\<lparr>Poison := v\<rparr>) = kept a b" "\<And>v. kept a (b\<lparr>Sendit := v\<rparr>) = kept a b"
  "\<And>v. kept a (b\<lparr>IgnoreControl := v\<rparr>) = kept a b" "\<And>v. kept a (b\<lparr>DistRequired := v\<rparr>) = kept a b"
  "\<And>v. kept a (b\<lparr>IgnorePath := v\<rparr>) = kept a b" "\<And>v. kept a (b\<lparr>ControlOnly := v\<rparr>) = kept a b"
  "\<And>v. kept a (b\<lparr>DontWantNonExist := v\<rparr>) = kept a b" "\<And>v. kept a (b\<lparr>NeedOverviewCreation := v\<rparr>) = kept a b"
  "\<And>v. kept a (b\<lparr>FeedwithoutOriginator := v\<rparr>) = kept a b" "\<And>v. kept a (b\<lparr>DropFiltered := v\<rparr>) = kept a b"
  "\<And>v. kept a (b\<lparr>FeedTrash := v\<rparr>) = kept a b" "\<And>v. kept a (b\<lparr>Hops := v\<rparr>) = kept a b"
  "\<And>v. kept a (b\<lparr>MaxGroupcount := v\<rparr>) = kept a b" "\<And>v. kept a (b\<lparr>MaxFollowcount := v\<rparr>) = kept a b"
  "\<And>v. kept a (b\<lparr>MaxCrosscount := v\<rparr>) = kept a b" "\<And>v. kept a (b\<lparr>Type := v\<rparr>) = kept a b"
  "\<And>v. kept a (b\<lparr>ng := v\<rparr>) = kept a b" "\<And>v. kept a (b\<lparr>SpoolName := v\<rparr>) = kept a b"
  "\<And>v. kept a (b\<lparr>StartWriting := v\<rparr>) = kept a b" "\<And>v. kept a (b\<lparr>StopWriting := v\<rparr>) = kept a b"
  "\<And>v. kept a (b\<lparr>StartSpooling := v\<rparr>) = kept a b" "\<And>v. kept a (b\<lparr>Param := v\<rparr>) = kept a b"
  "\<And>v. kept a (b\<lparr>FileFlags := v\<rparr>) = kept a b" "\<And>v. kept a (b\<lparr>MaxSize := v\<rparr>) = kept a b"
  "\<And>v. kept a (b\<lparr>MinSize := v\<rparr>) = kept a b" "\<And>v. kept a (b\<lparr>Nice := v\<rparr>) = kept a b"
  "\<And>v. kept a (b\<lparr>IsMaster := v\<rparr>) = kept a b" "\<And>v. kept a (b\<lparr>FNLwantsnames := v\<rparr>) = kept a b"
  "\<And>v. kept a (b\<lparr>FNLnames := v\<rparr>) = kept a b" "\<And>v. kept a (b\<lparr>Flushpoint := v\<rparr>) = kept a b"
  "\<And>v. kept a (b\<lparr>Originator := v\<rparr>) = kept a b" "\<And>v. kept a (b\<lparr>HashFeedList := v\<rparr>) = kept a b"
  by (simp_all add: kept_def)

lemma A_flag_kept: "A_flag c sp = Inr sp' \<Longrightarrow> kept sp sp'"
  by (auto simp: A_flag_def split: if_splits)

lemma A_flags_kept: "A_flags p sp = Inr sp' \<Longrightarrow> kept sp sp'"
proof (induction p arbitrary: sp)
  case (Cons c p)
  then show ?case using A_flag_kept [of c sp] kept_trans by (fastforce split: sum.splits)
qed simp

lemma W_flag_kept: "W_flag c s = Inr s' \<Longrightarrow> kept (fst s) (fst s')"
  by (cases s) (auto simp: W_flag_def simp del: set_simps split: if_splits)

lemma W_flags_kept: "W_flags flags p s = Inr s' \<Longrightarrow> kept (fst s) (fst s')"
proof (induction flags p s rule: W_flags.induct)
  case (1 flags s)
  then show ?case by auto
next
  case (2 flags c p s)
  then show ?case using W_flag_kept [of c s] kept_trans by (fastforce split: sum.splits if_splits)
qed

text \<open>Only the letter \<open>N\<close> asks for the moderation of groups.\<close>

definition same_moderation :: "flagstate \<Rightarrow> flagstate \<Rightarrow> bool" where
  "same_moderation fl fl' \<longleftrightarrow> JustModerated fl' = JustModerated fl \<and> JustUnmoderated fl' = JustUnmoderated fl"

lemma field3_flag_kept:
  assumes "field3_flag conf c p fl = Inr fl'"
  shows "kept (fl_site fl) (fl_site fl') \<and> (c \<noteq> CHR ''N'' \<longrightarrow> same_moderation fl fl')"
proof -
  have set: "set_site fl sp = Inr fl' \<Longrightarrow> kept (fl_site fl) sp \<Longrightarrow> ?thesis" for sp by (auto simp: set_site_def same_moderation_def)
  consider "c = CHR ''A''" | "c = CHR ''N''" | "c = CHR ''W''" | "c = CHR ''Q''" | "c = CHR ''T''" | "c = CHR ''B''"
    | "c \<notin> set ''ANWQTB''" by auto
  then show ?thesis
  proof cases
    case 1
    then show ?thesis using assms set A_flags_kept by (auto simp: field3_flag_def split: sum.splits)
  next
    case 2
    then show ?thesis using assms by (auto simp: field3_flag_def split: sum.splits prod.splits)
  next
    case 3
    then show ?thesis using assms W_flags_kept [of "[]" p "(fl_site fl, fl_needs fl)"]
      by (auto simp: field3_flag_def same_moderation_def split: sum.splits prod.splits)
  next
    case 4
    then show ?thesis using assms set by (auto simp: field3_flag_def Let_def split: sum.splits)
  next
    case 5
    then show ?thesis using assms set by (auto simp: field3_flag_def split: option.splits)
  next
    case 6
    then have "\<exists>sp. set_site fl sp = Inr fl' \<and> kept (fl_site fl) sp" using assms
      unfolding field3_flag_def Let_def by (simp split del: if_split) (intro exI conjI, assumption, simp)
    then show ?thesis using set by blast
  next
    case 7
    then have "\<exists>sp. set_site fl sp = Inr fl' \<and> kept (fl_site fl) sp" using assms
      by (simp add: field3_flag_def Let_def split: if_split_asm) (intro exI conjI, assumption, simp)+
    then show ?thesis using set by blast
  qed
qed

lemma field3_flags_kept:
  assumes "field3_flags conf argv fl = Inr fl'"
  shows "kept (fl_site fl) (fl_site fl') \<and> (list_all (\<lambda>w. deref w \<noteq> CHR ''N'') argv \<longrightarrow> same_moderation fl fl')"
  using assms
proof (induction conf argv fl rule: field3_flags.induct)
  case (1 conf fl)
  then show ?case by (simp add: same_moderation_def)
next
  case (2 conf argv fl)
  then show ?case by simp
next
  case (3 conf c p argv fl)
  then obtain fl1 where 1: "field3_flag conf c p fl = Inr fl1" "field3_flags conf argv fl1 = Inr fl'"
    by (auto split: sum.splits)
  note ih = "3.IH" [OF 1]
  show ?case using field3_flag_kept [OF 1(1)] ih kept_trans by (auto simp: same_moderation_def)
qed

lemma field4_kept: "field4 conf is_me f4 sp = Inr sp' \<Longrightarrow> kept sp sp'"
  by (auto simp: field4_def Let_def split: if_splits option.splits)

text \<open>What a successful parse has gone through.\<close>

lemma entry_result:
  assumes "parse_entry_fields conf entry is_me me st nd = Inr (sp, subbed, poison, me_entry, nd')"
  shows "\<exists>s own_entry fl argv f4.
    read_subscriptions is_me me (entry_start conf entry) st = (s, poison, me_entry, own_entry) \<and>
    field3_flags conf argv \<lparr>fl_site = (entry_start conf entry)\<lparr>PoisonEntry := own_entry, Type := FTfile\<rparr>, fl_needs = nd,
      JustModerated = False, JustUnmoderated = False\<rparr> = Inr fl \<and>
    field4 conf is_me f4 (fl_site fl) = Inr sp \<and> subbed = moderation st fl s \<and> nd' = fl_needs fl"
  using assms unfolding parse_entry_fields_def Let_def
  by (auto split: if_split_asm sum.split_asm prod.split_asm)

lemma entry_fields:
  assumes "parse_entry_fields conf entry is_me me st nd = Inr (sp, subbed, poison, me_entry, nd')"
  shows "\<not> Freed sp \<and> \<not> Seenit sp \<and> Master sp = None \<and> Funnel sp = None \<and> Patterns sp = Patterns (entry_start conf entry)"
proof -
  obtain own_entry fl where "kept ((entry_start conf entry)\<lparr>PoisonEntry := own_entry, Type := FTfile\<rparr>) (fl_site fl)" "kept (fl_site fl) sp"
    using entry_result [OF assms] field3_flags_kept field4_kept by (metis flagstate.select_convs(1))
  moreover have "\<not> Freed (entry_start conf entry) \<and> \<not> Seenit (entry_start conf entry) \<and> Master (entry_start conf entry) = None \<and>
      Funnel (entry_start conf entry) = None" by (simp add: entry_start_def SITEnull_def Let_def)
  ultimately show ?thesis by (simp add: kept_def)
qed

text \<open>
  The table while it grows: no entry has been seen or leads to a funnel, and a master is before its slaves and has no
  master of its own.
\<close>

definition growing :: "SITE list \<Rightarrow> bool" where
  "growing sites \<longleftrightarrow>
     (\<forall>i<length sites. \<not> Freed (sites ! i) \<and> \<not> Seenit (sites ! i) \<and> Funnel (sites ! i) = None \<and>
        (\<forall>m. Master (sites ! i) = Some m \<longrightarrow> m < i \<and> Master (sites ! m) = None))"

lemma growing_cong:
  assumes "growing sites" "length sites' = length sites"
    and "\<And>i. i < length sites \<Longrightarrow> Freed (sites' ! i) = Freed (sites ! i) \<and> Seenit (sites' ! i) = Seenit (sites ! i) \<and>
      Funnel (sites' ! i) = Funnel (sites ! i) \<and> Master (sites' ! i) = Master (sites ! i)"
  shows "growing sites'"
  unfolding growing_def
proof (intro allI impI conjI)
  fix i m assume "i < length sites'"
  then have i: "i < length sites" using assms(2) by simp
  note g = assms(1) [unfolded growing_def, rule_format, OF i]
  show "\<not> Freed (sites' ! i)" "\<not> Seenit (sites' ! i)" "Funnel (sites' ! i) = None" using g assms(3) [OF i] by auto
  assume "Master (sites' ! i) = Some m"
  then have m: "m < i" "Master (sites ! m) = None" using g assms(3) [OF i] by auto
  show "m < i" by (rule m(1))
  show "Master (sites' ! m) = None" using m assms(3) [of m] i by simp
qed

lemma growing_master_flag:
  assumes "growing sites" "j < length sites"
  shows "growing (sites[j := (sites ! j)\<lparr>IsMaster := b\<rparr>])"
proof (rule growing_cong [OF assms(1)])
  fix i assume "i < length sites"
  then show "Freed (sites[j := (sites ! j)\<lparr>IsMaster := b\<rparr>] ! i) = Freed (sites ! i) \<and>
      Seenit (sites[j := (sites ! j)\<lparr>IsMaster := b\<rparr>] ! i) = Seenit (sites ! i) \<and>
      Funnel (sites[j := (sites ! j)\<lparr>IsMaster := b\<rparr>] ! i) = Funnel (sites ! i) \<and>
      Master (sites[j := (sites ! j)\<lparr>IsMaster := b\<rparr>] ! i) = Master (sites ! i)"
    by (cases "i = j") simp_all
qed simp

lemma growing_snoc:
  assumes "growing sites" "\<not> Freed sp" "\<not> Seenit sp" "Funnel sp = None"
    and "\<forall>m. Master sp = Some m \<longrightarrow> m < length sites \<and> Master (sites ! m) = None"
  shows "growing (sites @ [sp])"
  unfolding growing_def
proof (intro allI impI)
  fix i assume "i < length (sites @ [sp])"
  then consider "i < length sites" | "i = length sites" by fastforce
  then show "\<not> Freed ((sites @ [sp]) ! i) \<and> \<not> Seenit ((sites @ [sp]) ! i) \<and> Funnel ((sites @ [sp]) ! i) = None \<and>
      (\<forall>m. Master ((sites @ [sp]) ! i) = Some m \<longrightarrow> m < i \<and> Master ((sites @ [sp]) ! m) = None)"
  proof cases
    case 1
    then show ?thesis using assms(1) [unfolded growing_def, rule_format, OF 1] by (auto simp: nth_append)
  next
    case 2
    then show ?thesis using assms by (simp add: nth_append)
  qed
qed

lemma SITEfind_from_Some:
  assumes "SITEfind_from k sites p = Some i"
  shows "k \<le> i \<and> i < length sites \<and> \<not> Freed (sites ! i) \<and> strcasecmp p (Name (sites ! i)) = 0"
proof -
  obtain n where "n < length [k..<length sites]" "i = [k..<length sites] ! n"
    "\<not> Freed (sites ! i) \<and> strcasecmp p (Name (sites ! i)) = 0"
    using assms by (auto simp: SITEfind_from_def find_Some_iff)
  then show ?thesis by simp
qed

lemma find_master_growing:
  assumes "growing sites" "\<not> Freed sp" "\<not> Seenit sp" "Master sp = None" "Funnel sp = None"
  shows "growing (find_master (length sites) (sites @ [sp])) \<and> length (find_master (length sites) (sites @ [sp])) = length sites + 1"
proof -
  let ?s = "sites @ [sp]" let ?i = "length sites"
  have g: "growing ?s" using growing_snoc [OF assms(1,2,3,5)] assms(4) by simp
  have n: "SITEfindnext ?s (Name (?s ! ?i)) ?i = None" by (simp add: SITEfindnext_def SITEfind_from_def)
  show ?thesis
  proof (cases "SITEfind ?s (Name (?s ! ?i)) = Some ?i \<or> SITEfind ?s (Name (?s ! ?i)) = None")
    case True
    then have "find_master ?i ?s = ?s" using n by (auto simp: find_master_def)
    then show ?thesis using g by simp
  next
    case False
    then obtain j0 where j0: "SITEfind ?s (Name (?s ! ?i)) = Some j0" "j0 \<noteq> ?i" by auto
    then have j0l: "j0 < ?i" using SITEfind_from_Some [of 0 ?s "Name (?s ! ?i)" j0] by (simp add: SITEfind_def)
    define j where "j = (case Master (?s ! j0) of Some m \<Rightarrow> m | None \<Rightarrow> j0)"
    have "\<forall>m. Master (sites ! j0) = Some m \<longrightarrow> m < j0 \<and> Master (sites ! m) = None"
      using assms(1) j0l unfolding growing_def by blast
    then have j: "j < ?i" "Master (sites ! j) = None"
      using j0l by (auto simp: j_def nth_append split: option.split)
    let ?s1 = "sites @ [sp\<lparr>Master := Some j\<rparr>]"
    have g1: "growing ?s1" using growing_snoc [OF assms(1), of "sp\<lparr>Master := Some j\<rparr>"] assms j by simp
    have "find_master ?i ?s = ?s1[j := (?s1 ! j)\<lparr>IsMaster := True\<rparr>]"
      using j0 j by (simp add: find_master_def Let_def j_def [symmetric])
    moreover have "growing (?s1[j := (?s1 ! j)\<lparr>IsMaster := True\<rparr>])" using growing_master_flag [OF g1] j(1) by simp
    ultimately show ?thesis by simp
  qed
qed

lemma parseone_growing:
  assumes "growing (Sites fd)" "SITEparseone conf entry place fd = Inr fd'" "place = None \<or> place = Some (length (Sites fd))"
  shows "growing (Sites fd') \<and> length (Sites fd') = length (Sites fd) + (if place = None then 0 else 1)"
proof -
  obtain sp subbed poison me_entry nd where
    p: "parse_entry_fields conf entry (place = None) (ME fd) (Table fd) (Needs fd) = Inr (sp, subbed, poison, me_entry, nd)"
    using assms(2) by (auto simp: SITEparseone_def split: sum.splits)
  note sp = entry_fields [OF p]
  show ?thesis
  proof (cases place)
    case None
    show ?thesis
    proof (cases "SITEfind (Sites fd) (Name sp)")
      case None2: None
      then show ?thesis using assms(1,2) p None by (auto simp: SITEparseone_def)
    next
      case (Some j0)
      then have j0: "j0 < length (Sites fd)" using SITEfind_from_Some by (simp add: SITEfind_def)
      let ?j = "case Master (Sites fd ! j0) of Some m \<Rightarrow> m | None \<Rightarrow> j0"
      have "\<forall>m. Master (Sites fd ! j0) = Some m \<longrightarrow> m < j0" using assms(1) j0 unfolding growing_def by blast
      then have "?j < length (Sites fd)" using j0 by (auto split: option.split)
      then show ?thesis using growing_master_flag [OF assms(1)] assms(2) p None Some by (auto simp: SITEparseone_def Let_def)
    qed
  next
    case (Some i)
    then have i: "i = length (Sites fd)" using assms(3) by simp
    have "Sites fd' = find_master i (Sites fd @ [sp])" using assms(2) p Some i by (auto simp: SITEparseone_def put_site_def)
    then show ?thesis using find_master_growing [OF assms(1)] sp Some i by simp
  qed
qed

lemma parse_sites_growing: "growing (Sites fd) \<Longrightarrow> growing (Sites (snd (parse_sites conf starts ps fd)))"
proof (induction ps arbitrary: fd)
  case (Cons p ps)
  define place where "place = (if is_me_entry p then None else Some (length (Sites fd)))"
  show ?case
  proof (cases "SITEparseone conf p place fd")
    case (Inl e)
    then show ?thesis using Cons by (cases "is_me_entry p") (auto simp: place_def)
  next
    case (Inr fd')
    have "growing (Sites fd')" using parseone_growing [OF Cons.prems Inr] by (simp add: place_def)
    then show ?thesis using Inr Cons by (cases "is_me_entry p") (auto simp: place_def)
  qed
qed simp

text \<open>The funnels.\<close>

definition is_funnel :: "SITE \<Rightarrow> bool" where
  "is_funnel sp \<longleftrightarrow> \<not> Freed sp \<and> Type sp = FTfunnel"

definition patched :: "nat \<Rightarrow> SITE list \<Rightarrow> SITE list" where
  "patched k sites = map (\<lambda>i. if i < k \<and> is_funnel (sites ! i) then (sites ! i)\<lparr>Funnel := SITEfind sites (Param (sites ! i))\<rparr>
     else sites ! i) [0..<length sites]"

lemma patched_nth: "i < length sites \<Longrightarrow> patched k sites ! i =
    (if i < k \<and> is_funnel (sites ! i) then (sites ! i)\<lparr>Funnel := SITEfind sites (Param (sites ! i))\<rparr> else sites ! i)"
  "length (patched k sites) = length sites"
  by (simp_all add: patched_def)

lemma patched_sel:
  assumes "i < length sites"
  shows "Freed (patched k sites ! i) = Freed (sites ! i)" "Name (patched k sites ! i) = Name (sites ! i)"
    "Type (patched k sites ! i) = Type (sites ! i)" "Param (patched k sites ! i) = Param (sites ! i)"
    "Seenit (patched k sites ! i) = Seenit (sites ! i)" "Master (patched k sites ! i) = Master (sites ! i)"
  using assms by (simp_all add: patched_nth)

lemma SITEfind_patched: "SITEfind (patched k sites) p = SITEfind sites p"
proof -
  have "find (\<lambda>i. \<not> Freed (patched k sites ! i) \<and> strcasecmp p (Name (patched k sites ! i)) = 0) [0..<length sites] =
      find (\<lambda>i. \<not> Freed (sites ! i) \<and> strcasecmp p (Name (sites ! i)) = 0) [0..<length sites]"
    by (rule find_cong) (simp_all add: patched_sel)
  then show ?thesis by (simp add: SITEfind_def SITEfind_from_def patched_nth(2))
qed

lemma funnelpatch_patched:
  assumes "k \<le> length sites" "snd (fold funnelpatch_site [0..<k] (sites, True))"
  shows "fst (fold funnelpatch_site [0..<k] (sites, True)) = patched k sites \<and>
    (\<forall>i<k. is_funnel (sites ! i) \<longrightarrow> (\<exists>f. SITEfind sites (Param (sites ! i)) = Some f \<and> Type (sites ! f) \<noteq> FTfunnel))"
  using assms
proof (induction k)
  case 0
  have "patched 0 sites = sites" by (rule nth_equalityI) (simp_all add: patched_nth)
  then show ?case by simp
next
  case (Suc k)
  obtain ss r where s: "fold funnelpatch_site [0..<k] (sites, True) = (ss, r)" by fastforce
  have last: "fold funnelpatch_site [0..<Suc k] (sites, True) = funnelpatch_site k (ss, r)" using s by simp
  have "r" using Suc.prems(2) unfolding last by (auto simp: funnelpatch_site_def split: if_split_asm option.split_asm)
  then have ih: "ss = patched k sites"
    "\<forall>i<k. is_funnel (sites ! i) \<longrightarrow> (\<exists>f. SITEfind sites (Param (sites ! i)) = Some f \<and> Type (sites ! f) \<noteq> FTfunnel)"
    using Suc s by simp_all
  have k: "k < length sites" using Suc.prems(1) by simp
  note sel = patched_sel [OF k, of k]
  show ?case
  proof (cases "is_funnel (sites ! k)")
    case False
    have "patched (Suc k) sites = patched k sites"
      using False by (intro nth_equalityI) (auto simp: patched_nth less_Suc_eq)
    moreover have "funnelpatch_site k (ss, r) = (ss, r)" using False sel by (simp add: funnelpatch_site_def ih(1) is_funnel_def)
    ultimately show ?thesis unfolding last using ih False by (auto simp: less_Suc_eq)
  next
    case True
    obtain f where f: "SITEfind sites (Param (sites ! k)) = Some f" "Type (patched k sites ! f) \<noteq> FTfunnel"
      "funnelpatch_site k (ss, r) = (ss[k := (ss ! k)\<lparr>Funnel := Some f\<rparr>], r)"
      using Suc.prems(2) True sel unfolding last
      by (auto simp: funnelpatch_site_def ih(1) is_funnel_def SITEfind_patched split: if_split_asm option.split_asm)
    have "f < length sites" using SITEfind_from_Some f(1) by (auto simp: SITEfind_def)
    then have ty: "Type (sites ! f) \<noteq> FTfunnel" using f(2) patched_sel(3) by simp
    have "patched (Suc k) sites = (patched k sites)[k := (patched k sites ! k)\<lparr>Funnel := Some f\<rparr>]"
    proof (rule nth_equalityI)
      fix i assume "i < length (patched (Suc k) sites)"
      then have i: "i < length sites" by (simp add: patched_nth)
      show "patched (Suc k) sites ! i = (patched k sites)[k := (patched k sites ! k)\<lparr>Funnel := Some f\<rparr>] ! i"
      proof (cases "i = k")
        case True
        then show ?thesis using i \<open>is_funnel (sites ! k)\<close> f(1) by (simp add: patched_nth)
      next
        case False
        then have "i < Suc k \<longleftrightarrow> i < k" by auto
        then show ?thesis using i False by (simp add: patched_nth)
      qed
    qed (simp add: patched_nth)
    then show ?thesis unfolding last f(3) using ih f(1) ty by (auto simp: less_Suc_eq)
  qed
qed

lemma parsed_ok:
  assumes "SITEparsefile conf starts file st = Some fd"
  shows "sites_ok (Sites fd)"
proof -
  let ?fd0 = "\<lparr>Sites = [], ME = SITEnull, me_found = False, Table = st,
    Needs = \<lparr>NeedHeaders = False, NeedOverview = False, NeedPath = False, NeedStoredGroup = False, NeedReplicdata = False\<rparr>\<rparr>"
  obtain ok fd1 where p: "parse_sites conf starts (SITEreadfile file) ?fd0 = (ok, fd1)" by fastforce
  let ?s = "Sites fd1"
  have fd: "snd (SITEfunnelpatch ?s)" "Sites fd = fst (SITEfunnelpatch ?s)"
    using assms p by (auto simp: SITEparsefile_def split: if_split_asm prod.split_asm)
  have g: "growing ?s" using parse_sites_growing [of ?fd0 conf starts "SITEreadfile file"] p by (simp add: growing_def)
  have f: "Sites fd = patched (length ?s) ?s"
    "\<forall>i<length ?s. is_funnel (?s ! i) \<longrightarrow> (\<exists>f. SITEfind ?s (Param (?s ! i)) = Some f \<and> Type (?s ! f) \<noteq> FTfunnel)"
    using funnelpatch_patched [of "length ?s" ?s] fd by (auto simp: SITEfunnelpatch_def)
  show ?thesis
    unfolding sites_ok_def f(1)
  proof (intro allI impI)
    fix i assume "i < length (patched (length ?s) ?s)"
    then have i: "i < length ?s" by (simp add: patched_nth)
    have gi: "\<not> Seenit (?s ! i)" "Funnel (?s ! i) = None" "\<forall>m. Master (?s ! i) = Some m \<longrightarrow> m < i"
      using g i unfolding growing_def by blast+
    have "f < length ?s \<and> Funnel (patched (length ?s) ?s ! f) = None" if "Funnel (patched (length ?s) ?s ! i) = Some f" for f
    proof -
      have fi: "is_funnel (?s ! i)" "SITEfind ?s (Param (?s ! i)) = Some f"
        using that gi(2) i by (auto simp: patched_nth split: if_split_asm)
      then have fl: "f < length ?s" using SITEfind_from_Some by (auto simp: SITEfind_def)
      have "Type (?s ! f) \<noteq> FTfunnel" using f(2) fi i by auto
      moreover have "Funnel (?s ! f) = None" using g fl unfolding growing_def by blast
      ultimately show ?thesis using fl by (simp add: patched_nth is_funnel_def)
    qed
    then show "\<not> Seenit (patched (length ?s) ?s ! i) \<and> (\<forall>m. Master (patched (length ?s) ?s ! i) = Some m \<longrightarrow> m < i) \<and>
        (\<forall>f. Funnel (patched (length ?s) ?s ! i) = Some f \<longrightarrow> f < length (patched (length ?s) ?s) \<and>
          Funnel (patched (length ?s) ?s ! f) = None)"
      using gi i patched_sel [OF i, of "length ?s"] by (simp add: patched_nth(2))
  qed
qed

text \<open>
  C20: The table of sites that the server builds from its newsfeeds file, whenever it accepts the file, is in order for
  \<open>ARTpropagate\<close>: no site counts as having seen an article, the master of a duplicate entry stands before it, and a
  funnel feeds a site that is in the table and is not a funnel itself.
\<close>

theorem parsed_sites_ok:
  assumes "SITEparsefile conf starts file st = Some fd"
  shows "sites_ok (Sites fd)"
  by (rule parsed_ok [OF assms])

definition example_feedconf :: feedconf where
  "example_feedconf = \<lparr>pathoutgoing = ''/out'', nicekids = 4\<rparr>"

definition example_feeds :: octets where
  "example_feeds = ''ME:*::'' @ [LF] @ ''all!:!*:Tc:/bin/send'' @ [LF] @ ''a.b:*:Tm:all!'' @ [LF]"

definition one_group :: ngtable where
  "one_group = \<lparr>Active = ''misc.test 0000000001 0000000001 y'' @ [LF],
     Groups = [\<lparr>ng_Name = ''misc.test'', ng_Last = 1, ng_Filenum = 0, ng_Lastwidth = 10, ng_PostCount = 0, ng_LastString = 10,
                ng_Rest = 32, ng_Sites = [], ng_Poison = [], ng_Alias = None\<rparr>],
     NGHtable = (replicate NGH_SIZE [])[NGH_BUCKET ''misc.test'' := [0]]\<rparr>"

definition no_needs :: needs where
  "no_needs = \<lparr>NeedHeaders = False, NeedOverview = False, NeedPath = False, NeedStoredGroup = False, NeedReplicdata = False\<rparr>"

lemmas entry_defs = parse_entry_fields_def after_def before_def NF_FIELD_SEP_def NF_SUBFIELD_SEP_def entry_start_def
  read_subscriptions_def SITEsetlist_def setlist_step_def subfield_def CommaSplit_def moderation_def
  field4_def example_feedconf_def SITE_BUFFER_SIZE_def bare_def subvalue_def SUB_NEGATE_def SUB_POISON_def
  poisonvalue_def simple_pattern_def field3_flag_def set_site_def T_flag_def concatpath_def

definition example_me :: SITE where
  "example_me = SITEnull\<lparr>Nice := 4, Name := ''ME'', Patterns := [''*''], Type := FTfile, Flushpoint := 16384,
     SpoolName := ''/out/ME'', Param := ''/out/''\<rparr>"

lemma wild_star: "wild T ''*''"
  by (simp add: wild_def uwildmat_def)

lemma example_entries:
  "parse_entry_fields example_feedconf ''ME:*::'' True me one_group no_needs = Inr (example_me, [True], [False], False, no_needs)"
  "parse_entry_fields example_feedconf ''all!:!*:Tc:/bin/send'' False example_me one_group no_needs =
     Inr (SITEnull\<lparr>Nice := 4, Name := ''all!'', Patterns := [''!*''], Type := FTchannel, SpoolName := ''/out/all!'',
            Param := ''/bin/send''\<rparr>, [False], [False], False, no_needs)"
  "parse_entry_fields example_feedconf ''a.b:*:Tm:all!'' False example_me one_group no_needs =
     Inr (SITEnull\<lparr>Nice := 4, Name := ''a.b'', Patterns := [''*''], Type := FTfunnel, SpoolName := ''/out/a.b'',
            Param := ''all!''\<rparr>, [True], [False], False, no_needs)"
  by (simp add: entry_defs example_me_def one_group_def wild_star, simp add: SITEnull_def entry_defs one_group_def wild_star)+

lemma example_feeds_parsed:
  "\<exists>fd. SITEparsefile example_feedconf (\<lambda>sp. True) example_feeds one_group = Some fd \<and>
     map Name (Sites fd) = [''all!'', ''a.b''] \<and> map Funnel (Sites fd) = [None, Some 0] \<and>
     Patterns (ME fd) = [''*''] \<and> map Patterns (Sites fd) = [[''!*''], [''*'']]"
proof -
  have entries: "SITEreadfile example_feeds = [''ME:*::'', ''all!:!*:Tc:/bin/send'', ''a.b:*:Tm:all!'']" by code_simp
  have me: "is_me_entry ''ME:*::''" "\<not> is_me_entry ''all!:!*:Tc:/bin/send''" "\<not> is_me_entry ''a.b:*:Tm:all!''" by code_simp+
  have names: "strcasecmp ''all!'' ''all!'' = 0" "strcasecmp ''a.b'' ''all!'' \<noteq> 0" "strcasecmp ''a.b'' ''a.b'' = 0"
    by code_simp+
  have sub: "subscribe i [False] [False] one_group = one_group" for i by (simp add: subscribe_def one_group_def Let_def)
  have same: "example_me\<lparr>PoisonEntry := False\<rparr> = example_me" by (simp add: example_me_def SITEnull_def)
  let ?fd0 = "\<lparr>Sites = [], ME = SITEnull, me_found = False, Table = one_group, Needs = no_needs\<rparr>"
  let ?all = "SITEnull\<lparr>Nice := 4, Name := ''all!'', Patterns := [''!*''], Type := FTchannel, SpoolName := ''/out/all!'',
            Param := ''/bin/send''\<rparr>"
  let ?ab = "SITEnull\<lparr>Nice := 4, Name := ''a.b'', Patterns := [''*''], Type := FTfunnel, SpoolName := ''/out/a.b'',
            Param := ''all!''\<rparr>"
  let ?fd1 = "?fd0\<lparr>ME := example_me, me_found := True\<rparr>"
  have one: "SITEparseone example_feedconf ''ME:*::'' None ?fd0 = Inr ?fd1"
    using example_entries(1) by (simp add: SITEparseone_def SITEfind_def SITEfind_from_def)
  have two: "SITEparseone example_feedconf ''all!:!*:Tc:/bin/send'' (Some 0) ?fd1 = Inr (?fd1\<lparr>Sites := [?all]\<rparr>)"
    using example_entries(2) names(1)
    by (simp add: SITEparseone_def put_site_def find_master_def SITEfind_def SITEfindnext_def SITEfind_from_def sub same)
      (simp add: SITEnull_def Let_def SITEfindnext_def SITEfind_from_def names)
  have three: "SITEparseone example_feedconf ''a.b:*:Tm:all!'' (Some (Suc 0)) (?fd1\<lparr>Sites := [?all]\<rparr>) =
      Inr (?fd1\<lparr>Sites := [?all, ?ab], Table := subscribe 1 [True] [False] one_group\<rparr>)"
    using example_entries(3) names
    by (simp add: SITEparseone_def put_site_def find_master_def SITEfind_def SITEfindnext_def SITEfind_from_def sub same)
      (simp add: SITEnull_def Let_def SITEfindnext_def SITEfind_from_def names)
  have parsed: "parse_sites example_feedconf (\<lambda>sp. True) (SITEreadfile example_feeds) ?fd0 = (True, ?fd1\<lparr>Sites := [?all, ?ab], Table := subscribe 1 [True] [False] one_group\<rparr>)"
    unfolding entries using one two three me by simp
  have patch: "SITEfunnelpatch [?all, ?ab] = ([?all, ?ab\<lparr>Funnel := Some 0\<rparr>], True)"
    using names(1) by (simp add: SITEfunnelpatch_def funnelpatch_site_def SITEfind_def SITEfind_from_def)
      (simp add: SITEnull_def)
  show ?thesis
    using parsed patch unfolding SITEparsefile_def no_needs_def [symmetric]
    by (simp add: SITEnull_def example_me_def)
qed

theorem parsed_sites_ok_witness:
  "\<exists>fd. SITEparsefile example_feedconf (\<lambda>sp. True) example_feeds one_group = Some fd \<and> length (Sites fd) = 2 \<and>
     sites_ok (Sites fd)"
  using example_feeds_parsed parsed_sites_ok [of example_feedconf "\<lambda>sp. True" example_feeds one_group]
  by (metis One_nat_def Suc_1 length_Cons length_map list.size(3))

section \<open>Patterns without wildcards\<close>

definition literal :: "octets \<Rightarrow> bool" where
  "literal P \<longleftrightarrow> list_all (\<lambda>c. c \<notin> set ''*?[,'' \<and> c \<noteq> CHR 0x5C \<and> c \<noteq> NUL) P \<and> deref P \<noteq> SUB_NEGATE"

lemma parse_pat_literal:
  assumes "list_all (\<lambda>c. c \<notin> set ''*?[,'' \<and> c \<noteq> CHR 0x5C \<and> c \<noteq> NUL) P"
  shows "p \<le> length P \<Longrightarrow> parse_pat P p (length P) = Some (map GLit (drop p P))"
proof (induction "length P - p" arbitrary: p)
  case 0
  then show ?case by (simp add: parse_pat.simps)
next
  case (Suc k)
  then have p: "p < length P" by simp
  then have c: "rd P p = Some (P ! p)" "P ! p \<notin> set ''*?[''" "P ! p \<noteq> CHR 0x5C"
    using assms by (auto simp: list_all_length rd_def)
  have "parse_pat P (p + 1) (length P) = Some (map GLit (drop (p + 1) P))" using Suc p by simp
  then show ?case using p c by (subst parse_pat.simps) (simp add: drop_case)
qed

lemma find_split_literal:
  assumes "list_all (\<lambda>c. c \<notin> set ''*?[,'' \<and> c \<noteq> CHR 0x5C \<and> c \<noteq> NUL) P"
  shows "p \<le> length P \<Longrightarrow> find_split P p (length P) False = Some (length P)"
proof (induction "length P - p" arbitrary: p)
  case 0
  then show ?case by (simp add: find_split.simps)
next
  case (Suc k)
  then have p: "p < length P" by simp
  then have c: "rd P p = Some (P ! p)" "P ! p \<notin> set ''[,''" "P ! p \<noteq> CHR 0x5C"
    using assms by (auto simp: list_all_length rd_def)
  have "find_split P (p + 1) (length P) False = Some (length P)" using Suc p by simp
  then show ?case using p c by (subst find_split.simps) (simp add: bracket_skip_def)
qed

lemma glob_literal: "glob (map GLit P) T \<longleftrightarrow> T = P"
  by (induction P arbitrary: T) (auto split: list.split)

lemma wild_literal:
  assumes "literal P" "ascii T"
  shows "wild T P \<longleftrightarrow> T = P"
proof (cases "P = []")
  case True
  then show ?thesis by (simp add: wild_def uwildmat_def match_expression_def)
next
  case False
  have P: "list_all (\<lambda>c. c \<notin> set ''*?[,'' \<and> c \<noteq> CHR 0x5C \<and> c \<noteq> NUL) P" "hd P \<noteq> SUB_NEGATE"
    using assms(1) False by (cases P; auto simp: literal_def)+
  have star: "P \<noteq> ''*''" using P(1) by auto
  have h: "rd P 0 = Some (hd P)" using False by (simp add: rd_def hd_conv_nth)
  obtain r where r: "match_pattern T 0 P 0 (length P) = Some r"
    using match_pattern_safe(1) [of 0 T "length P" P 0] ascii_no_NUL [OF assms(2)] by auto
  have "expression_loop T P (length P + 1) False m b = Some (m, b)" for m b by (subst expression_loop.simps) simp
  then have "expression_loop T P 0 False False False = Some (r = MTRUE, False)"
    using expression_loop_step(1) [of 0 P "hd P" False False False 0 "length P" T False False] h P(2) r
      find_split_literal [OF P(1), of 0] by (simp add: SUB_NEGATE_def)
  then have "uwildmat T P = Some (r = MTRUE)" using False star by (simp add: uwildmat_def match_expression_def)
  moreover have "r = MTRUE \<longleftrightarrow> pmatch T P (length P) 0 0" using match_pattern_iff [OF assms(2), of "length P" P 0] r by simp
  moreover have "pmatch T P (length P) 0 0 \<longleftrightarrow> T = P" using parse_pat_literal [OF P(1), of 0] by (simp add: pmatch_def glob_literal)
  ultimately show ?thesis by (simp add: wild_def)
qed

section \<open>The subscriptions are what the sites want\<close>

text \<open>
  A pattern list without surprises: a pattern that the code takes for the name of a group has no other special
  characters.
\<close>

definition pattern_ok :: "octets \<Rightarrow> bool" where
  "pattern_ok pat \<longleftrightarrow> (simple_pattern (bare pat) \<longrightarrow> literal (bare pat))"

definition names_ok :: "ngtable \<Rightarrow> bool" where
  "names_ok st \<longleftrightarrow> table_ok (Groups st) (NGHtable st) \<and> (\<forall>i<length (Groups st). ascii (ng_Name (Groups st ! i)) \<and> ng_Name (Groups st ! i) \<noteq> [])"

lemma wants_step_eq: "wants_step name pat m = (if wild name (bare pat) then subvalue pat else m)"
  by (auto simp: wants_step_def)

lemma setlist_step_nth:
  assumes "names_ok st" "pattern_ok pat" "length s = length (Groups st)" "length p = length (Groups st)"
    and "setlist_step st pat (s, p, e) = (s', p', e')"
  shows "length s' = length (Groups st) \<and> length p' = length (Groups st) \<and>
    (\<forall>k<length (Groups st). s' ! k = wants_step (ng_Name (Groups st ! k)) pat (s ! k) \<and>
      p' ! k = poison_step (ng_Name (Groups st ! k)) pat (p ! k))"
proof -
  have name: "ascii (ng_Name (Groups st ! k))" "ng_Name (Groups st ! k) \<noteq> []" if "k < length (Groups st)" for k
    using assms(1) that by (auto simp: names_ok_def)
  have tab: "table_ok (Groups st) (NGHtable st)" using assms(1) by (simp add: names_ok_def)
  show ?thesis
  proof (cases "bare pat = []")
    case True
    have "literal []" by (simp add: literal_def SUB_NEGATE_def)
    then have "\<not> wild (ng_Name (Groups st ! k)) (bare pat)" if "k < length (Groups st)" for k
      using wild_literal [of "[]"] name [OF that] True by simp
    then show ?thesis using assms(3-5) True by (auto simp: setlist_step_def wants_step_eq poison_step_def)
  next
    case ne: False
    show ?thesis
    proof (cases "simple_pattern (bare pat)")
      case True
      then have "literal (bare pat)" using assms(2) by (simp add: pattern_ok_def)
      then have w: "wild (ng_Name (Groups st ! k)) (bare pat) \<longleftrightarrow> NGfind st (bare pat) = Some k" if "k < length (Groups st)" for k
        using wild_literal name(1) [OF that] NGfind_iff [OF tab, of "bare pat" k] that by auto
      show ?thesis
      proof (cases "NGfind st (bare pat)")
        case None
        then show ?thesis using assms(3-5) ne True w by (simp add: setlist_step_def wants_step_eq poison_step_def Let_def)
      next
        case (Some i)
        then show ?thesis using assms(3-5) ne True w
          by (auto simp: setlist_step_def wants_step_eq poison_step_def Let_def nth_list_update)
      qed
    next
      case False
      then have "s' = map (\<lambda>i. if wild (ng_Name (Groups st ! i)) (bare pat) then subvalue pat else s ! i) [0..<length (Groups st)]"
        "p' = map (\<lambda>i. if wild (ng_Name (Groups st ! i)) (bare pat) then poisonvalue pat else p ! i) [0..<length (Groups st)]"
        using assms(5) ne by (simp_all add: setlist_step_def Let_def)
      then show ?thesis by (simp add: wants_step_eq poison_step_def)
    qed
  qed
qed

lemma SITEsetlist_nth:
  assumes "names_ok st" "list_all pattern_ok pats" "length s = length (Groups st)" "length p = length (Groups st)"
    and "SITEsetlist st pats (s, p, e) = (s', p', e')"
  shows "length s' = length (Groups st) \<and> length p' = length (Groups st) \<and>
    (\<forall>k<length (Groups st). s' ! k = fold (wants_step (ng_Name (Groups st ! k))) pats (s ! k) \<and>
      p' ! k = fold (poison_step (ng_Name (Groups st ! k))) pats (p ! k))"
  using assms(2-5)
proof (induction pats arbitrary: s p e)
  case Nil
  then show ?case by (simp add: SITEsetlist_def)
next
  case (Cons pat pats)
  obtain s1 p1 e1 where 1: "setlist_step st pat (s, p, e) = (s1, p1, e1)" by (metis prod_cases3)
  note step = setlist_step_nth [OF assms(1) _ Cons.prems(2,3) 1]
  have "SITEsetlist st pats (s1, p1, e1) = (s', p', e')" using Cons.prems(4) 1 by (simp add: SITEsetlist_def)
  from Cons.IH [OF _ _ _ this] show ?case using step Cons.prems(1) by simp
qed

lemma read_subscriptions_nth:
  assumes "names_ok st" "list_all pattern_ok (Patterns me)" "list_all pattern_ok (Patterns sp)" "k < length (Groups st)"
    and "read_subscriptions False me sp st = (s, p, me_entry, own_entry)"
  shows "s ! k = SITEwantsgroup me sp (ng_Name (Groups st ! k)) \<and> p ! k = SITEpoisongroup me sp (ng_Name (Groups st ! k))"
proof -
  let ?z = "replicate (length (Groups st)) False"
  obtain s1 p1 e1 where 1: "SITEsetlist st (Patterns me) (?z, ?z, PoisonEntry me) = (s1, p1, e1)" by (metis prod_cases3)
  obtain s2 p2 e2 where 2: "SITEsetlist st (Patterns sp) (s1, p1, False) = (s2, p2, e2)" by (metis prod_cases3)
  have "s = s2" "p = p2" using assms(5) 1 2 by (auto simp: read_subscriptions_def Let_def)
  then show ?thesis
    using SITEsetlist_nth [OF assms(1,2) _ _ 1] SITEsetlist_nth [OF assms(1,3) _ _ 2] assms(4)
    by (simp add: SITEwantsgroup_def SITEpoisongroup_def)
qed

lemma add_index_set: "int j \<in> set (add_index i xs) \<longleftrightarrow> j = i \<or> int j \<in> set xs"
proof (cases "find (\<lambda>j. xs ! j = - 1) [0..<length xs]")
  case None
  then show ?thesis by (auto simp: add_index_def)
next
  case (Some n)
  then have n: "n < length xs" "xs ! n = - 1" by (auto simp: find_upt_Some)
  then have "set (xs[n := int i]) \<subseteq> insert (int i) (set xs)" "int i \<in> set (xs[n := int i])"
    by (auto simp: set_update_memI dest: set_update_subset_insert [THEN subsetD])
  moreover have "int j \<in> set (xs[n := int i])" if "int j \<in> set xs"
  proof -
    from that obtain m where m: "m < length xs" "xs ! m = int j" by (auto simp: in_set_conv_nth)
    then have "m \<noteq> n" using n(2) by auto
    then have "xs[n := int i] ! m = int j" using m by simp
    then show ?thesis using m(1) by (metis length_list_update nth_mem)
  qed
  ultimately show ?thesis using Some by (auto simp: add_index_def)
qed

text \<open>An entry without the flag \<open>N\<close>, whose patterns have no surprises.\<close>

definition entry_plain :: "octets \<Rightarrow> bool" where
  "entry_plain entry \<longleftrightarrow>
     list_all pattern_ok (CommaSplit (before NF_SUBFIELD_SEP (before NF_FIELD_SEP (after NF_FIELD_SEP entry)))) \<and>
     list_all (\<lambda>w. deref w \<noteq> CHR ''N'') (CommaSplit (before NF_FIELD_SEP (after NF_FIELD_SEP (after NF_FIELD_SEP entry))))"

lemma entry_patterns: "Patterns (entry_start conf entry) = CommaSplit (before NF_SUBFIELD_SEP (before NF_FIELD_SEP (after NF_FIELD_SEP entry)))"
  by (simp add: entry_start_def Let_def)

lemma wants_cong: "Patterns me' = Patterns me \<Longrightarrow> Patterns sp' = Patterns sp \<Longrightarrow>
    SITEwantsgroup me' sp' name = SITEwantsgroup me sp name \<and> SITEpoisongroup me' sp' name = SITEpoisongroup me sp name"
  by (simp add: SITEwantsgroup_def SITEpoisongroup_def)

lemma entry_subscribes:
  assumes "parse_entry_fields conf entry False me st nd = Inr (sp, subbed, poison, me_entry, nd')"
    and "names_ok st" "list_all pattern_ok (Patterns me)" "entry_plain entry" "k < length (Groups st)"
  shows "subbed ! k = SITEwantsgroup me sp (ng_Name (Groups st ! k)) \<and> poison ! k = SITEpoisongroup me sp (ng_Name (Groups st ! k))"
proof -
  obtain s own_entry fl f4 where r: "read_subscriptions False me (entry_start conf entry) st = (s, poison, me_entry, own_entry)"
    "field3_flags conf (CommaSplit (before NF_FIELD_SEP (after NF_FIELD_SEP (after NF_FIELD_SEP entry))))
       \<lparr>fl_site = (entry_start conf entry)\<lparr>PoisonEntry := own_entry, Type := FTfile\<rparr>, fl_needs = nd, JustModerated = False,
        JustUnmoderated = False\<rparr> = Inr fl" "subbed = moderation st fl s"
    using assms(1) unfolding parse_entry_fields_def Let_def by (auto split: if_split_asm sum.split_asm prod.split_asm)
  have "\<not> JustModerated fl \<and> \<not> JustUnmoderated fl"
    using field3_flags_kept [OF r(2)] assms(4) by (simp add: entry_plain_def same_moderation_def)
  then have "subbed ! k = s ! k" using r(3) assms(5) by (simp add: moderation_def)
  moreover have "Patterns sp = Patterns (entry_start conf entry)" using entry_fields [OF assms(1)] by simp
  ultimately show ?thesis
    using read_subscriptions_nth [OF assms(2,3) _ assms(5) r(1)] assms(4) wants_cong
    by (simp add: entry_patterns entry_plain_def)
qed

text \<open>The groups list the sites of the table that want them.\<close>

definition subscribed :: "ngtable \<Rightarrow> feeds \<Rightarrow> bool" where
  "subscribed st fd \<longleftrightarrow>
     map ng_Name (Groups (Table fd)) = map ng_Name (Groups st) \<and> NGHtable (Table fd) = NGHtable st \<and>
     Active (Table fd) = Active st \<and>
     (\<forall>k<length (Groups st). ng_Rest (Groups (Table fd) ! k) = ng_Rest (Groups st ! k) \<and>
        ng_Alias (Groups (Table fd) ! k) = ng_Alias (Groups st ! k)) \<and>
     (\<forall>k<length (Groups st). \<forall>i.
        (int i \<in> set (ng_Sites (Groups (Table fd) ! k)) \<longleftrightarrow>
           i < length (Sites fd) \<and> SITEwantsgroup (ME fd) (Sites fd ! i) (ng_Name (Groups st ! k))) \<and>
        (int i \<in> set (ng_Poison (Groups (Table fd) ! k)) \<longleftrightarrow>
           i < length (Sites fd) \<and> SITEpoisongroup (ME fd) (Sites fd ! i) (ng_Name (Groups st ! k))))"

lemma find_master_patterns:
  "length (find_master i sites) = length sites" "j < length sites \<Longrightarrow> Patterns (find_master i sites ! j) = Patterns (sites ! j)"
proof -
  show "length (find_master i sites) = length sites" by (simp add: find_master_def Let_def split: option.split)
  have upd: "Patterns (s[n := y] ! j) = Patterns (s ! j)" if "j < length s" "Patterns y = Patterns (s ! n)" for s n y
    using that by (cases "n = j") simp_all
  assume j: "j < length sites"
  define s where "s m = sites[i := (sites ! i)\<lparr>Master := m\<rparr>]" for m
  have "find_master i sites = sites \<or> (\<exists>m n. find_master i sites = (s m)[n := (s m ! n)\<lparr>IsMaster := True\<rparr>])"
    unfolding find_master_def Let_def s_def [symmetric] by (simp only: split: option.split if_split) blast
  then show "Patterns (find_master i sites ! j) = Patterns (sites ! j)"
  proof
    assume "\<exists>m n. find_master i sites = (s m)[n := (s m ! n)\<lparr>IsMaster := True\<rparr>]"
    then obtain m n where s: "find_master i sites = (s m)[n := (s m ! n)\<lparr>IsMaster := True\<rparr>]" by blast
    have "Patterns (find_master i sites ! j) = Patterns (s m ! j)" unfolding s using j by (intro upd) (simp_all add: s_def)
    also have "\<dots> = Patterns (sites ! j)" unfolding s_def using j by (intro upd) simp_all
    finally show ?thesis .
  qed simp
qed

lemma names_ok_cong:
  assumes "names_ok st" "map ng_Name (Groups st') = map ng_Name (Groups st)" "NGHtable st' = NGHtable st"
  shows "names_ok st'"
proof -
  have l: "length (Groups st') = length (Groups st)" using assms(2) by (rule map_eq_imp_length_eq)
  have "ng_Name (Groups st' ! i) = ng_Name (Groups st ! i)" if "i < length (Groups st)" for i
    using that l arg_cong [OF assms(2), of "\<lambda>l. l ! i"] by simp
  then show ?thesis using assms l table_ok_cong [OF assms(2)] by (simp add: names_ok_def)
qed

lemma subscribe_nth:
  "length (Groups (subscribe i subbed poison st)) = length (Groups st)" "NGHtable (subscribe i subbed poison st) = NGHtable st"
  "k < length (Groups st) \<Longrightarrow> ng_Name (Groups (subscribe i subbed poison st) ! k) = ng_Name (Groups st ! k)"
  "k < length (Groups st) \<Longrightarrow> int j \<in> set (ng_Sites (Groups (subscribe i subbed poison st) ! k)) \<longleftrightarrow>
     subbed ! k \<and> j = i \<or> int j \<in> set (ng_Sites (Groups st ! k))"
  "k < length (Groups st) \<Longrightarrow> int j \<in> set (ng_Poison (Groups (subscribe i subbed poison st) ! k)) \<longleftrightarrow>
     poison ! k \<and> j = i \<or> int j \<in> set (ng_Poison (Groups st ! k))"
  "Active (subscribe i subbed poison st) = Active st"
  "k < length (Groups st) \<Longrightarrow> ng_Rest (Groups (subscribe i subbed poison st) ! k) = ng_Rest (Groups st ! k)"
  "k < length (Groups st) \<Longrightarrow> ng_Alias (Groups (subscribe i subbed poison st) ! k) = ng_Alias (Groups st ! k)"
  by (simp_all add: subscribe_def Let_def add_index_set)

lemma parseone_subscribes:
  assumes "subscribed st fd" "SITEparseone conf entry (Some (length (Sites fd))) fd = Inr fd'"
    and "names_ok st" "list_all pattern_ok (Patterns (ME fd))" "entry_plain entry"
  shows "subscribed st fd' \<and> Patterns (ME fd') = Patterns (ME fd)"
proof -
  let ?n = "length (Sites fd)"
  obtain sp subbed poison me_entry nd where
    p: "parse_entry_fields conf entry False (ME fd) (Table fd) (Needs fd) = Inr (sp, subbed, poison, me_entry, nd)"
    using assms(2) by (auto simp: SITEparseone_def split: sum.splits)
  have fd': "ME fd' = (ME fd)\<lparr>PoisonEntry := me_entry\<rparr>" "Table fd' = subscribe ?n subbed poison (Table fd)"
    "Sites fd' = find_master ?n (Sites fd @ [sp])"
    using assms(2) p by (auto simp: SITEparseone_def put_site_def)
  have names: "map ng_Name (Groups (Table fd)) = map ng_Name (Groups st)" "NGHtable (Table fd) = NGHtable st"
    using assms(1) by (simp_all add: subscribed_def)
  have l: "length (Groups (Table fd)) = length (Groups st)" using names(1) by (rule map_eq_imp_length_eq)
  have nm: "ng_Name (Groups (Table fd) ! k) = ng_Name (Groups st ! k)" if "k < length (Groups st)" for k
    using that l arg_cong [OF names(1), of "\<lambda>l. l ! k"] by simp
  have pats: "Patterns (Sites fd' ! i) = Patterns ((Sites fd @ [sp]) ! i)" if "i < ?n + 1" for i
    using that find_master_patterns(2) [of i "Sites fd @ [sp]"] by (simp add: fd'(3))
  have len: "length (Sites fd') = ?n + 1" by (simp add: fd'(3) find_master_patterns)
  have wants: "SITEwantsgroup (ME fd') (Sites fd' ! i) g = SITEwantsgroup (ME fd) ((Sites fd @ [sp]) ! i) g \<and>
      SITEpoisongroup (ME fd') (Sites fd' ! i) g = SITEpoisongroup (ME fd) ((Sites fd @ [sp]) ! i) g" if "i < ?n + 1" for i g
    using pats [OF that] by (intro wants_cong) (simp_all add: fd'(1))
  have ok: "names_ok (Table fd)" by (rule names_ok_cong [OF assms(3) names])
  have old: "(int i \<in> set (ng_Sites (Groups (Table fd) ! k)) \<longleftrightarrow> i < ?n \<and> SITEwantsgroup (ME fd) (Sites fd ! i) (ng_Name (Groups st ! k))) \<and>
      (int i \<in> set (ng_Poison (Groups (Table fd) ! k)) \<longleftrightarrow> i < ?n \<and> SITEpoisongroup (ME fd) (Sites fd ! i) (ng_Name (Groups st ! k)))"
    if "k < length (Groups st)" for k i
    using assms(1) that by (simp add: subscribed_def)
  have "(int i \<in> set (ng_Sites (Groups (Table fd') ! k)) \<longleftrightarrow>
           i < length (Sites fd') \<and> SITEwantsgroup (ME fd') (Sites fd' ! i) (ng_Name (Groups st ! k))) \<and>
        (int i \<in> set (ng_Poison (Groups (Table fd') ! k)) \<longleftrightarrow>
           i < length (Sites fd') \<and> SITEpoisongroup (ME fd') (Sites fd' ! i) (ng_Name (Groups st ! k)))"
    if k: "k < length (Groups st)" for k i
  proof -
    have k': "k < length (Groups (Table fd))" using k l by simp
    have new: "subbed ! k = SITEwantsgroup (ME fd) sp (ng_Name (Groups st ! k)) \<and>
        poison ! k = SITEpoisongroup (ME fd) sp (ng_Name (Groups st ! k))"
      using entry_subscribes [OF p ok assms(4,5) k'] nm [OF k] by simp
    consider "i < ?n" | "i = ?n" | "?n < i" by linarith
    then show ?thesis
    proof cases
      case 1
      then show ?thesis using old [OF k, of i] wants [of i] by (simp add: fd'(2) subscribe_nth k' len nth_append)
    next
      case 2
      then show ?thesis using old [OF k, of i] wants [of i] new by (simp add: fd'(2) subscribe_nth k' len nth_append)
    next
      case 3
      then show ?thesis using old [OF k, of i] by (simp add: fd'(2) subscribe_nth k' len)
    qed
  qed
  moreover have "map ng_Name (Groups (Table fd')) = map ng_Name (Groups st)"
    using nm l by (intro nth_equalityI) (simp_all add: fd'(2) subscribe_nth)
  moreover have "Active (Table fd') = Active st" "\<forall>k<length (Groups st). ng_Rest (Groups (Table fd') ! k) = ng_Rest (Groups st ! k) \<and>
      ng_Alias (Groups (Table fd') ! k) = ng_Alias (Groups st ! k)"
    using assms(1) l by (auto simp: subscribed_def fd'(2) subscribe_nth)
  ultimately show ?thesis using names(2) by (simp add: subscribed_def fd'(1,2) subscribe_nth(2))
qed

lemma parse_sites_subscribed:
  assumes "subscribed st fd" "names_ok st" "list_all pattern_ok (Patterns (ME fd))" "me_found fd"
    and "list_all entry_plain ps" "fst (parse_sites conf starts ps fd)"
  shows "subscribed st (snd (parse_sites conf starts ps fd))"
  using assms
proof (induction ps arbitrary: fd)
  case (Cons p ps)
  have no: "\<not> is_me_entry p" using Cons.prems(4,6) by auto
  show ?case
  proof (cases "SITEparseone conf p (Some (length (Sites fd))) fd")
    case (Inl e)
    then show ?thesis using Cons.prems(6) no by simp
  next
    case (Inr fd')
    have "entry_plain p" using Cons.prems(5) by simp
    then have s: "subscribed st fd'" "Patterns (ME fd') = Patterns (ME fd)"
      using parseone_subscribes [OF Cons.prems(1) Inr Cons.prems(2,3)] by auto
    have f: "me_found fd'" using Inr Cons.prems(4) by (auto simp: SITEparseone_def split: sum.splits)
    have "starts (last (Sites fd'))" using Cons.prems(6) no Inr by (auto split: if_splits)
    then show ?thesis using Cons.IH [OF s(1) Cons.prems(2) _ f] Cons.prems(3,5,6) s(2) no Inr by simp
  qed
qed simp

lemma patched_patterns: "i < length sites \<Longrightarrow> Patterns (patched k sites ! i) = Patterns (sites ! i)"
  by (simp add: patched_nth)

text \<open>The groups of the table of a file that was read list the sites that want them.\<close>

lemma parsed_subscribed:
  assumes "SITEparsefile conf starts file st = Some fd" "SITEreadfile file = me # entries" "is_me_entry me"
    and "list_all entry_plain (me # entries)" "names_ok st"
    and "\<forall>g\<in>set (Groups st). ng_Sites g = [] \<and> ng_Poison g = []"
  shows "subscribed st fd"
proof -
  let ?fd0 = "\<lparr>Sites = [], ME = SITEnull, me_found = False, Table = st,
    Needs = \<lparr>NeedHeaders = False, NeedOverview = False, NeedPath = False, NeedStoredGroup = False, NeedReplicdata = False\<rparr>\<rparr>"
  obtain ok fd2 where p: "parse_sites conf starts (me # entries) ?fd0 = (ok, fd2)" by fastforce
  have all: "ok" "snd (SITEfunnelpatch (Sites fd2))" "fd = fd2\<lparr>Sites := fst (SITEfunnelpatch (Sites fd2))\<rparr>"
    using assms(1) p unfolding SITEparsefile_def assms(2) by (auto split: if_split_asm prod.split_asm)
  obtain fd1 where one: "SITEparseone conf me None ?fd0 = Inr fd1" "parse_sites conf starts entries fd1 = (ok, fd2)"
    using p all(1) assms(3) by (auto split: sum.split_asm)
  then have fd1: "Sites fd1 = []" "Table fd1 = st" "me_found fd1" "Patterns (ME fd1) = Patterns (entry_start conf me)"
    using entry_fields by (fastforce simp: SITEparseone_def SITEfind_def SITEfind_from_def split: sum.split_asm)+
  have "subscribed st fd1" using assms(6) by (simp add: subscribed_def fd1)
  moreover have "list_all pattern_ok (Patterns (ME fd1))" using assms(4) by (simp add: fd1(4) entry_patterns entry_plain_def)
  ultimately have s: "subscribed st fd2"
    using parse_sites_subscribed [of st fd1 entries conf starts] assms(4,5) fd1(3) one(2) all(1) by simp
  have patch: "fst (SITEfunnelpatch (Sites fd2)) = patched (length (Sites fd2)) (Sites fd2)"
    using funnelpatch_patched [of "length (Sites fd2)" "Sites fd2"] all(2) by (auto simp: SITEfunnelpatch_def)
  have "SITEwantsgroup (ME fd) (Sites fd ! i) g = SITEwantsgroup (ME fd2) (Sites fd2 ! i) g \<and>
      SITEpoisongroup (ME fd) (Sites fd ! i) g = SITEpoisongroup (ME fd2) (Sites fd2 ! i) g" if "i < length (Sites fd2)" for i g
    using that by (intro wants_cong) (simp_all add: all(3) patch patched_patterns)
  moreover have "length (Sites fd) = length (Sites fd2)" "Table fd = Table fd2" by (simp_all add: all(3) patch patched_nth)
  ultimately show ?thesis using s by (auto simp: subscribed_def)
qed


text \<open>
  Where the code falls short. A hash feed with the modulus 0 is accepted, and the first article that gets there divides by it.
\<close>

lemma hash_modulus_zero: "map_sum id hf_mod (Q_flag ''0/0'') = Inr 0"
proof -
  have c: "dropWhile c_isspace ''0/0'' = ''0/0''" "takeWhile c_isdigit ''0/0'' = ''0''" "dropWhile c_isspace ''0'' = ''0''"
    "takeWhile c_isdigit ''0'' = ''0''" "dec_value ''0'' = 0" "c_isdigit CHR ''0''" "\<not> c_isdigit CHR ''/''"
    by code_simp+
  have "scan_u ''0/0'' = Some (0, ''/0'')" "scan_u ''0'' = Some (0, [])"
    unfolding scan_u_def c by (simp_all add: Let_def c)
  then show ?thesis by (simp add: Q_flag_def scan_two_def)
qed

lemma one_group_ok: "names_ok one_group"
proof -
  have "ascii ''misc.test''" by code_simp
  moreover have "set (((replicate NGH_SIZE [])[b := [0 :: nat]]) ! j) = {i. i < 1 \<and> b = j}" if "b < NGH_SIZE" "j < NGH_SIZE" for b j
    using that by (cases "b = j") auto
  then have "table_ok (Groups one_group) (NGHtable one_group)"
    using NGH_BUCKET_less [of "''misc.test''"] by (auto simp: table_ok_def one_group_def simp del: replicate.simps)
  ultimately show ?thesis by (simp add: names_ok_def one_group_def)
qed

lemma example_plain: "list_all entry_plain [''ME:*::'', ''all!:!*:Tc:/bin/send'', ''a.b:*:Tm:all!'']"
proof -
  have f: "before NF_SUBFIELD_SEP (before NF_FIELD_SEP (after NF_FIELD_SEP ''ME:*::'')) = ''*''"
    "before NF_FIELD_SEP (after NF_FIELD_SEP (after NF_FIELD_SEP ''ME:*::'')) = []"
    "before NF_SUBFIELD_SEP (before NF_FIELD_SEP (after NF_FIELD_SEP ''all!:!*:Tc:/bin/send'')) = ''!*''"
    "before NF_FIELD_SEP (after NF_FIELD_SEP (after NF_FIELD_SEP ''all!:!*:Tc:/bin/send'')) = ''Tc''"
    "before NF_SUBFIELD_SEP (before NF_FIELD_SEP (after NF_FIELD_SEP ''a.b:*:Tm:all!'')) = ''*''"
    "before NF_FIELD_SEP (after NF_FIELD_SEP (after NF_FIELD_SEP ''a.b:*:Tm:all!'')) = ''Tm''"
    by (simp_all add: before_def after_def NF_FIELD_SEP_def NF_SUBFIELD_SEP_def)
  have "pattern_ok ''*''" "pattern_ok ''!*''"
    by (simp_all add: pattern_ok_def bare_def subvalue_def SUB_NEGATE_def SUB_POISON_def simple_pattern_def)
  then show ?thesis by (simp add: entry_plain_def f CommaSplit_def)
qed


end
