(* ===== verification/Artgroups.thy ===== *)
theory Artgroups
  imports Newsfeeds
begin

text \<open>
  The part of \<open>ARTpost\<close> (\<open>innd/art.c\<close>) that goes through the newsgroups of an article: which groups it is filed
  in, which sites are marked for it, and whether it is rejected. With it go \<open>SITEmark\<close>, \<open>ARTsendthegroup\<close>,
  \<open>ARTpoisongroup\<close> and \<open>RCcanpost\<close> (\<open>innd/rc.c\<close>). The theorem says which sites are marked in the end; joined with
  the theorems of \<open>Newsfeeds\<close> and \<open>Artfeed\<close> it says who is fed an article, from the text of the newsfeeds file on.
\<close>

section \<open>State\<close>

datatype Reject_type =
  REJECT_DUPLICATE | REJECT_SITE | REJECT_FILTER | REJECT_DISTRIB | REJECT_GROUP | REJECT_UNAPP | REJECT_OTHER

text \<open>What \<open>ARTpost\<close> finds out while it goes through the groups; \<open>GroupPointers\<close> are the groups to file in.\<close>

record posting =
  po_sites :: "SITE list"
  po_table :: ngtable
  GroupPointers :: "nat list"
  GroupMissing :: bool
  Accepted :: bool
  NoHistoryUpdate :: bool
  ToGroup :: bool
  NonExist :: bool

text \<open>
  The settings, the entry of the server, what the article is, and the patterns of the peer that sends it (\<open>None\<close> for a
  peer that may post anywhere).
\<close>

record groupconf =
  wanttrash :: bool
  verifygroups :: bool
  mergetogroups :: bool
  gc_me :: SITE
  peer_patterns :: "octets list option"
  Approved :: bool
  LikeNewgroup :: bool
  IsControl :: bool
  ControlWord :: octets

text \<open>
  A rejection: its type, the message behind the code, and whether the message-ID is to be remembered. \<open>Crash\<close> is the
  use of a group that is not there, for groups that \<open>ICDsetup\<close> has looked for.
\<close>

datatype 'a outcome = Continue 'a | Reject Reject_type octets bool 'a | Crash

section \<open>Sites\<close>

definition set_ng :: "nat option \<Rightarrow> SITE \<Rightarrow> SITE" where
  "set_ng ngp sp = (if ng sp = None then sp\<lparr>ng := ngp\<rparr> else sp)"

definition SITEmark :: "nat option \<Rightarrow> nat \<Rightarrow> SITE list \<Rightarrow> SITE list" where
  "SITEmark ngp i sites =
     (let sites = sites[i := set_ng ngp ((sites ! i)\<lparr>Sendit := True\<rparr>)] in
      case Funnel (sites ! i) of
        Some f \<Rightarrow> sites[f := set_ng ngp (sites ! f)]
      | None \<Rightarrow> sites)"

definition mark_if :: "(SITE \<Rightarrow> bool) \<Rightarrow> nat option \<Rightarrow> nat \<Rightarrow> SITE list \<Rightarrow> SITE list" where
  "mark_if P ngp i sites = (if P (sites ! i) then SITEmark ngp i sites else sites)"

definition ARTctl :: octets where "ARTctl = ''control''"
definition ARTjnk :: octets where "ARTjnk = ''junk''"

definition ARTsendthegroup :: "SITE \<Rightarrow> ngtable \<Rightarrow> octets \<Rightarrow> octets \<Rightarrow> SITE list \<Rightarrow> SITE list" where
  "ARTsendthegroup me st name fromgroup sites =
     fold (mark_if (\<lambda>sp. \<not> Freed sp \<and> SITEwantsgroup me sp name) (NGfind st fromgroup)) [0..<length sites] sites"

definition ARTpoisongroup :: "SITE \<Rightarrow> octets \<Rightarrow> SITE list \<Rightarrow> SITE list" where
  "ARTpoisongroup me name sites =
     map (\<lambda>sp. if \<not> Freed sp \<and> (PoisonEntry sp \<or> PoisonEntry me) \<and> SITEpoisongroup me sp name
               then sp\<lparr>Poison := True\<rparr> else sp) sites"

text \<open>The sites of the list of a group, but for the places that are free.\<close>

definition listed :: "int list \<Rightarrow> nat list" where
  "listed xs = map nat (filter (\<lambda>i. 0 \<le> i) xs)"

definition poison_sites :: "int list \<Rightarrow> SITE list \<Rightarrow> SITE list" where
  "poison_sites xs sites = fold (\<lambda>i sites. sites[i := (sites ! i)\<lparr>Poison := True\<rparr>]) (listed xs) sites"

definition mark_listed :: "(SITE \<Rightarrow> bool) \<Rightarrow> nat option \<Rightarrow> int list \<Rightarrow> SITE list \<Rightarrow> SITE list" where
  "mark_listed P ngp xs sites = fold (mark_if P ngp) (listed xs) sites"

text \<open>Before an article is looked at.\<close>

definition clear_sites :: "SITE list \<Rightarrow> SITE list" where
  "clear_sites sites = map (\<lambda>sp. sp\<lparr>Poison := False, Sendit := False, Seenit := False, FNLnames := [], ng := None\<rparr>) sites"

section \<open>The peer\<close>

text \<open>1 for a group that the peer may post to, 0 for one that it may not, -1 for poison.\<close>

fun canpost_loop :: "octets \<Rightarrow> octets list \<Rightarrow> bool \<Rightarrow> int" where
  "canpost_loop name [] negated = (if negated then 0 else 1)"
| "canpost_loop name (pat # argv) negated =
     (if subvalue pat then
        (if negated \<and> wild name pat then canpost_loop name argv False else canpost_loop name argv negated)
      else if deref pat = SUB_POISON then
        (if wild name (tl pat) then - 1 else canpost_loop name argv negated)
      else if \<not> negated \<and> wild name (tl pat) then canpost_loop name argv True
      else canpost_loop name argv negated)"

definition RCcanpost :: "octets list option \<Rightarrow> octets \<Rightarrow> int" where
  "RCcanpost patterns name = (case patterns of None \<Rightarrow> 1 | Some pats \<Rightarrow> canpost_loop name pats False)"

section \<open>One group\<close>

definition set_postcount :: "nat \<Rightarrow> ngtable \<Rightarrow> ngtable" where
  "set_postcount n st = st\<lparr>Groups := (Groups st)[n := (Groups st ! n)\<lparr>ng_PostCount := 0\<rparr>]\<rparr>"

definition flag :: "ngtable \<Rightarrow> nat \<Rightarrow> char" where
  "flag st n = deref (drop (ng_Rest (Groups st ! n)) (Active st))"

definition in_quotes :: "octets \<Rightarrow> octets" where
  "in_quotes s = [CHR 0x22] @ MaxLength s (Some 0) @ [CHR 0x22]"

text \<open>A group that is there; \<open>p\<close> is its name, or that of the site in a group \<open>to.\<close>.\<close>

definition known_group :: "groupconf \<Rightarrow> nat \<Rightarrow> octets \<Rightarrow> posting \<Rightarrow> posting outcome" where
  "known_group gc n p po =
     (let po = po\<lparr>po_table := set_postcount n (po_table po)\<rparr>; g = Groups (po_table po) ! n;
          poisoned = po\<lparr>po_sites := poison_sites (ng_Poison g) (po_sites po)\<rparr> in
      if flag (po_table po) n = NF_FLAG_IGNORE then Continue poisoned
      else if flag (po_table po) n = NF_FLAG_MODERATED \<and> \<not> Approved gc then
        Reject REJECT_UNAPP (''Unapproved for '' @ in_quotes (ng_Name g)) True po
      else if RCcanpost (peer_patterns gc) p = 0 then Continue (poisoned\<lparr>NoHistoryUpdate := True\<rparr>)
      else if RCcanpost (peer_patterns gc) p < 0 then
        Reject REJECT_GROUP (''Won't accept posts in '' @ in_quotes p) False poisoned
      else
        let po = poisoned\<lparr>Accepted := True,
              po_sites := mark_listed (\<lambda>sp. \<not> Poison sp) (Some n) (ng_Sites g) (po_sites poisoned)\<rparr> in
        if flag (po_table po) n = NF_FLAG_JUNK then Continue po
        else
          let m = (case ng_Alias g of Some m \<Rightarrow> m | None \<Rightarrow> n) in
          Continue (po\<lparr>GroupPointers := GroupPointers po @ [m], po_table := set_postcount m (po_table po)\<rparr>))"

definition post_group :: "groupconf \<Rightarrow> octets \<Rightarrow> posting \<Rightarrow> posting outcome" where
  "post_group gc p po =
     (case NGfind (po_table po) p of
        Some n \<Rightarrow> known_group gc n p po
      | None \<Rightarrow>
          let po = po\<lparr>GroupMissing := True\<rparr>; me = gc_me gc; newgroup = LikeNewgroup gc \<and> Approved gc;
              po = (if newgroup then
                      po\<lparr>po_sites := ARTsendthegroup me (po_table po) p ARTctl (po_sites po), Accepted := True\<rparr>
                    else if wanttrash gc \<and> \<not> verifygroups gc then
                      po\<lparr>po_sites := fold (mark_if (\<lambda>sp. \<not> Freed sp \<and> FeedTrash sp \<and> SITEwantsgroup me sp p)
                            (NGfind (po_table po) ARTjnk)) [0..<length (po_sites po)] (po_sites po), NonExist := True\<rparr>
                    else po\<lparr>NonExist := True\<rparr>) in
          if \<not> newgroup \<and> verifygroups gc then
            Reject REJECT_GROUP (''Nonexistent newsgroup '' @ in_quotes p) True po
          else
            let po = po\<lparr>po_sites := ARTpoisongroup me p (po_sites po)\<rparr> in
            if \<not> mergetogroups gc \<or> take 3 p \<noteq> ''to.'' \<or> drop 3 p = [] then Continue po
            else
              case NGfind (po_table po) ''to'' of
                None \<Rightarrow> Crash
              | Some n \<Rightarrow>
                  let po = po\<lparr>ToGroup := True,
                        po_sites := (case SITEfind (po_sites po) (drop 3 p) of
                            Some i \<Rightarrow> SITEmark (Some n) i (po_sites po) | None \<Rightarrow> po_sites po)\<rparr> in
                  known_group gc n (drop 3 p) po)"

fun post_groups :: "groupconf \<Rightarrow> octets list \<Rightarrow> posting \<Rightarrow> posting outcome" where
  "post_groups gc [] po = Continue po"
| "post_groups gc (p # groups) po =
     (case post_group gc p po of
        Continue po \<Rightarrow> post_groups gc groups po
      | Reject t msg r po \<Rightarrow> Reject t msg r po
      | Crash \<Rightarrow> Crash)"

section \<open>Control messages, junk, and the sites that do not want it\<close>

definition post_control :: "groupconf \<Rightarrow> posting \<Rightarrow> posting outcome" where
  "post_control gc po =
     (if IsControl gc \<and> Accepted po \<and> \<not> ToGroup po then
        (case (case NGfind (po_table po) (''control.'' @ ControlWord gc) of
                 Some n \<Rightarrow> Some n | None \<Rightarrow> NGfind (po_table po) ARTctl) of
           None \<Rightarrow> Crash
         | Some n \<Rightarrow>
             let po = po\<lparr>po_table := set_postcount n (po_table po), GroupPointers := [n]\<rparr> in
             Continue (po\<lparr>po_sites := mark_listed (\<lambda>sp. True) (Some n) (ng_Sites (Groups (po_table po) ! n)) (po_sites po)\<rparr>))
      else Continue po)"

text \<open>\<open>first_group\<close> is the first name of the Newsgroups field.\<close>

definition post_junk :: "groupconf \<Rightarrow> octets \<Rightarrow> posting \<Rightarrow> posting outcome" where
  "post_junk gc first_group po =
     (if Accepted po \<and> GroupPointers po \<noteq> [] then Continue po
      else if \<not> Accepted po \<and> (\<not> wanttrash gc \<or> \<not> GroupMissing po) then
        Reject REJECT_GROUP
          ((if NoHistoryUpdate po then ''Can't post to '' else ''Unwanted newsgroup '') @ in_quotes first_group)
          (\<not> NoHistoryUpdate po) po
      else
        case NGfind (po_table po) ARTjnk of
          None \<Rightarrow> Crash
        | Some n \<Rightarrow>
            let po = po\<lparr>po_table := set_postcount n (po_table po), GroupPointers := GroupPointers po @ [n]\<rparr> in
            Continue (po\<lparr>po_sites := mark_listed (\<lambda>sp. \<not> Poison sp \<and> \<not> (ControlOnly sp \<and> \<not> IsControl gc)) (Some n)
              (ng_Sites (Groups (po_table po) ! n)) (po_sites po)\<rparr>))"

definition unwanted :: "groupconf \<Rightarrow> posting \<Rightarrow> SITE \<Rightarrow> bool" where
  "unwanted gc po sp \<longleftrightarrow> Poison sp \<or> ControlOnly sp \<and> \<not> IsControl gc \<or> DontWantNonExist sp \<and> NonExist po"

definition undo_unwanted :: "groupconf \<Rightarrow> posting \<Rightarrow> posting" where
  "undo_unwanted gc po =
     po\<lparr>po_sites := map (\<lambda>sp. if unwanted gc po sp then sp\<lparr>Sendit := False\<rparr> else sp) (po_sites po)\<rparr>"

text \<open>The whole: from the sites as they are at the start of \<open>ARTpost\<close> to the call of \<open>ARTassignnumbers\<close>.\<close>

definition choose_groups :: "groupconf \<Rightarrow> octets list \<Rightarrow> octets \<Rightarrow> SITE list \<Rightarrow> ngtable \<Rightarrow> posting outcome" where
  "choose_groups gc groups first_group sites st =
     (case post_groups gc groups
          \<lparr>po_sites = clear_sites sites, po_table = st, GroupPointers = [], GroupMissing = False, Accepted = False,
           NoHistoryUpdate = False, ToGroup = False, NonExist = False\<rparr> of
        Continue po \<Rightarrow>
          (case post_control gc po of
             Continue po \<Rightarrow>
               (case post_junk gc first_group po of
                  Continue po \<Rightarrow> Continue (undo_unwanted gc po)
                | Reject t msg r po \<Rightarrow> Reject t msg r po
                | Crash \<Rightarrow> Crash)
           | Reject t msg r po \<Rightarrow> Reject t msg r po
           | Crash \<Rightarrow> Crash)
      | Reject t msg r po \<Rightarrow> Reject t msg r po
      | Crash \<Rightarrow> Crash)"
section \<open>What a group does\<close>

text \<open>The tables differ at most in the counts of posts.\<close>

definition like :: "ngtable \<Rightarrow> ngtable \<Rightarrow> bool" where
  "like st st' \<longleftrightarrow> Active st' = Active st \<and> NGHtable st' = NGHtable st \<and>
     length (Groups st') = length (Groups st) \<and>
     (\<forall>n<length (Groups st). (Groups st' ! n)\<lparr>ng_PostCount := 0\<rparr> = (Groups st ! n)\<lparr>ng_PostCount := 0\<rparr>)"

lemma nth_update: "xs[i := x] ! j = (if i = j \<and> j < length xs then x else xs ! j)"
  by (cases "i < length xs") (auto simp: nth_list_update list_update_beyond)

lemma like_set_postcount: "like st st' \<Longrightarrow> like st (set_postcount n st')"
  by (auto simp: like_def set_postcount_def nth_update)

lemma like_group:
  assumes "like st st'" "n < length (Groups st)"
  shows "ng_Name (Groups st' ! n) = ng_Name (Groups st ! n)" "ng_Sites (Groups st' ! n) = ng_Sites (Groups st ! n)"
    "ng_Poison (Groups st' ! n) = ng_Poison (Groups st ! n)" "ng_Alias (Groups st' ! n) = ng_Alias (Groups st ! n)"
    "flag st' n = flag st n"
proof -
  let ?f = "\<lambda>g. g\<lparr>ng_PostCount := 0\<rparr>"
  have "?f (Groups st' ! n) = ?f (Groups st ! n)" using assms by (simp add: like_def)
  then have s: "ng_Name (?f (Groups st' ! n)) = ng_Name (?f (Groups st ! n))" "ng_Sites (?f (Groups st' ! n)) = ng_Sites (?f (Groups st ! n))"
    "ng_Poison (?f (Groups st' ! n)) = ng_Poison (?f (Groups st ! n))" "ng_Alias (?f (Groups st' ! n)) = ng_Alias (?f (Groups st ! n))"
    "ng_Rest (?f (Groups st' ! n)) = ng_Rest (?f (Groups st ! n))" by metis+
  then show "ng_Name (Groups st' ! n) = ng_Name (Groups st ! n)" "ng_Sites (Groups st' ! n) = ng_Sites (Groups st ! n)"
    "ng_Poison (Groups st' ! n) = ng_Poison (Groups st ! n)" "ng_Alias (Groups st' ! n) = ng_Alias (Groups st ! n)" by simp_all
  show "flag st' n = flag st n" using s(5) assms(1) by (simp add: flag_def like_def)
qed

lemma like_find: "like st st' \<Longrightarrow> table_ok (Groups st) (NGHtable st) \<Longrightarrow> NGfind st' = NGfind st"
proof (rule NGfind_names)
  assume l: "like st st'"
  then have "length (Groups st') = length (Groups st)" by (simp add: like_def)
  then show "map ng_Name (Groups st') = map ng_Name (Groups st)" by (intro nth_equalityI) (simp_all add: like_group(1) [OF l])
qed (simp_all add: like_def)

text \<open>What stays of a site while the groups are gone through.\<close>

definition strip :: "SITE \<Rightarrow> SITE" where
  "strip sp = sp\<lparr>Poison := False, Sendit := False, ng := None\<rparr>"

lemma strip_sel:
  assumes "strip a = strip b"
  shows "Freed a = Freed b" "Patterns a = Patterns b" "PoisonEntry a = PoisonEntry b" "FeedTrash a = FeedTrash b"
    "ControlOnly a = ControlOnly b" "DontWantNonExist a = DontWantNonExist b"
proof -
  have "Freed (strip a) = Freed (strip b)" "Patterns (strip a) = Patterns (strip b)" "PoisonEntry (strip a) = PoisonEntry (strip b)"
    "FeedTrash (strip a) = FeedTrash (strip b)" "ControlOnly (strip a) = ControlOnly (strip b)"
    "DontWantNonExist (strip a) = DontWantNonExist (strip b)" using assms by simp_all
  then show "Freed a = Freed b" "Patterns a = Patterns b" "PoisonEntry a = PoisonEntry b" "FeedTrash a = FeedTrash b"
    "ControlOnly a = ControlOnly b" "DontWantNonExist a = DontWantNonExist b" by (simp_all add: strip_def)
qed

definition changed :: "SITE list \<Rightarrow> SITE list \<Rightarrow> (nat \<Rightarrow> bool) \<Rightarrow> (nat \<Rightarrow> bool) \<Rightarrow> bool" where
  "changed s s' P M \<longleftrightarrow> length s' = length s \<and>
     (\<forall>j<length s. strip (s' ! j) = strip (s ! j) \<and> (Poison (s' ! j) \<longleftrightarrow> Poison (s ! j) \<or> P j) \<and>
        (Sendit (s' ! j) \<longleftrightarrow> Sendit (s ! j) \<or> M j))"

lemma changed_trans: "changed s s' P M \<Longrightarrow> changed s' s'' P' M' \<Longrightarrow> changed s s'' (\<lambda>j. P j \<or> P' j) (\<lambda>j. M j \<or> M' j)"
  by (simp add: changed_def)

lemma changed_cong:
  "changed s s' P M \<Longrightarrow> (\<And>j. j < length s \<Longrightarrow> P j = P' j) \<Longrightarrow> (\<And>j. j < length s \<Longrightarrow> M j = M' j) \<Longrightarrow> changed s s' P' M'"
  by (simp add: changed_def)

lemma set_ng_sel [simp]: "strip (set_ng ngp sp) = strip sp" "Poison (set_ng ngp sp) = Poison sp" "Sendit (set_ng ngp sp) = Sendit sp"
  by (simp_all add: set_ng_def strip_def)

lemma strip_flags [simp]: "strip (sp\<lparr>Sendit := b\<rparr>) = strip sp" "strip (sp\<lparr>Poison := b\<rparr>) = strip sp"
  by (simp_all add: strip_def)

lemma SITEmark_changed: "i < length s \<Longrightarrow> changed s (SITEmark ngp i s) (\<lambda>_. False) (\<lambda>j. j = i)"
  unfolding SITEmark_def changed_def Let_def by (auto simp: nth_update split: option.split)

definition plain_test :: "(SITE \<Rightarrow> bool) \<Rightarrow> bool" where
  "plain_test P \<longleftrightarrow> (\<forall>a b. strip a = strip b \<and> Poison a = Poison b \<longrightarrow> P a = P b)"

lemma fold_mark_if:
  "plain_test P \<Longrightarrow> \<forall>j\<in>set js. j < length s \<Longrightarrow>
     changed s (fold (mark_if P ngp) js s) (\<lambda>_. False) (\<lambda>j. j \<in> set js \<and> P (s ! j))"
proof (induction js arbitrary: s)
  case (Cons i js)
  let ?s = "mark_if P ngp i s"
  have one: "changed s ?s (\<lambda>_. False) (\<lambda>j. j = i \<and> P (s ! i))"
    using Cons.prems(2) SITEmark_changed [of i s ngp] by (cases "P (s ! i)") (simp_all add: mark_if_def changed_def)
  have P: "P (?s ! j) = P (s ! j)" if "j < length s" for j
    using that Cons.prems(1) one unfolding changed_def plain_test_def by blast
  have "changed ?s (fold (mark_if P ngp) js ?s) (\<lambda>_. False) (\<lambda>j. j \<in> set js \<and> P (?s ! j))"
    using Cons.prems one by (intro Cons.IH) (simp_all add: changed_def)
  then have "changed s (fold (mark_if P ngp) (i # js) s) (\<lambda>j. False \<or> False) (\<lambda>j. (j = i \<and> P (s ! i)) \<or> (j \<in> set js \<and> P (?s ! j)))"
    using changed_trans [OF one] by simp
  then show ?case by (rule changed_cong) (auto simp: P)
qed (simp add: changed_def)

lemma set_listed: "set (listed xs) = {j. int j \<in> set xs}"
proof -
  have "j \<in> nat ` {x. x \<in> set xs \<and> 0 \<le> x} \<longleftrightarrow> int j \<in> set xs" for j by force
  then show ?thesis by (auto simp: listed_def)
qed

lemma poison_sites_changed:
  assumes "\<forall>x\<in>set xs. x < int (length s)"
  shows "changed s (poison_sites xs s) (\<lambda>j. int j \<in> set xs) (\<lambda>_. False)"
proof -
  let ?f = "\<lambda>i s. s[i := (s ! i)\<lparr>Poison := True\<rparr>]"
  have "\<forall>j\<in>set js. j < length s \<Longrightarrow> changed s (fold ?f js s) (\<lambda>j. j \<in> set js) (\<lambda>_. False)" for js
  proof (induction js arbitrary: s)
    case (Cons i js)
    have "changed (?f i s) (fold ?f js (?f i s)) (\<lambda>j. j \<in> set js) (\<lambda>_. False)" using Cons.prems by (intro Cons.IH) simp
    then show ?case using Cons.prems by (auto simp: changed_def nth_list_update)
  qed (simp add: changed_def)
  moreover have "\<forall>j\<in>set (listed xs). j < length s" using assms by (auto simp: set_listed)
  ultimately have "changed s (fold ?f (listed xs) s) (\<lambda>j. j \<in> set (listed xs)) (\<lambda>_. False)" by blast
  then show ?thesis by (simp add: poison_sites_def set_listed)
qed

lemma mark_listed_changed:
  assumes "plain_test P" "\<forall>x\<in>set xs. x < int (length s)"
  shows "changed s (mark_listed P ngp xs s) (\<lambda>_. False) (\<lambda>j. int j \<in> set xs \<and> P (s ! j))"
proof -
  have "\<forall>j\<in>set (listed xs). j < length s" using assms(2) by (auto simp: set_listed)
  then show ?thesis unfolding mark_listed_def using fold_mark_if [OF assms(1), of "listed xs" s ngp] by (simp add: set_listed)
qed

lemma wants_strip: "strip a = strip b \<Longrightarrow> SITEwantsgroup me a g = SITEwantsgroup me b g \<and> SITEpoisongroup me a g = SITEpoisongroup me b g"
  using strip_sel(2) [of a b] by (intro wants_cong) simp_all

lemma plain_tests:
  "plain_test (\<lambda>sp. \<not> Poison sp)" "plain_test (\<lambda>sp. True)" "plain_test (\<lambda>sp. \<not> Freed sp \<and> SITEwantsgroup me sp g)"
  "plain_test (\<lambda>sp. \<not> Freed sp \<and> FeedTrash sp \<and> SITEwantsgroup me sp g)"
  "plain_test (\<lambda>sp. \<not> Poison sp \<and> \<not> (ControlOnly sp \<and> \<not> c))"
  unfolding plain_test_def using strip_sel(1,4,5) wants_strip by blast+
text \<open>
  What the code decides for one group \<open>g\<close>, read off the tables as they are before the article comes: whether site \<open>i\<close> takes it
  for poison, whether it is fed to the site, whether the article is accepted in it and where it is filed then.
\<close>

definition poisons :: "groupconf \<Rightarrow> ngtable \<Rightarrow> SITE list \<Rightarrow> nat \<Rightarrow> octets \<Rightarrow> bool" where
  "poisons gc st sites i g \<longleftrightarrow>
     (case NGfind st g of
        Some n \<Rightarrow> int i \<in> set (ng_Poison (Groups st ! n))
      | None \<Rightarrow> \<not> Freed (sites ! i) \<and> (PoisonEntry (sites ! i) \<or> PoisonEntry (gc_me gc)) \<and> SITEpoisongroup (gc_me gc) (sites ! i) g)"

definition accepts :: "groupconf \<Rightarrow> ngtable \<Rightarrow> octets \<Rightarrow> bool" where
  "accepts gc st g \<longleftrightarrow>
     (case NGfind st g of
        Some n \<Rightarrow> flag st n \<noteq> NF_FLAG_IGNORE \<and> RCcanpost (peer_patterns gc) g \<noteq> 0
      | None \<Rightarrow> LikeNewgroup gc \<and> Approved gc)"

definition feeds_group :: "groupconf \<Rightarrow> ngtable \<Rightarrow> SITE list \<Rightarrow> nat \<Rightarrow> octets \<Rightarrow> bool" where
  "feeds_group gc st sites i g \<longleftrightarrow>
     (case NGfind st g of
        Some n \<Rightarrow> accepts gc st g \<and> int i \<in> set (ng_Sites (Groups st ! n))
      | None \<Rightarrow> \<not> Freed (sites ! i) \<and> SITEwantsgroup (gc_me gc) (sites ! i) g \<and>
          (LikeNewgroup gc \<and> Approved gc \<or> wanttrash gc \<and> FeedTrash (sites ! i)))"

definition filed :: "groupconf \<Rightarrow> ngtable \<Rightarrow> octets \<Rightarrow> nat list" where
  "filed gc st g =
     (case NGfind st g of
        Some n \<Rightarrow> if accepts gc st g \<and> flag st n \<noteq> NF_FLAG_JUNK then [case ng_Alias (Groups st ! n) of Some m \<Rightarrow> m | None \<Rightarrow> n] else []
      | None \<Rightarrow> [])"

definition lacks_group :: "groupconf \<Rightarrow> ngtable \<Rightarrow> octets \<Rightarrow> bool" where
  "lacks_group gc st g \<longleftrightarrow> NGfind st g = None \<and> \<not> (LikeNewgroup gc \<and> Approved gc)"

definition refused :: "groupconf \<Rightarrow> ngtable \<Rightarrow> octets \<Rightarrow> bool" where
  "refused gc st g \<longleftrightarrow>
     (case NGfind st g of
        Some n \<Rightarrow> flag st n \<noteq> NF_FLAG_IGNORE \<and>
          (flag st n = NF_FLAG_MODERATED \<and> \<not> Approved gc \<or> RCcanpost (peer_patterns gc) g < 0)
      | None \<Rightarrow> verifygroups gc \<and> \<not> (LikeNewgroup gc \<and> Approved gc))"

text \<open>The tables fit together: the lists of the groups name sites that are there.\<close>

definition lists_ok :: "ngtable \<Rightarrow> nat \<Rightarrow> bool" where
  "lists_ok st n \<longleftrightarrow> table_ok (Groups st) (NGHtable st) \<and>
     (\<forall>k<length (Groups st). \<forall>x\<in>set (ng_Sites (Groups st ! k)) \<union> set (ng_Poison (Groups st ! k)). x < int n)"

section \<open>All groups\<close>

text \<open>The state when the groups \<open>gs\<close> are behind; \<open>s\<close> and \<open>st\<close> are the sites and the groups at the beginning.\<close>

definition gone_through :: "groupconf \<Rightarrow> ngtable \<Rightarrow> SITE list \<Rightarrow> octets list \<Rightarrow> posting \<Rightarrow> bool" where
  "gone_through gc st s gs po \<longleftrightarrow>
     like st (po_table po) \<and> length (po_sites po) = length s \<and>
     (\<forall>i<length s. strip (po_sites po ! i) = strip (s ! i) \<and>
        (Poison (po_sites po ! i) \<longleftrightarrow> (\<exists>g\<in>set gs. poisons gc st s i g)) \<and>
        (Sendit (po_sites po ! i) \<longrightarrow> (\<exists>g\<in>set gs. feeds_group gc st s i g)) \<and>
        ((\<exists>g\<in>set gs. feeds_group gc st s i g) \<longrightarrow> Sendit (po_sites po ! i) \<or> Poison (po_sites po ! i))) \<and>
     (Accepted po \<longleftrightarrow> (\<exists>g\<in>set gs. accepts gc st g)) \<and>
     (GroupMissing po \<longleftrightarrow> (\<exists>g\<in>set gs. NGfind st g = None)) \<and>
     (NonExist po \<longleftrightarrow> (\<exists>g\<in>set gs. lacks_group gc st g)) \<and>
     GroupPointers po = concat (map (filed gc st) gs) \<and> \<not> ToGroup po"

text \<open>One step: the site list changes as the group says, and the rest is recorded.\<close>

lemma step_through:
  assumes "gone_through gc st s gs po" "like st (po_table po')"
    and "changed (po_sites po) (po_sites po') (\<lambda>i. poisons gc st s i g)
      (\<lambda>i. feeds_group gc st s i g \<and> (NGfind st g = None \<or> \<not> Poison (po_sites po' ! i)))"
    and "Accepted po' \<longleftrightarrow> Accepted po \<or> accepts gc st g" "GroupMissing po' \<longleftrightarrow> GroupMissing po \<or> NGfind st g = None"
    and "NonExist po' \<longleftrightarrow> NonExist po \<or> lacks_group gc st g" "GroupPointers po' = GroupPointers po @ filed gc st g" "\<not> ToGroup po'"
  shows "gone_through gc st s (gs @ [g]) po'"
proof -
  have len: "length (po_sites po) = length s" using assms(1) by (simp add: gone_through_def)
  have "strip (po_sites po' ! i) = strip (s ! i) \<and>
        (Poison (po_sites po' ! i) \<longleftrightarrow> (\<exists>g\<in>set (gs @ [g]). poisons gc st s i g)) \<and>
        (Sendit (po_sites po' ! i) \<longrightarrow> (\<exists>g\<in>set (gs @ [g]). feeds_group gc st s i g)) \<and>
        ((\<exists>g\<in>set (gs @ [g]). feeds_group gc st s i g) \<longrightarrow> Sendit (po_sites po' ! i) \<or> Poison (po_sites po' ! i))"
    if i: "i < length s" for i
  proof -
    have a: "strip (po_sites po' ! i) = strip (po_sites po ! i)"
      "Poison (po_sites po' ! i) \<longleftrightarrow> Poison (po_sites po ! i) \<or> poisons gc st s i g"
      "Sendit (po_sites po' ! i) \<longleftrightarrow> Sendit (po_sites po ! i) \<or>
         feeds_group gc st s i g \<and> (NGfind st g = None \<or> \<not> Poison (po_sites po' ! i))"
      using assms(3) i len unfolding changed_def by metis+
    have b: "strip (po_sites po ! i) = strip (s ! i)"
      "Poison (po_sites po ! i) \<longleftrightarrow> (\<exists>g\<in>set gs. poisons gc st s i g)"
      "Sendit (po_sites po ! i) \<longrightarrow> (\<exists>g\<in>set gs. feeds_group gc st s i g)"
      "(\<exists>g\<in>set gs. feeds_group gc st s i g) \<longrightarrow> Sendit (po_sites po ! i) \<or> Poison (po_sites po ! i)"
      using assms(1) i unfolding gone_through_def by blast+
    show ?thesis using a b by (auto simp del: bex_simps)
  qed
  moreover have "length (po_sites po') = length s" using assms(3) len by (simp add: changed_def)
  ultimately show ?thesis using assms(1,2,4-8) by (auto simp: gone_through_def)
qed
lemma known_group_through:
  assumes inv: "gone_through gc st s gs po" and ok: "lists_ok st (length s)" and n: "NGfind st g = Some n"
    and c: "known_group gc n g po = Continue po'"
  shows "gone_through gc st s (gs @ [g]) po'"
proof -
  define po1 where "po1 = po\<lparr>po_table := set_postcount n (po_table po)\<rparr>"
  define po2 where "po2 = po1\<lparr>po_sites := poison_sites (ng_Poison (Groups (po_table po1) ! n)) (po_sites po1)\<rparr>"
  have nl: "n < length (Groups st)" using ok n NGfind_iff by (simp add: lists_ok_def)
  have l1: "like st (po_table po1)" using inv by (simp add: po1_def gone_through_def like_set_postcount)
  note same = like_group [OF l1 nl]
  have len: "length (po_sites po) = length s" using inv by (simp add: gone_through_def)
  have in_range: "\<forall>x\<in>set (ng_Poison (Groups st ! n)). x < int (length s)" "\<forall>x\<in>set (ng_Sites (Groups st ! n)). x < int (length s)"
    using ok nl by (auto simp: lists_ok_def)
  have p2: "changed (po_sites po) (po_sites po2) (\<lambda>i. poisons gc st s i g) (\<lambda>_. False)"
    using poison_sites_changed [of "ng_Poison (Groups st ! n)" "po_sites po"] in_range(1) len
    by (simp add: po2_def po1_def [symmetric] same poisons_def n) (simp add: po1_def)
  have base: "po_table po2 = po_table po1" "Accepted po2 = Accepted po" "GroupMissing po2 = GroupMissing po" "NonExist po2 = NonExist po"
    "GroupPointers po2 = GroupPointers po" "\<not> ToGroup po2" using inv by (simp_all add: po2_def po1_def gone_through_def)
  have unfed: "gone_through gc st s (gs @ [g]) po'" if "po_sites po' = po_sites po2" "po_table po' = po_table po2" "Accepted po' = Accepted po2"
    "GroupMissing po' = GroupMissing po2" "NonExist po' = NonExist po2" "GroupPointers po' = GroupPointers po2" "ToGroup po' = ToGroup po2"
    "\<not> accepts gc st g"
    using inv
  proof (rule step_through)
    show "changed (po_sites po) (po_sites po') (\<lambda>i. poisons gc st s i g)
        (\<lambda>i. feeds_group gc st s i g \<and> (NGfind st g = None \<or> \<not> Poison (po_sites po' ! i)))"
      unfolding that(1) using p2 by (rule changed_cong) (auto simp: feeds_group_def n that(8))
  qed (use that l1 base in \<open>auto simp: filed_def lacks_group_def n\<close>)
  show ?thesis
  proof (cases "accepts gc st g")
    case False
    then have "flag st n = NF_FLAG_IGNORE \<or> RCcanpost (peer_patterns gc) g = 0" by (simp add: accepts_def n)
    then have "po' = po2 \<or> po' = po2\<lparr>NoHistoryUpdate := True\<rparr>"
      using c unfolding known_group_def Let_def po1_def [symmetric] po2_def [symmetric] same(5) by (auto split: if_split_asm)
    then have same2: "po_sites po' = po_sites po2" "po_table po' = po_table po2" "Accepted po' = Accepted po2"
      "GroupMissing po' = GroupMissing po2" "NonExist po' = NonExist po2" "GroupPointers po' = GroupPointers po2"
      "ToGroup po' = ToGroup po2" by auto
    show ?thesis by (rule unfed [OF same2 False])
  next
    case True
    define po3 where "po3 = po2\<lparr>Accepted := True,
      po_sites := mark_listed (\<lambda>sp. \<not> Poison sp) (Some n) (ng_Sites (Groups (po_table po1) ! n)) (po_sites po2)\<rparr>"
    define m where "m = (case ng_Alias (Groups st ! n) of Some m \<Rightarrow> m | None \<Rightarrow> n)"
    have t3: "flag (po_table po3) n = flag st n" by (simp add: po3_def base(1) same)
    have "po' = (if flag st n = NF_FLAG_JUNK then po3
        else po3\<lparr>GroupPointers := GroupPointers po3 @ [m], po_table := set_postcount m (po_table po3)\<rparr>)"
      using c True unfolding known_group_def Let_def po1_def [symmetric] po2_def [symmetric] po3_def [symmetric] same(4,5) t3 m_def [symmetric]
      by (auto simp: accepts_def n split: if_split_asm)
    then have f: "po_sites po' = po_sites po3" "like st (po_table po')" "Accepted po'" "GroupMissing po' = GroupMissing po"
      "NonExist po' = NonExist po" "GroupPointers po' = GroupPointers po @ filed gc st g" "\<not> ToGroup po'"
      using l1 True by (auto simp: po3_def base filed_def n m_def like_set_postcount)
    have len2: "length (po_sites po2) = length s" using p2 len by (simp add: changed_def)
    have m3: "changed (po_sites po2) (po_sites po3) (\<lambda>_. False) (\<lambda>i. int i \<in> set (ng_Sites (Groups st ! n)) \<and> \<not> Poison (po_sites po2 ! i))"
      using mark_listed_changed [OF plain_tests(1), of "ng_Sites (Groups st ! n)" "po_sites po2" "Some n"] in_range(2) len2
      by (simp add: po3_def same)
    have same_poison: "Poison (po_sites po3 ! i) = Poison (po_sites po2 ! i)" if "i < length s" for i
      using m3 that len2 by (simp add: changed_def)
    show ?thesis
      using inv
    proof (rule step_through)
      show "changed (po_sites po) (po_sites po') (\<lambda>i. poisons gc st s i g)
          (\<lambda>i. feeds_group gc st s i g \<and> (NGfind st g = None \<or> \<not> Poison (po_sites po' ! i)))"
        unfolding f(1) using changed_trans [OF p2 m3] by (rule changed_cong) (auto simp: feeds_group_def n True same_poison len)
    qed (use f True in \<open>auto simp: lacks_group_def n\<close>)
  qed
qed

lemma missing_group_through:
  assumes inv: "gone_through gc st s gs po" and ok: "lists_ok st (length s)" and n: "NGfind st g = None"
    and m: "\<not> mergetogroups gc" and c: "post_group gc g po = Continue po'"
  shows "gone_through gc st s (gs @ [g]) po'"
proof -
  have find: "NGfind (po_table po) = NGfind st" using inv ok by (intro like_find) (simp_all add: gone_through_def lists_ok_def)
  have len: "length (po_sites po) = length s" using inv by (simp add: gone_through_def)
  have strip: "strip (po_sites po ! i) = strip (s ! i)" if "i < length s" for i using inv that by (simp add: gone_through_def)
  define new where "new = (LikeNewgroup gc \<and> Approved gc)"
  define trash where "trash = (wanttrash gc \<and> \<not> verifygroups gc)"
  define po1 where "po1 = po\<lparr>GroupMissing := True\<rparr>"
  define po2 where "po2 = (if new then po1\<lparr>po_sites := ARTsendthegroup (gc_me gc) (po_table po1) g ARTctl (po_sites po1), Accepted := True\<rparr>
      else if trash then po1\<lparr>po_sites := fold (mark_if (\<lambda>sp. \<not> Freed sp \<and> FeedTrash sp \<and> SITEwantsgroup (gc_me gc) sp g)
             (NGfind (po_table po1) ARTjnk)) [0..<length (po_sites po1)] (po_sites po1), NonExist := True\<rparr>
      else po1\<lparr>NonExist := True\<rparr>)"
  have po': "po' = po2\<lparr>po_sites := ARTpoisongroup (gc_me gc) g (po_sites po2)\<rparr>" and v: "new \<or> \<not> verifygroups gc"
    using c m unfolding post_group_def find n
    by (auto simp: Let_def po1_def new_def trash_def po2_def split: if_split_asm)
  have f: "po_table po2 = po_table po" "Accepted po2 \<longleftrightarrow> Accepted po \<or> new" "GroupMissing po2" "NonExist po2 \<longleftrightarrow> NonExist po \<or> \<not> new"
    "GroupPointers po2 = GroupPointers po" "\<not> ToGroup po2" using inv by (auto simp: po2_def po1_def gone_through_def)
  have "changed (po_sites po) (po_sites po2) (\<lambda>_. False) (\<lambda>i. feeds_group gc st (po_sites po) i g)"
  proof (cases "new \<or> trash")
    case True
    then show ?thesis
      using fold_mark_if [OF plain_tests(3), of "[0..<length (po_sites po)]" "po_sites po" "gc_me gc" g "NGfind st ARTctl"]
        fold_mark_if [OF plain_tests(4), of "[0..<length (po_sites po)]" "po_sites po" "gc_me gc" g "NGfind st ARTjnk"]
      by (auto simp: po2_def po1_def ARTsendthegroup_def find feeds_group_def n new_def [symmetric] trash_def elim!: changed_cong)
  next
    case False
    then show ?thesis using v by (auto simp: po2_def po1_def changed_def feeds_group_def n new_def [symmetric] trash_def)
  qed
  then have m2: "changed (po_sites po) (po_sites po2) (\<lambda>_. False) (\<lambda>i. feeds_group gc st s i g)"
    by (rule changed_cong) (auto simp: feeds_group_def n len strip_sel [OF strip] wants_strip [OF strip])
  then have strip2: "length (po_sites po2) = length s" "\<And>i. i < length s \<Longrightarrow> strip (po_sites po2 ! i) = strip (s ! i)"
    using strip len by (auto simp: changed_def)
  have "changed (po_sites po2) (po_sites po') (\<lambda>i. poisons gc st (po_sites po2) i g) (\<lambda>_. False)"
    by (auto simp: po' ARTpoisongroup_def changed_def poisons_def n)
  then have p2: "changed (po_sites po2) (po_sites po') (\<lambda>i. poisons gc st s i g) (\<lambda>_. False)"
    by (rule changed_cong) (auto simp: poisons_def n strip2(1) strip_sel [OF strip2(2)] wants_strip [OF strip2(2)])
  show ?thesis
    using inv
  proof (rule step_through)
    show "changed (po_sites po) (po_sites po') (\<lambda>i. poisons gc st s i g)
        (\<lambda>i. feeds_group gc st s i g \<and> (NGfind st g = None \<or> \<not> Poison (po_sites po' ! i)))"
      using changed_trans [OF m2 p2] by (rule changed_cong) (auto simp: n)
  qed (use inv f in \<open>auto simp: po' accepts_def lacks_group_def filed_def n new_def gone_through_def\<close>)
qed

lemma post_group_through:
  assumes "gone_through gc st s gs po" "lists_ok st (length s)" "\<not> mergetogroups gc" "post_group gc g po = Continue po'"
  shows "gone_through gc st s (gs @ [g]) po'"
proof (cases "NGfind st g")
  case (Some n)
  have "NGfind (po_table po) = NGfind st" using assms(1,2) by (intro like_find) (simp_all add: gone_through_def lists_ok_def)
  then show ?thesis using assms known_group_through [OF assms(1,2) Some] by (simp add: post_group_def Some)
qed (use assms missing_group_through in blast)

lemma post_group_refused:
  assumes "gone_through gc st s gs po" "lists_ok st (length s)" "\<not> mergetogroups gc"
  shows "(\<exists>po'. post_group gc g po = Continue po') \<longleftrightarrow> \<not> refused gc st g"
proof -
  have find: "NGfind (po_table po) = NGfind st" using assms(1,2) by (intro like_find) (simp_all add: gone_through_def lists_ok_def)
  show ?thesis
  proof (cases "NGfind st g")
    case None
    then show ?thesis using assms(3) by (auto simp: post_group_def find refused_def Let_def)
  next
    case (Some n)
    have "n < length (Groups st)" using assms(2) Some NGfind_iff by (simp add: lists_ok_def)
    moreover have "like st (set_postcount n (po_table po))" using assms(1) by (simp add: gone_through_def like_set_postcount)
    ultimately have "flag (set_postcount n (po_table po)) n = flag st n" using like_group(5) by blast
    then show ?thesis by (auto simp: post_group_def find Some known_group_def Let_def refused_def)
  qed
qed

lemma post_groups_through:
  "gone_through gc st s behind po \<Longrightarrow> lists_ok st (length s) \<Longrightarrow> \<not> mergetogroups gc \<Longrightarrow>
   post_groups gc gs po = Continue po' \<Longrightarrow> gone_through gc st s (behind @ gs) po' \<and> list_all (\<lambda>g. \<not> refused gc st g) gs"
proof (induction gs arbitrary: "behind" po)
  case (Cons g gs)
  obtain po1 where one: "post_group gc g po = Continue po1" "post_groups gc gs po1 = Continue po'"
    using Cons.prems(4) by (auto split: outcome.split_asm)
  then have "gone_through gc st s (behind @ [g]) po1" "\<not> refused gc st g"
    using post_group_through post_group_refused Cons.prems(1-3) by blast+
  then show ?case using Cons.IH [of "behind @ [g]" po1] Cons.prems(2,3) one(2) by simp
qed simp
text \<open>
  The group outside the Newsgroups field that an article is filed in: that of its control message, or the junk group when no group
  wants it or none files it.
\<close>

definition extra_group :: "groupconf \<Rightarrow> ngtable \<Rightarrow> octets list \<Rightarrow> nat option" where
  "extra_group gc st gs =
     (if IsControl gc \<and> (\<exists>g\<in>set gs. accepts gc st g) then
        (case NGfind st (''control.'' @ ControlWord gc) of Some n \<Rightarrow> Some n | None \<Rightarrow> NGfind st ARTctl)
      else if concat (map (filed gc st) gs) = [] then NGfind st ARTjnk
      else None)"

definition extra_lists :: "groupconf \<Rightarrow> ngtable \<Rightarrow> octets list \<Rightarrow> nat \<Rightarrow> bool" where
  "extra_lists gc st gs i \<longleftrightarrow>
     (case extra_group gc st gs of Some n \<Rightarrow> int i \<in> set (ng_Sites (Groups st ! n)) | None \<Rightarrow> False)"

lemma filed_accepts: "concat (map (filed gc st) gs) \<noteq> [] \<Longrightarrow> \<exists>g\<in>set gs. accepts gc st g"
  by (auto simp: filed_def split: option.split_asm if_split_asm)

text \<open>After the control group and junk: the sites that are marked, unless something else speaks against them.\<close>

lemma extra_through:
  assumes inv: "gone_through gc st s gs po" and ok: "lists_ok st (length s)"
    and c: "post_control gc po = Continue po1" and j: "post_junk gc name po1 = Continue po2"
  shows "length (po_sites po2) = length s \<and> NonExist po2 = NonExist po \<and>
    GroupPointers po2 = (case extra_group gc st gs of None \<Rightarrow> concat (map (filed gc st) gs) | Some n \<Rightarrow> [n]) \<and>
    (\<forall>i<length s. strip (po_sites po2 ! i) = strip (s ! i) \<and> Poison (po_sites po2 ! i) = Poison (po_sites po ! i) \<and>
       (Sendit (po_sites po2 ! i) \<longrightarrow> Sendit (po_sites po ! i) \<or> extra_lists gc st gs i) \<and>
       (Sendit (po_sites po ! i) \<or> extra_lists gc st gs i \<longrightarrow>
          Sendit (po_sites po2 ! i) \<or> Poison (po_sites po ! i) \<or> ControlOnly (s ! i) \<and> \<not> IsControl gc))"
proof -
  have find: "NGfind (po_table po) = NGfind st" using inv ok by (intro like_find) (simp_all add: gone_through_def lists_ok_def)
  have l: "like st (set_postcount n (po_table po))" for n using inv by (simp add: gone_through_def like_set_postcount)
  have len: "length (po_sites po) = length s" and to: "\<not> ToGroup po" and ap: "Accepted po \<longleftrightarrow> (\<exists>g\<in>set gs. accepts gc st g)"
    and gp: "GroupPointers po = concat (map (filed gc st) gs)"
    and strip: "\<And>i. i < length s \<Longrightarrow> strip (po_sites po ! i) = strip (s ! i)" using inv by (simp_all add: gone_through_def)
  have in_range: "n < length (Groups st) \<and> (\<forall>x\<in>set (ng_Sites (Groups st ! n)). x < int (length s))" if "NGfind st g = Some n" for n g
    using ok that NGfind_iff by (auto simp: lists_ok_def)
  show ?thesis
  proof (cases "IsControl gc \<and> Accepted po")
    case True
    define f where "f = (case NGfind st (''control.'' @ ControlWord gc) of Some n \<Rightarrow> Some n | None \<Rightarrow> NGfind st ARTctl)"
    obtain n where n: "f = Some n" using c True to unfolding post_control_def find f_def [symmetric] by (cases f) auto
    then have e: "extra_group gc st gs = Some n" using True ap by (simp add: extra_group_def f_def)
    obtain g where "NGfind st g = Some n" using n unfolding f_def by (auto split: option.split_asm)
    note r = in_range [OF this]
    then have same: "ng_Sites (Groups (set_postcount n (po_table po)) ! n) = ng_Sites (Groups st ! n)" using like_group(2) l by blast
    have po1: "po_sites po1 = mark_listed (\<lambda>sp. True) (Some n) (ng_Sites (Groups st ! n)) (po_sites po)" "GroupPointers po1 = [n]"
      "Accepted po1" "NonExist po1 = NonExist po" using c True to n unfolding post_control_def find f_def [symmetric]
      by (auto simp: Let_def same)
    then have "po2 = po1" using j by (simp add: post_junk_def)
    moreover have "changed (po_sites po) (po_sites po1) (\<lambda>_. False) (\<lambda>i. int i \<in> set (ng_Sites (Groups st ! n)))"
      using mark_listed_changed [OF plain_tests(2), of "ng_Sites (Groups st ! n)" "po_sites po" "Some n"] r len by (simp add: po1(1))
    ultimately show ?thesis using po1 len strip by (simp add: changed_def e extra_lists_def)
  next
    case False
    then have po1: "po1 = po" using c by (auto simp: post_control_def)
    show ?thesis
    proof (cases "Accepted po \<and> GroupPointers po \<noteq> []")
      case True
      then have "extra_group gc st gs = None" using False ap gp by (auto simp: extra_group_def)
      then show ?thesis using j po1 True len strip gp by (auto simp: post_junk_def extra_lists_def)
    next
      case nojunk: False
      then have "GroupPointers po = []" using filed_accepts gp ap by auto
      obtain n where n: "NGfind st ARTjnk = Some n"
        using j nojunk unfolding post_junk_def po1 find by (auto split: if_split_asm option.split_asm)
      have e: "extra_group gc st gs = Some n" using False ap gp \<open>GroupPointers po = []\<close> n by (auto simp: extra_group_def)
      have same: "ng_Sites (Groups (set_postcount n (po_table po)) ! n) = ng_Sites (Groups st ! n)"
        using like_group(2) l in_range [OF n] by blast
      let ?P = "\<lambda>sp. \<not> Poison sp \<and> \<not> (ControlOnly sp \<and> \<not> IsControl gc)"
      have po2: "po_sites po2 = mark_listed ?P (Some n) (ng_Sites (Groups st ! n)) (po_sites po)" "GroupPointers po2 = [n]"
        "NonExist po2 = NonExist po"
        using j nojunk \<open>GroupPointers po = []\<close> unfolding post_junk_def po1 find n by (auto simp: Let_def same split: if_split_asm)
      have "changed (po_sites po) (po_sites po2) (\<lambda>_. False) (\<lambda>i. int i \<in> set (ng_Sites (Groups st ! n)) \<and> ?P (po_sites po ! i))"
        using mark_listed_changed [OF plain_tests(5), of "ng_Sites (Groups st ! n)" "po_sites po" "IsControl gc" "Some n"]
          in_range [OF n] len by (simp add: po2(1))
      then show ?thesis using po2 len strip strip_sel(5) [OF strip] unfolding changed_def e extra_lists_def by auto
    qed
  qed
qed

text \<open>The parts of a walk that ends well.\<close>

lemma chosen_through:
  assumes "choose_groups gc gs name sites st = Continue po" "lists_ok st (length sites)" "\<not> mergetogroups gc"
  shows "list_all (\<lambda>g. \<not> refused gc st g) gs \<and> (\<exists>po1. gone_through gc st (clear_sites sites) gs po1 \<and>
    (\<exists>po2 po3. post_control gc po1 = Continue po2 \<and> post_junk gc name po2 = Continue po3 \<and> po = undo_unwanted gc po3))"
proof -
  let ?po0 = "\<lparr>po_sites = clear_sites sites, po_table = st, GroupPointers = [], GroupMissing = False, Accepted = False,
           NoHistoryUpdate = False, ToGroup = False, NonExist = False\<rparr>"
  have "gone_through gc st (clear_sites sites) [] ?po0" by (simp add: gone_through_def like_def clear_sites_def)
  moreover have "lists_ok st (length (clear_sites sites))" using assms(2) by (simp add: clear_sites_def)
  moreover obtain po1 where "post_groups gc gs ?po0 = Continue po1" 
      "\<exists>po2 po3. post_control gc po1 = Continue po2 \<and> post_junk gc name po2 = Continue po3 \<and> po = undo_unwanted gc po3"
    using assms(1) unfolding choose_groups_def by (auto split: outcome.split_asm)
  ultimately show ?thesis using post_groups_through [of gc st "clear_sites sites" "[]" ?po0 gs po1] assms(3) by auto
qed

lemma marked_all:
  assumes "choose_groups gc gs name sites st = Continue po" "lists_ok st (length sites)" "\<not> mergetogroups gc" "i < length sites"
  shows "Sendit (po_sites po ! i) \<longleftrightarrow>
    \<not> (\<exists>g\<in>set gs. poisons gc st sites i g) \<and> \<not> (ControlOnly (sites ! i) \<and> \<not> IsControl gc) \<and>
    \<not> (DontWantNonExist (sites ! i) \<and> (\<exists>g\<in>set gs. lacks_group gc st g)) \<and>
    ((\<exists>g\<in>set gs. feeds_group gc st sites i g) \<or> extra_lists gc st gs i)"
proof -
  obtain po1 s where p: "gone_through gc st s gs po1"
    and s: "s = clear_sites sites" and r: "list_all (\<lambda>g. \<not> refused gc st g) gs"
    and rest: "\<exists>po2 po3. post_control gc po1 = Continue po2 \<and> post_junk gc name po2 = Continue po3 \<and> po = undo_unwanted gc po3"
    using chosen_through [OF assms(1-3)] by blast
  then obtain po2 po3 where q: "post_control gc po1 = Continue po2" "post_junk gc name po2 = Continue po3" "po = undo_unwanted gc po3"
    by blast
  have len: "length s = length sites" by (simp add: s clear_sites_def)
  have sel: "Freed (s ! i) = Freed (sites ! i)" "Patterns (s ! i) = Patterns (sites ! i)" "PoisonEntry (s ! i) = PoisonEntry (sites ! i)"
    "FeedTrash (s ! i) = FeedTrash (sites ! i)" "ControlOnly (s ! i) = ControlOnly (sites ! i)"
    "DontWantNonExist (s ! i) = DontWantNonExist (sites ! i)" using assms(4) by (simp_all add: s clear_sites_def)
  have same: "poisons gc st s i g = poisons gc st sites i g" "feeds_group gc st s i g = feeds_group gc st sites i g" for g
    using wants_cong [OF refl sel(2)] by (simp_all add: poisons_def feeds_group_def sel cong: option.case_cong)
  have ok: "lists_ok st (length s)" using assms(2) len by simp
  note e = extra_through [OF p ok q(1,2)]
  have i: "strip (po_sites po3 ! i) = strip (s ! i)" "Poison (po_sites po3 ! i) = Poison (po_sites po1 ! i)"
      "Sendit (po_sites po3 ! i) \<longrightarrow> Sendit (po_sites po1 ! i) \<or> extra_lists gc st gs i"
      "Sendit (po_sites po1 ! i) \<or> extra_lists gc st gs i \<longrightarrow>
         Sendit (po_sites po3 ! i) \<or> Poison (po_sites po1 ! i) \<or> ControlOnly (s ! i) \<and> \<not> IsControl gc"
    using spec [OF conjunct2 [OF conjunct2 [OF conjunct2 [OF e]]], of i] assms(4) unfolding len by blast+
  have k: "Poison (po_sites po1 ! i) \<longleftrightarrow> (\<exists>g\<in>set gs. poisons gc st s i g)"
      "Sendit (po_sites po1 ! i) \<longrightarrow> (\<exists>g\<in>set gs. feeds_group gc st s i g)"
      "NonExist po1 \<longleftrightarrow> (\<exists>g\<in>set gs. lacks_group gc st g)"
    using p assms(4) by (simp_all add: gone_through_def len)
  have k3: "(\<exists>g\<in>set gs. feeds_group gc st s i g) \<longrightarrow> Sendit (po_sites po1 ! i) \<or> Poison (po_sites po1 ! i)"
    using p assms(4) unfolding gone_through_def len by blast
  have "Sendit (po_sites po ! i) \<longleftrightarrow> Sendit (po_sites po3 ! i) \<and> \<not> unwanted gc po3 (po_sites po3 ! i)"
    using e assms(4) len by (simp add: q(3) undo_unwanted_def)
  then show ?thesis using e i k k3 strip_sel(5,6) [OF i(1)] unfolding unwanted_def sel same by blast
qed
text \<open>
  C6: Who is fed an article, before its size, path and distributions are looked at. Let the lists of the groups name sites that are in
  the table, and let groups \<open>to.\<close> not be merged. Whenever \<open>ARTpost\<close> does not reject the article on the way through its
  newsgroups, a site is marked for it if and only if no group of the article is poison to it, it does not take control messages only
  (unless the article is one), it takes articles with unknown groups (unless there is none), and it is fed one of the groups or the control
  or junk group that the article is put in besides. A group that is poison counts wherever it stands in the Newsgroups field.
\<close>

theorem marked_sites:
  assumes "choose_groups gc gs name sites st = Continue po" "lists_ok st (length sites)" "\<not> mergetogroups gc" "i < length sites"
  shows "Sendit (po_sites po ! i) \<longleftrightarrow>
    \<not> (\<exists>g\<in>set gs. poisons gc st sites i g) \<and> \<not> (ControlOnly (sites ! i) \<and> \<not> IsControl gc) \<and>
    \<not> (DontWantNonExist (sites ! i) \<and> (\<exists>g\<in>set gs. lacks_group gc st g)) \<and>
    ((\<exists>g\<in>set gs. feeds_group gc st sites i g) \<or> extra_lists gc st gs i)"
  by (rule marked_all [OF assms])

lemma post_groups_continue:
  "gone_through gc st s behind po \<Longrightarrow> lists_ok st (length s) \<Longrightarrow> \<not> mergetogroups gc \<Longrightarrow>
   list_all (\<lambda>g. \<not> refused gc st g) gs \<Longrightarrow> \<exists>po'. post_groups gc gs po = Continue po'"
proof (induction gs arbitrary: behind po)
  case (Cons g gs)
  then obtain po1 where one: "post_group gc g po = Continue po1" using post_group_refused by fastforce
  then show ?case using Cons.IH [OF post_group_through [OF Cons.prems(1-3) one]] Cons.prems by simp
qed simp

lemma post_groups_no_crash: "\<not> mergetogroups gc \<Longrightarrow> post_groups gc gs po \<noteq> Crash"
proof (induction gs arbitrary: po)
  case (Cons g gs)
  have "post_group gc g po \<noteq> Crash"
    using Cons.prems by (auto simp: post_group_def known_group_def Let_def split: option.split)
  then show ?case using Cons by (auto split: outcome.split)
qed simp

lemma passes_iff:
  assumes "lists_ok st (length sites)" "\<not> mergetogroups gc" "NGfind st ARTjnk \<noteq> None" "NGfind st ARTctl \<noteq> None"
  shows "((\<exists>po. choose_groups gc gs name sites st = Continue po) \<longleftrightarrow>
      \<not> (\<exists>g\<in>set gs. refused gc st g) \<and> ((\<exists>g\<in>set gs. accepts gc st g) \<or> wanttrash gc \<and> (\<exists>g\<in>set gs. NGfind st g = None))) \<and>
    choose_groups gc gs name sites st \<noteq> Crash"
proof -
  let ?s = "clear_sites sites"
  let ?po0 = "\<lparr>po_sites = ?s, po_table = st, GroupPointers = [], GroupMissing = False, Accepted = False,
           NoHistoryUpdate = False, ToGroup = False, NonExist = False\<rparr>"
  have g0: "gone_through gc st ?s [] ?po0" by (simp add: gone_through_def like_def clear_sites_def)
  have ok: "lists_ok st (length ?s)" using assms(1) by (simp add: clear_sites_def)
  show ?thesis
  proof (cases "\<exists>po. post_groups gc gs ?po0 = Continue po")
    case False
    have "\<exists>g\<in>set gs. refused gc st g" using post_groups_continue [OF g0 ok assms(2), of gs] False by (auto simp: list_all_iff)
    moreover have "post_groups gc gs ?po0 \<noteq> Crash" by (rule post_groups_no_crash [OF assms(2)])
    ultimately show ?thesis using False by (auto simp: choose_groups_def split: outcome.split)
  next
    case True
    then obtain po1 where q: "post_groups gc gs ?po0 = Continue po1" by blast
    then have p: "gone_through gc st ?s gs po1" "list_all (\<lambda>g. \<not> refused gc st g) gs"
      using post_groups_through [OF g0 ok assms(2)] by simp_all
    have find: "NGfind (po_table po1) = NGfind st" using p ok by (intro like_find) (simp_all add: gone_through_def lists_ok_def)
    have f: "Accepted po1 \<longleftrightarrow> (\<exists>g\<in>set gs. accepts gc st g)" "GroupMissing po1 \<longleftrightarrow> (\<exists>g\<in>set gs. NGfind st g = None)" "\<not> ToGroup po1"
      using p(1) by (simp_all add: gone_through_def)
    have tail: "post_control gc po1 \<noteq> Crash" "\<And>t m r po2. post_control gc po1 \<noteq> Reject t m r po2"
      using assms(4) by (auto simp: post_control_def find Let_def split: option.split)
    have after: "po2 = po1 \<or> Accepted po2 \<and> GroupPointers po2 \<noteq> [] \<and> Accepted po1" if "post_control gc po1 = Continue po2" for po2
      using that by (auto simp: post_control_def Let_def split: if_split_asm option.split_asm)
    then have junk: "post_junk gc name po2 \<noteq> Crash"
      "(\<exists>po3. post_junk gc name po2 = Continue po3) \<longleftrightarrow> Accepted po1 \<or> wanttrash gc \<and> GroupMissing po1"
      if "post_control gc po1 = Continue po2" for po2
      using that assms(3) by (auto simp: post_junk_def find Let_def split: option.split)
    obtain po2 where po2: "post_control gc po1 = Continue po2" using tail by (cases "post_control gc po1") auto
    have "(\<exists>po. choose_groups gc gs name sites st = Continue po) \<longleftrightarrow> (\<exists>po3. post_junk gc name po2 = Continue po3)"
      "choose_groups gc gs name sites st \<noteq> Crash"
      using junk(1) [OF po2] by (auto simp: choose_groups_def q po2 split: outcome.split)
    then show ?thesis
      using p(2) f junk(2) [OF po2] by (auto simp: list_all_iff)
  qed
qed

text \<open>
  C8: Which articles get through and where they are filed. Let the active file have the junk and the control group. \<open>ARTpost\<close> lets an
  article pass exactly when no group refuses it (moderated and not approved, poison for the peer that sends it, or unknown with
  \<open>verifygroups\<close>) and either a group accepts it or trash is wanted and a group is unknown; nothing else stops it, and no group that is
  not there is used. It is filed in the groups that accept it, an alias standing for its target, unless the control or junk group
  takes it.
\<close>

theorem accepted_articles:
  assumes "lists_ok st (length sites)" "\<not> mergetogroups gc" "NGfind st ARTjnk \<noteq> None" "NGfind st ARTctl \<noteq> None"
  shows "((\<exists>po. choose_groups gc gs name sites st = Continue po) \<longleftrightarrow>
      \<not> (\<exists>g\<in>set gs. refused gc st g) \<and> ((\<exists>g\<in>set gs. accepts gc st g) \<or> wanttrash gc \<and> (\<exists>g\<in>set gs. NGfind st g = None))) \<and>
    choose_groups gc gs name sites st \<noteq> Crash \<and>
    (\<forall>po. choose_groups gc gs name sites st = Continue po \<longrightarrow>
      GroupPointers po = (case extra_group gc st gs of None \<Rightarrow> concat (map (filed gc st) gs) | Some n \<Rightarrow> [n]))"
proof -
  have filing: "GroupPointers po = (case extra_group gc st gs of None \<Rightarrow> concat (map (filed gc st) gs) | Some n \<Rightarrow> [n])"
    if c: "choose_groups gc gs name sites st = Continue po" for po
  proof -
    obtain po1 po2 po3 where q: "gone_through gc st (clear_sites sites) gs po1" "post_control gc po1 = Continue po2" "post_junk gc name po2 = Continue po3"
      "po = undo_unwanted gc po3" using chosen_through [OF c assms(1,2)] by blast
    then show ?thesis using extra_through [OF q(1) _ q(2,3)] assms(1) by (simp add: undo_unwanted_def clear_sites_def)
  qed
  then show ?thesis using passes_iff [OF assms] by blast
qed

text \<open>The table of groups that a newsfeeds file was read for.\<close>

lemma subscribed_table:
  assumes "subscribed st fd" "names_ok st"
  shows "NGfind (Table fd) = NGfind st" "NGfind st g = Some n \<Longrightarrow> n < length (Groups st) \<and> ng_Name (Groups st ! n) = g"
    "NGfind st g = Some n \<Longrightarrow> flag (Table fd) n = flag st n \<and> ng_Alias (Groups (Table fd) ! n) = ng_Alias (Groups st ! n)"
    "NGfind st g = Some n \<Longrightarrow>
      (int i \<in> set (ng_Sites (Groups (Table fd) ! n)) \<longleftrightarrow> i < length (Sites fd) \<and> SITEwantsgroup (ME fd) (Sites fd ! i) g) \<and>
      (int i \<in> set (ng_Poison (Groups (Table fd) ! n)) \<longleftrightarrow> i < length (Sites fd) \<and> SITEpoisongroup (ME fd) (Sites fd ! i) g)"
    "lists_ok (Table fd) (length (Sites fd))"
proof -
  have ok: "table_ok (Groups st) (NGHtable st)" using assms(2) by (simp add: names_ok_def)
  have names: "map ng_Name (Groups (Table fd)) = map ng_Name (Groups st)" "NGHtable (Table fd) = NGHtable st"
    using assms(1) by (simp_all add: subscribed_def)
  show "NGfind (Table fd) = NGfind st" by (rule NGfind_names [OF names ok])
  have in_range: "n < length (Groups st) \<and> ng_Name (Groups st ! n) = g" if "NGfind st g = Some n" for g n
    using that NGfind_iff [OF ok] by simp
  then show "NGfind st g = Some n \<Longrightarrow> n < length (Groups st) \<and> ng_Name (Groups st ! n) = g" by blast
  have lists: "(int i \<in> set (ng_Sites (Groups (Table fd) ! k)) \<longleftrightarrow>
           i < length (Sites fd) \<and> SITEwantsgroup (ME fd) (Sites fd ! i) (ng_Name (Groups st ! k))) \<and>
        (int i \<in> set (ng_Poison (Groups (Table fd) ! k)) \<longleftrightarrow>
           i < length (Sites fd) \<and> SITEpoisongroup (ME fd) (Sites fd ! i) (ng_Name (Groups st ! k)))" if "k < length (Groups st)" for k i
    using assms(1) that by (simp add: subscribed_def)
  show "flag (Table fd) n = flag st n \<and> ng_Alias (Groups (Table fd) ! n) = ng_Alias (Groups st ! n)" if "NGfind st g = Some n"
    using assms(1) in_range [OF that] by (simp add: subscribed_def flag_def)
  show "(int i \<in> set (ng_Sites (Groups (Table fd) ! n)) \<longleftrightarrow> i < length (Sites fd) \<and> SITEwantsgroup (ME fd) (Sites fd ! i) g) \<and>
      (int i \<in> set (ng_Poison (Groups (Table fd) ! n)) \<longleftrightarrow> i < length (Sites fd) \<and> SITEpoisongroup (ME fd) (Sites fd ! i) g)"
    if "NGfind st g = Some n"
    using lists [of n i] in_range [OF that] by auto
  have "x < int (length (Sites fd))" if k: "k < length (Groups st)"
    and x: "x \<in> set (ng_Sites (Groups (Table fd) ! k)) \<union> set (ng_Poison (Groups (Table fd) ! k))" for k x
  proof (cases "x < 0")
    case False
    then have "x = int (nat x)" by simp
    then show ?thesis using lists [OF k, of "nat x"] x by auto
  qed linarith
  moreover have "length (Groups (Table fd)) = length (Groups st)" using names(1) by (rule map_eq_imp_length_eq)
  moreover have "table_ok (Groups (Table fd)) (NGHtable (Table fd))" using table_ok_cong [OF names(1) ok] names(2) by simp
  ultimately show "lists_ok (Table fd) (length (Sites fd))" by (simp add: lists_ok_def)
qed

section \<open>Examples\<close>

text \<open>A table made of groups alone.\<close>

definition table_of :: "octets \<Rightarrow> NEWSGROUP list \<Rightarrow> ngtable" where
  "table_of active gs = \<lparr>Active = active, Groups = gs,
     NGHtable = map (\<lambda>j. filter (\<lambda>i. NGH_BUCKET (ng_Name (gs ! i)) = j) [0..<length gs]) [0..<NGH_SIZE]\<rparr>"

lemma table_of_ok: "distinct (map ng_Name gs) \<Longrightarrow> table_ok (Groups (table_of active gs)) (NGHtable (table_of active gs))"
  by (auto simp: table_ok_def table_of_def)

definition a_group :: "octets \<Rightarrow> nat \<Rightarrow> nat \<Rightarrow> int list \<Rightarrow> int list \<Rightarrow> NEWSGROUP" where
  "a_group name start rest sites poison = \<lparr>ng_Name = name, ng_Last = 1, ng_Filenum = 0, ng_Lastwidth = 10, ng_PostCount = 0,
     ng_LastString = start, ng_Rest = rest, ng_Sites = sites, ng_Poison = poison, ng_Alias = None\<rparr>"

definition three_groups :: ngtable where
  "three_groups = table_of (''misc.test 0000000001 0000000001 y'' @ [LF] @ ''control 0000000001 0000000001 n'' @ [LF] @
       ''junk 0000000001 0000000001 y'' @ [LF])
     [a_group ''misc.test'' 10 32 [0, 1] [1], a_group ''control'' 42 64 [] [], a_group ''junk'' 71 93 [] []]"

definition two_feeds :: "SITE list" where
  "two_feeds = [SITEnull\<lparr>Name := ''one''\<rparr>, SITEnull\<lparr>Name := ''two''\<rparr>]"

definition example_groupconf :: groupconf where
  "example_groupconf = \<lparr>wanttrash = False, verifygroups = False, mergetogroups = False, gc_me = SITEnull, peer_patterns = None,
     Approved = False, LikeNewgroup = False, IsControl = False, ControlWord = []\<rparr>"

lemma three_groups_ok: "lists_ok three_groups (length two_feeds)"
  using table_of_ok [of "Groups three_groups"]
  by (auto simp: lists_ok_def three_groups_def table_of_def a_group_def two_feeds_def less_Suc_eq eval_nat_numeral)

lemma three_groups_found:
  "NGfind three_groups ''misc.test'' = Some 0" "NGfind three_groups ARTctl = Some 1" "NGfind three_groups ARTjnk = Some 2"
proof -
  have ok: "table_ok (Groups three_groups) (NGHtable three_groups)" using three_groups_ok by (simp add: lists_ok_def)
  show "NGfind three_groups ''misc.test'' = Some 0" "NGfind three_groups ARTctl = Some 1" "NGfind three_groups ARTjnk = Some 2"
    by (simp_all add: NGfind_iff [OF ok] ARTctl_def ARTjnk_def) (simp_all add: three_groups_def table_of_def a_group_def)
qed

lemma three_groups_flag: "flag three_groups 0 = CHR ''y''"
  by (simp add: flag_def three_groups_def table_of_def a_group_def)

lemma example_decisions:
  "\<not> refused example_groupconf three_groups ''misc.test''" "accepts example_groupconf three_groups ''misc.test''"
  "filed example_groupconf three_groups ''misc.test'' = [0]"
  by (simp_all add: refused_def accepts_def filed_def three_groups_found three_groups_flag NF_FLAG_IGNORE_def NF_FLAG_MODERATED_def
      NF_FLAG_JUNK_def RCcanpost_def example_groupconf_def)
    (simp_all add: three_groups_def table_of_def a_group_def)

lemma example_passes:
  "\<exists>po. choose_groups example_groupconf [''misc.test''] ''misc.test'' two_feeds three_groups = Continue po"
  using passes_iff [OF three_groups_ok, of example_groupconf "[''misc.test'']" "''misc.test''"] example_decisions
  by (simp add: three_groups_found example_groupconf_def)

theorem accepted_articles_witness:
  "\<exists>po. choose_groups example_groupconf [''misc.test''] ''misc.test'' two_feeds three_groups = Continue po \<and> GroupPointers po = [0]"
  using accepted_articles [OF three_groups_ok, of example_groupconf "[''misc.test'']" "''misc.test''"] example_decisions
  by (auto simp: three_groups_found extra_group_def) (auto simp: example_groupconf_def)

theorem marked_sites_witness:
  "\<exists>po. choose_groups example_groupconf [''misc.test''] ''misc.test'' two_feeds three_groups = Continue po \<and>
     Sendit (po_sites po ! 0) \<and> \<not> Sendit (po_sites po ! 1)"
proof -
  obtain po where po: "choose_groups example_groupconf [''misc.test''] ''misc.test'' two_feeds three_groups = Continue po"
    using example_passes by blast
  have m: "\<not> mergetogroups example_groupconf" by (simp add: example_groupconf_def)
  have sites: "Groups three_groups ! 0 = a_group ''misc.test'' 10 32 [0, 1] [1]" by (simp add: three_groups_def table_of_def)
  have "poisons example_groupconf three_groups two_feeds 1 ''misc.test''" "\<not> poisons example_groupconf three_groups two_feeds 0 ''misc.test''"
    "feeds_group example_groupconf three_groups two_feeds 0 ''misc.test''"
    using example_decisions(2) by (simp_all add: poisons_def feeds_group_def three_groups_found sites) (simp_all add: a_group_def)
  moreover have "\<not> lacks_group example_groupconf three_groups ''misc.test''" by (simp add: lacks_group_def three_groups_found)
  moreover have "\<not> ControlOnly (two_feeds ! 0)" by (simp add: two_feeds_def SITEnull_def)
  ultimately have "Sendit (po_sites po ! 0) \<and> \<not> Sendit (po_sites po ! 1)"
    using marked_sites [OF po three_groups_ok m, of 0] marked_sites [OF po three_groups_ok m, of 1]
    by (simp add: two_feeds_def del: One_nat_def)
  then show ?thesis using po by blast
qed

lemma one_group_found: "NGfind one_group ''misc.test'' = Some 0"
  using NGfind_iff [of one_group "''misc.test''" 0] one_group_ok by (simp add: names_ok_def) (simp add: one_group_def)

lemma passes_when_filed:
  assumes "lists_ok st (length sites)" "\<not> mergetogroups gc" "\<not> IsControl gc"
    and "\<forall>g\<in>set gs. \<not> refused gc st g" "\<exists>g\<in>set gs. filed gc st g \<noteq> []"
  shows "\<exists>po. choose_groups gc gs name sites st = Continue po"
proof -
  let ?po0 = "\<lparr>po_sites = clear_sites sites, po_table = st, GroupPointers = [], GroupMissing = False, Accepted = False,
           NoHistoryUpdate = False, ToGroup = False, NonExist = False\<rparr>"
  have g0: "gone_through gc st (clear_sites sites) [] ?po0" by (simp add: gone_through_def like_def clear_sites_def)
  have ok: "lists_ok st (length (clear_sites sites))" using assms(1) by (simp add: clear_sites_def)
  obtain po1 where q: "post_groups gc gs ?po0 = Continue po1"
    using post_groups_continue [OF g0 ok assms(2)] assms(4) by (auto simp: list_all_iff)
  then have "gone_through gc st (clear_sites sites) ([] @ gs) po1" using post_groups_through [OF g0 ok assms(2)] by blast
  moreover have "concat (map (filed gc st) gs) \<noteq> []" using assms(5) by auto
  ultimately have "Accepted po1 \<and> GroupPointers po1 \<noteq> []" using filed_accepts by (auto simp: gone_through_def)
  then show ?thesis using assms(3) by (simp add: choose_groups_def q post_control_def post_junk_def)
qed


end
