(* ===== verification/Artparse_Bounds.thy ===== *)
theory Artparse_Bounds
  imports Artparse
begin

text \<open>
  The parser of articles (\<open>Artparse\<close>) keeps the channel well formed: the table of headers has its size, the error fits in its
  buffer, and every value that is recorded lies in the data, with room for the octet behind it that \<open>HDR_PARSE_START\<close>
  overwrites. So \<open>HDR\<close> and the macros around it stay in the buffer, after whatever reads, parses and moves.
\<close>

definition value_ok :: "nat \<Rightarrow> nat \<Rightarrow> HDRCONTENT \<Rightarrow> bool" where
  "value_ok s n hc \<longleftrightarrow>
     (case Value hc of None \<Rightarrow> Length hc = 0 | Some v \<Rightarrow> - 1 \<le> Length hc \<and> s \<le> v \<and> v + nat (Length hc) < n)"

definition parts_ok :: "octets \<Rightarrow> channel \<Rightarrow> bool" where
  "parts_ok bp cp \<longleftrightarrow> length (HdrContent cp) = MAX_ARTHEADER \<and> length (Error cp) < SMBUF \<and>
     (\<forall>hc\<in>set (HdrContent cp). value_ok (Start cp) (length bp) hc) \<and>
     (\<forall>b. BytesHeader cp = Some b \<longrightarrow> Start cp \<le> b \<and> b < length bp)"

definition channel_ok :: "octets \<Rightarrow> channel \<Rightarrow> bool" where
  "channel_ok bp cp \<longleftrightarrow> parts_ok bp cp \<and> (State cp = CSgetheader \<longrightarrow> Start cp \<le> CurHeader cp \<and> CurHeader cp \<le> Next cp)"

lemma parts_ok_sel [simp]:
  "parts_ok bp (cp\<lparr>Next := n\<rparr>) = parts_ok bp cp" "parts_ok bp (cp\<lparr>State := st\<rparr>) = parts_ok bp cp"
  "parts_ok bp (cp\<lparr>Body := n\<rparr>) = parts_ok bp cp" "parts_ok bp (cp\<lparr>CurHeader := n\<rparr>) = parts_ok bp cp"
  "parts_ok bp (cp\<lparr>Lines := k\<rparr>) = parts_ok bp cp" "parts_ok bp (cp\<lparr>HeaderLines := k\<rparr>) = parts_ok bp cp"
  "parts_ok bp (cp\<lparr>CRwithoutLF := k\<rparr>) = parts_ok bp cp" "parts_ok bp (cp\<lparr>LFwithoutCR := k\<rparr>) = parts_ok bp cp"
  "parts_ok bp (cp\<lparr>DotStuffedLines := k\<rparr>) = parts_ok bp cp"
  by (simp_all add: parts_ok_def)

lemma parts_ok_error [intro]: "parts_ok bp cp \<Longrightarrow> parts_ok bp (ARTerror cp msg)"
  by (simp add: parts_ok_def) (simp add: ARTerror_def SMBUF_def)

lemma parts_ok_note [intro]: "parts_ok bp cp \<Longrightarrow> parts_ok bp (note_octet msg c cp)"
  by (auto simp: note_octet_def Let_def)

lemma parts_ok_body_line [simp]: "parts_ok bp (end_body_line bp' i cp) = parts_ok bp cp"
  by (simp add: end_body_line_def Let_def)

lemma parts_ok_got [simp]: "parts_ok bp (got_article cp) = parts_ok bp cp"
  by (simp add: got_article_def)

text \<open>A value that is put into the table, and the mark of a header that comes twice.\<close>

lemma parts_ok_put:
  assumes "parts_ok bp cp" "value_ok (Start cp) (length bp) hc"
  shows "parts_ok bp (cp\<lparr>HdrContent := (HdrContent cp)[i := hc]\<rparr>)"
  using assms set_update_subset_insert [of "HdrContent cp" i hc] by (auto simp: parts_ok_def)

section \<open>One header field\<close>

lemma skip_white_range: "v \<le> skip_white bp v n \<and> skip_white bp v n \<le> v + n"
proof (induction n arbitrary: v)
  case (Suc n)
  have "v + 1 \<le> skip_white bp (v + 1) n \<and> skip_white bp (v + 1) n \<le> v + 1 + n" by (rule Suc)
  then show ?case unfolding skip_white.simps by (simp split: if_split)
qed simp

lemma trim_white_range: "trim_white bp v n \<le> n"
  by (induction n) auto

lemma field_value_ok:
  assumes "s \<le> header" "header \<le> colon" "colon + 2 \<le> e" "header + sz = e + 2" "e + 1 < n"
  shows "value_ok s n (hc\<lparr>Value := Some (fst (field_value bp xr i header sz colon)), Length := snd (field_value bp xr i header sz colon)\<rparr>)"
proof (cases "i = HDR__MESSAGE_ID \<or> i = HDR__SUPERSEDES \<or> (xr \<and> i = HDR__XREF)")
  case True
  let ?v = "skip_white bp (colon + 1) (header + sz - 2 - (colon + 1))"
  have "colon + 1 \<le> ?v" "?v \<le> e" using skip_white_range [of "colon + 1" bp "header + sz - 2 - (colon + 1)"] assms(3,4) by auto
  moreover have "trim_white bp ?v (header + sz - 2 - ?v) \<le> e - ?v"
    using trim_white_range [of bp ?v "header + sz - 2 - ?v"] assms(4) by simp
  moreover have f: "field_value bp xr i header sz colon = (?v, int (trim_white bp ?v (header + sz - 2 - ?v)))"
    using True by (auto simp: field_value_def Let_def)
  ultimately have "s \<le> ?v \<and> ?v + trim_white bp ?v (header + sz - 2 - ?v) < n" using assms by linarith
  then show ?thesis by (simp add: value_ok_def f)
next
  case False
  then show ?thesis using assms by (auto simp: value_ok_def field_value_def)
qed

lemma checkheader_parts:
  assumes ok: "parts_ok bp cp" and cur: "Start cp \<le> CurHeader cp" "CurHeader cp \<le> i"
    and at: "i + 2 < length bp" "bp ! i = CR" "bp ! (i + 1) = LF"
  shows "parts_ok bp (ARTcheckheader xr bp cp (i + 2 - CurHeader cp))"
proof (cases "memchr bp (CurHeader cp) (i + 2 - CurHeader cp) CHR '':''")
  case None
  then show ?thesis using ok by (auto simp: ARTcheckheader_def Let_def)
next
  case (Some colon)
  then have c: "CurHeader cp \<le> colon" "colon < i + 2" "bp ! colon = CHR '':''" using cur by (auto simp: memchr_Some)
  let ?h = "CurHeader cp" let ?sz = "i + 2 - CurHeader cp"
  show ?thesis
  proof (cases "ISWHITE (bp ! (colon + 1))")
    case False
    then show ?thesis using ok Some by (auto simp: ARTcheckheader_def Let_def)
  next
    case white: True
    have "colon \<noteq> i" "colon \<noteq> i + 1" "colon + 1 \<noteq> i" using c(3) at(2,3) white by (auto simp: ISWHITE_def)
    then have e: "colon + 2 \<le> i" using c(2) by linarith
    show ?thesis
    proof (cases "ARTfindheader (bp ! ?h) (c_str (substr bp ?h (colon - ?h)))")
      case None
      then show ?thesis using ok Some white by (auto simp: ARTcheckheader_def Let_def split: option.split)
    next
      case header: (Some j)
      define cp1 where "cp1 = (if j = HDR__BYTES then cp\<lparr>BytesHeader := Some ?h\<rparr> else cp)"
      have ok1: "parts_ok bp cp1" "HdrContent cp1 = HdrContent cp" "Start cp1 = Start cp"
        using ok cur at(1) by (auto simp: cp1_def parts_ok_def)
      let ?hc = "HdrContent cp ! j" and ?v = "field_value bp xr j ?h ?sz colon"
      have "parts_ok bp (cp1\<lparr>HdrContent := (HdrContent cp1)[j := ?hc\<lparr>Length := - 1\<rparr>]\<rparr>)" if l: "Length ?hc \<noteq> 0"
      proof (cases "j < length (HdrContent cp)")
        case True
        then have "value_ok (Start cp) (length bp) ?hc" using ok by (simp add: parts_ok_def)
        then have "value_ok (Start cp) (length bp) (?hc\<lparr>Length := - 1\<rparr>)" using l by (auto simp: value_ok_def split: option.splits)
        then show ?thesis using parts_ok_put [OF ok1(1)] ok1(3) by simp
      qed (use ok1 in \<open>simp add: parts_ok_def list_update_beyond\<close>)
      moreover have "parts_ok bp (cp1\<lparr>HdrContent := (HdrContent cp1)[j := ?hc\<lparr>Value := Some (fst ?v), Length := snd ?v\<rparr>]\<rparr>)"
        using field_value_ok [of "Start cp" ?h colon i ?sz "length bp"] c(1) e cur at(1)
        by (intro parts_ok_put [OF ok1(1)]) (simp add: ok1(3))
      ultimately show ?thesis
        using Some white header ok1
        unfolding ARTcheckheader_def Let_def Some option.case header cp1_def [symmetric] by (auto split: prod.split)
    qed
  qed
qed

section \<open>The loops\<close>

lemma body_loop_parts: "parts_ok bp cp \<Longrightarrow> parts_ok bp (ARTparsebody_loop bp i cp)"
proof (induction bp i cp rule: ARTparsebody_loop.induct)
  case (1 bp i cp)
  let ?c = "note_octet ''Nul character in body'' (bp ! i) cp"
  have n: "parts_ok bp ?c" using 1(4) by (rule parts_ok_note)
  show ?case
    by (subst ARTparsebody_loop.simps) (use 1 n in \<open>auto simp: Let_def\<close>)
qed

lemma body_loop_state: "State cp \<noteq> CSgetheader \<Longrightarrow> State (ARTparsebody_loop bp i cp) \<noteq> CSgetheader"
proof (induction bp i cp rule: ARTparsebody_loop.induct)
  case (1 bp i cp)
  let ?c = "note_octet ''Nul character in body'' (bp ! i) cp"
  have g: "State (got_article c) \<noteq> CSgetheader" for c by (simp add: got_article_def)
  show ?case
    by (subst ARTparsebody_loop.simps) (use 1 g in \<open>auto simp: Let_def\<close>)
qed

lemma end_line_ok:
  assumes "parts_ok bp cp" "State cp = CSgetheader" "Start cp \<le> CurHeader cp" "CurHeader cp \<le> i"
    and "i < length bp" "bp ! i = CR" "\<not> length bp - i < 5" "bp ! (i + 1) = LF" "end_header_line xr bp i cp = (j, c)"
  shows "parts_ok bp c \<and> State c = CSgetheader \<and> Start c \<le> CurHeader c \<and> CurHeader c \<le> j"
proof (cases "i = Start cp")
  case True
  then show ?thesis using assms by (auto simp: end_header_line_def)
next
  case False
  let ?d = "cp\<lparr>HeaderLines := HeaderLines cp + 1\<rparr>"
  have "parts_ok bp (ARTcheckheader xr bp ?d (i + 2 - CurHeader ?d))"
    using assms by (intro checkheader_parts) auto
  then show ?thesis using assms False by (auto simp: end_header_line_def Let_def split: if_split_asm)
qed

lemma header_loop_ok:
  "parts_ok bp cp \<Longrightarrow> State cp = CSgetheader \<Longrightarrow> Start cp \<le> CurHeader cp \<Longrightarrow> CurHeader cp \<le> i \<Longrightarrow>
   channel_ok bp (ARTparseheader_loop xr bp i cp)"
proof (induction xr bp i cp rule: ARTparseheader_loop.induct)
  case (1 xr bp i cp)
  let ?c = "note_octet ''Nul character in header'' (bp ! i) cp"
  have n: "parts_ok bp ?c" using 1(4) by (rule parts_ok_note)
  consider (stop) "length bp \<le> i" | (other) "i < length bp" "bp ! i \<noteq> CR"
    | (dot) "i < length bp" "bp ! i = CR" "starts_with_dot bp (Start cp) i"
    | (wait) "i < length bp" "bp ! i = CR" "\<not> starts_with_dot bp (Start cp) i" "length bp - i < 5"
    | (more) "i < length bp" "bp ! i = CR" "\<not> starts_with_dot bp (Start cp) i" "\<not> length bp - i < 5"
    by linarith
  then show ?case
  proof cases
    case stop
    then show ?thesis using "1.prems" by (simp add: parseheader_stop channel_ok_def)
  next
    case other
    have "channel_ok bp (ARTparseheader_loop xr bp (i + 1) ?c)" using other "1.prems" n by (intro "1.IH"(1)) auto
    then show ?thesis using other by (simp add: parseheader_other)
  next
    case dot
    then show ?thesis using parts_ok_error [OF "1.prems"(1)] by (simp add: parseheader_dot channel_ok_def)
  next
    case wait
    then show ?thesis using "1.prems" by (simp add: parseheader_wait channel_ok_def)
  next
    case more
    have c: "?c = cp" using more(2) by simp
    obtain j cp' where hl: "end_header_line xr bp i cp = (j, cp')" by fastforce
    note step = parseheader_CR [OF more hl]
    consider (the_end) "at bp i end_of_line_dot" | (line) "\<not> at bp i end_of_line_dot" "bp ! (i + 1) = LF"
      | (single) "\<not> at bp i end_of_line_dot" "bp ! (i + 1) \<noteq> LF" by blast
    then show ?thesis
    proof cases
      case the_end
      then show ?thesis using parts_ok_error [OF "1.prems"(1)] unfolding step by (simp add: channel_ok_def del: at_Cons)
    next
      case line
      have ok: "parts_ok bp cp'" "State cp' = CSgetheader" "Start cp' \<le> CurHeader cp'" "CurHeader cp' \<le> j"
        using end_line_ok [OF "1.prems" _ more(2,4) line(2) hl] more(1) by auto
      show ?thesis
      proof (cases "bp ! j = CR \<and> bp ! (j + 1) = LF")
        case True
        have "channel_ok bp (ARTparsebody bp (cp'\<lparr>Next := j + 2, Body := j + 2, State := CSgetbody\<rparr>))"
          using ok(1) body_loop_parts body_loop_state by (simp add: ARTparsebody_def channel_ok_def)
        then show ?thesis using True line unfolding step by (simp del: at_Cons)
      next
        case False
        have "channel_ok bp (ARTparseheader_loop xr bp (j + 1) cp')"
        proof (rule "1.IH"(2) [OF _ refl])
          show "(j, cp') = end_header_line xr bp i ?c" unfolding c hl by (rule refl)
        qed (use more line False ok in \<open>simp_all del: at_Cons\<close>)
        then show ?thesis unfolding step if_not_P [OF line(1)] if_P [OF line(2)] if_not_P [OF False] .
      qed
    next
      case single
      have "channel_ok bp (ARTparseheader_loop xr bp (i + 1) (?c\<lparr>CRwithoutLF := CRwithoutLF ?c + 1\<rparr>))"
        using more single "1.prems" by (intro "1.IH"(3) [OF _ refl]) (simp_all del: at_Cons)
      then show ?thesis using single unfolding step c by (simp del: at_Cons)
    qed
  qed
qed

section \<open>The channel\<close>

lemma parse_ok:
  assumes "channel_ok bp cp" "receiving cp" "ARTparse xr m now bp (cp, h) = Some (cp', h')"
  shows "channel_ok bp cp'"
proof -
  let ?d = "ARTparse_data xr bp cp"
  have d: "channel_ok bp ?d"
    using assms(1) header_loop_ok body_loop_parts body_loop_state
    by (auto simp: ARTparse_data_def ARTparseheader_def ARTparsebody_def channel_ok_def)
  then have c: "channel_ok bp (checksize_state m ?d)"
    by (auto simp: channel_ok_def checksize_state_def Let_def)
  have save: "channel_ok bp (HDR_LASTCHAR_SAVE bp c i)" if c: "channel_ok bp c" for c i
  proof (cases "i < length (HdrContent c)")
    case True
    then have "value_ok (Start c) (length bp) (HdrContent c ! i)" using c by (simp add: channel_ok_def parts_ok_def)
    then have "value_ok (Start c) (length bp) ((HdrContent c ! i)\<lparr>LastChar := x\<rparr>)" for x
      by (simp add: value_ok_def cong: option.case_cong)
    then show ?thesis using c parts_ok_put
      by (auto simp: HDR_LASTCHAR_SAVE_def channel_ok_def Let_def split: option.split)
  qed (use c in \<open>auto simp: HDR_LASTCHAR_SAVE_def Let_def channel_ok_def parts_ok_def list_update_beyond split: option.split\<close>)
  show ?thesis
    using assms(3) c save unfolding ARTparse_def ARTchecksize_def
    by (auto simp: Let_def split: if_split_asm bind_splits)
qed

lemma move_ok:
  assumes "channel_ok bp cp" "receiving cp" "Start cp \<le> Next cp"
  shows "channel_ok (fst (move_data bp cp)) (snd (move_data bp cp))"
proof -
  have "value_ok 0 (length bp - Start cp) (hc\<lparr>Value := map_option (\<lambda>v. v - Start cp) (Value hc)\<rparr>)"
    if "value_ok (Start cp) (length bp) hc" for hc
    using that by (auto simp: value_ok_def split: option.splits)
  moreover have "State cp = CSgetheader \<or> State cp = CSgetbody \<or> State cp = CSeatarticle" using assms(2) by (auto simp: receiving_def)
  ultimately show ?thesis
    using assms(1,3) by (auto simp: move_data_def Let_def channel_ok_def parts_ok_def)
qed

lemma read_ok: "channel_ok bp cp \<Longrightarrow> channel_ok (bp @ d) cp"
proof -
  have "value_ok s n hc \<Longrightarrow> n \<le> n' \<Longrightarrow> value_ok s n' hc" for s n n' hc by (auto simp: value_ok_def split: option.splits)
  then show "channel_ok bp cp \<Longrightarrow> channel_ok (bp @ d) cp" by (fastforce simp: channel_ok_def parts_ok_def)
qed

text \<open>
  C16: The channel stays well formed. From the start of an article on, whatever data arrive and whenever they are parsed and moved, the
  table of headers keeps its 76 entries, the text of an error is shorter than its buffer of 256 octets, and each header that is recorded
  has its value inside the data of the article that are in the buffer, the octet behind it included; the length is -1 for a header that came
  twice, and 0 for one that did not come. The same holds of the place of the Bytes field.
\<close>

theorem channel_well_formed:
  assumes "begin_article bp0 cp0 cp1" "maxartsize = 0 \<or> 5 \<le> maxartsize"
    and "(nc_step xrefslave maxartsize)\<^sup>*\<^sup>* (bp0, cp1, h0) (bp, cp, h)"
  shows "channel_ok bp cp"
proof -
  have begun: "channel_ok bp0 cp1"
    using assms(1) by (auto simp: begin_article_def ARTprepare_def channel_ok_def parts_ok_def value_ok_def SMBUF_def)
  have "channel_ok (fst c) (fst (snd c))" if "(nc_step xrefslave maxartsize)\<^sup>*\<^sup>* (bp0, cp1, h0) c" for c
    using that
  proof (induction rule: rtranclp_induct)
    case (step c d)
    have f: "framing (fst c) (fst (snd c))" using nc_steps_framing [OF step.hyps(1) framing_start [OF assms(1)] assms(2)] .
    from step.hyps(2) show ?case
    proof cases
      case (nc_read cp bp h x)
      then show ?thesis using step read_ok by simp
    next
      case (nc_parse cp now bp h cp' h')
      then show ?thesis using step parse_ok by simp
    next
      case (nc_move cp bp h)
      then show ?thesis using step move_ok f by (simp add: framing_def)
    qed
  qed (use begun in simp)
  from this [OF assms(3)] show ?thesis by simp
qed

text \<open>The example of \<open>Artparse\<close>: behind the end of the article, no header is recorded and the error is there.\<close>

theorem channel_well_formed_witness:
  "channel_ok (example_in1 @ example_in2)
     ((ARTerror example_begun ''No headers'')\<lparr>State := CSgotarticle, Next := 9, Body := 2, Lines := Lines example_begun + 1\<rparr>)"
proof -
  let ?h = "\<lparr>methods = \<lparr>m_sync = \<lambda>s. (True, s), m_lookup = \<lambda>s k. Some (None, s), m_check = \<lambda>s k. Some (False, s),
      m_write = \<lambda>s k a p e t. Some (True, s), m_remember = \<lambda>s k a p. Some (True, s),
      m_replace = \<lambda>s k a p e t. Some (True, s)\<rparr>, sub = (), cache = None, cachesize = 0, stats = nullhist\<rparr>
    :: (unit, unit) history"
  let ?c = "(ARTerror example_begun ''No headers'')\<lparr>State := CSgetbody, Next := 4, Body := 2\<rparr>"
  have b: "begin_article example_in1 example_channel example_begun"
    by (simp add: begin_article_def example_begun_def example_channel_def)
  have "nc_step False 0 (example_in1, example_begun, ?h) (example_in1, ?c, ?h)"
    by (rule nc_parse [OF _ example_parse1]) (simp add: receiving_def example_begun_sel)
  moreover have "nc_step False 0 (example_in1, ?c, ?h) (example_in1 @ example_in2, ?c, ?h)"
    by (rule nc_read) (simp add: receiving_def)
  moreover have "nc_step False 0 (example_in1 @ example_in2, ?c, ?h) (example_in1 @ example_in2, (ARTerror example_begun ''No headers'')\<lparr>State := CSgotarticle, Next := 9, Body := 2, Lines := Lines example_begun + 1\<rparr>, ?h)"
    by (rule nc_parse [OF _ example_parse2]) (simp add: receiving_def)
  ultimately have "(nc_step False 0)\<^sup>*\<^sup>* (example_in1, example_begun, ?h) (example_in1 @ example_in2, (ARTerror example_begun ''No headers'')\<lparr>State := CSgotarticle, Next := 9, Body := 2, Lines := Lines example_begun + 1\<rparr>, ?h)"
    by (meson rtranclp.rtrancl_into_rtrancl r_into_rtranclp)
  then show ?thesis using channel_well_formed [OF b] by blast
qed

end
